(* ===== verification/Go_Prelude.thy ===== *)
theory Go_Prelude
  imports Main "HOL-Library.Sublist" "HOL-Library.AList"
begin

text \<open>
  What every component of the development shares: the types that stand for Go's time and
  duration values, the parts of Go's \<open>strings\<close> package the sources use, the
  \<open>seen\<close>-map loop that drops duplicates, and generic facts on association lists (Go maps)
  and on tables (lists of rows with an identifier).

  Strings are byte lists. \<open>to_lower\<close> and \<open>trim_space\<close> are Go's \<open>strings.ToLower\<close> and
  \<open>strings.TrimSpace\<close> on ASCII text; bytes from 128 on are left as they are.
\<close>

section \<open>Types and collections\<close>

text \<open>
  A \<open>time.Time\<close> is its distance in nanoseconds from Go's zero time, a
  \<open>time.Duration\<close> is a number of nanoseconds, as in Go. The zero time is 0.
\<close>

type_synonym time = int
type_synonym duration = int

type_synonym ('e, 'a) result = "'e + 'a"

abbreviation (input) zero_time :: time where "zero_time \<equiv> 0"
abbreviation (input) second :: duration where "second \<equiv> 1000000000"
abbreviation (input) minute :: duration where "minute \<equiv> 60000000000"
abbreviation (input) hour :: duration where "hour \<equiv> 3600000000000"

named_theorems go_defs \<open>definitions of the model that proofs unfold together\<close>
named_theorems table_simps \<open>facts on tables of rows\<close>

text \<open>
  A Go function that returns early on an error is a chain of \<open>if\<close>s whose first branch is an
  error. These rules read such a chain backwards: it succeeds when no guard holds.
\<close>

named_theorems guard_simps \<open>success of a chain of guards\<close>

lemma guard_None [guard_simps]: "((if b then Some x else y) = None) \<longleftrightarrow> \<not> b \<and> y = None"
  by simp

lemma guard_Inr [guard_simps]: "((if b then Inl e else y) = Inr r) \<longleftrightarrow> \<not> b \<and> y = Inr r"
  by simp

lemma bind_Inr [guard_simps]:
  "((case x of Inl e \<Rightarrow> Inl (f e) | Inr a \<Rightarrow> g a) = Inr r) \<longleftrightarrow> (\<exists>a. x = Inr a \<and> g a = Inr r)"
  by (cases x) auto

lemma problem_Inr [guard_simps]:
  "((case x of Some e \<Rightarrow> Inl (f e) | None \<Rightarrow> y) = Inr r) \<longleftrightarrow> x = None \<and> y = Inr r"
  by (cases x) auto

section \<open>The strings package\<close>

definition to_lower_char :: "char \<Rightarrow> char" where
  "to_lower_char c =
     (let n = of_char c :: nat in if 65 \<le> n \<and> n \<le> 90 then char_of (n + 32) else c)"

definition to_lower :: "string \<Rightarrow> string" where
  "to_lower s = map to_lower_char s"

definition is_space :: "char \<Rightarrow> bool" where
  "is_space c \<longleftrightarrow> (of_char c :: nat) \<in> {9, 10, 11, 12, 13, 32}"

definition trim_left :: "(char \<Rightarrow> bool) \<Rightarrow> string \<Rightarrow> string" where
  "trim_left p s = dropWhile p s"

definition trim_by :: "(char \<Rightarrow> bool) \<Rightarrow> string \<Rightarrow> string" where
  "trim_by p s = rev (dropWhile p (rev (dropWhile p s)))"

definition trim_space :: "string \<Rightarrow> string" where
  "trim_space s = trim_by is_space s"

fun contains_str :: "string \<Rightarrow> string \<Rightarrow> bool" where
  "contains_str [] sub = (sub = [])"
| "contains_str (c # s) sub = (prefix sub (c # s) \<or> contains_str s sub)"

fun last_index :: "char \<Rightarrow> string \<Rightarrow> nat option" where
  "last_index c [] = None"
| "last_index c (x # xs) =
     (case last_index c xs of
        Some i \<Rightarrow> Some (Suc i)
      | None \<Rightarrow> if x = c then Some 0 else None)"

fun index_of :: "char \<Rightarrow> string \<Rightarrow> nat option" where
  "index_of c [] = None"
| "index_of c (x # xs) = (if x = c then Some 0 else map_option Suc (index_of c xs))"

fun join_with :: "string \<Rightarrow> string list \<Rightarrow> string" where
  "join_with sep [] = []"
| "join_with sep [x] = x"
| "join_with sep (x # y # ys) = x @ sep @ join_with sep (y # ys)"

fun split_on :: "char \<Rightarrow> string \<Rightarrow> string list" where
  "split_on c [] = [[]]"
| "split_on c (x # xs) =
     (if x = c then [] # split_on c xs
      else (case split_on c xs of [] \<Rightarrow> [[x]] | p # ps \<Rightarrow> (x # p) # ps))"

text \<open>\<open>strconv.Itoa\<close> and \<open>%d\<close> on a number that is not negative.\<close>

fun show_nat :: "nat \<Rightarrow> string" where
  "show_nat n = (if n < 10 then [char_of (48 + n)] else show_nat (n div 10) @ [char_of (48 + n mod 10)])"

declare show_nat.simps [simp del]

lemma split_on_not_Nil [simp]: "split_on c s \<noteq> []"
  by (induction s) (auto split: list.splits)

lemma split_on_join: "join_with [c] (split_on c s) = s"
proof (induction s)
  case (Cons x s)
  then show ?case by (cases "split_on c s"; cases "tl (split_on c s)") auto
qed simp

lemma to_lower_char_idem [simp]: "to_lower_char (to_lower_char c) = to_lower_char c"
  by (auto simp: to_lower_char_def Let_def)

lemma to_lower_idem [simp]: "to_lower (to_lower s) = to_lower s"
  by (simp add: to_lower_def)

lemma to_lower_Nil [simp]: "to_lower [] = []" "to_lower s = [] \<longleftrightarrow> s = []"
  by (auto simp: to_lower_def)

lemma length_to_lower [simp]: "length (to_lower s) = length s"
  by (simp add: to_lower_def)

lemma is_space_to_lower [simp]: "is_space (to_lower_char c) = is_space c"
  by (auto simp: is_space_def to_lower_char_def Let_def)

lemma dropWhile_to_lower:
  "dropWhile is_space (to_lower s) = to_lower (dropWhile is_space s)"
  by (induction s) (auto simp: to_lower_def)

lemma rev_to_lower: "rev (to_lower s) = to_lower (rev s)"
  by (simp add: to_lower_def rev_map)

lemma trim_space_to_lower [simp]: "trim_space (to_lower s) = to_lower (trim_space s)"
  unfolding trim_space_def trim_by_def dropWhile_to_lower
  by (simp add: rev_to_lower dropWhile_to_lower)

lemma trim_by_Nil [simp]: "trim_by p [] = []"
  by (simp add: trim_by_def)

lemma trim_by_idem [simp]: "trim_by p (trim_by p s) = trim_by p s"
proof -
  let ?t = "dropWhile p s"
  let ?u = "rev (dropWhile p (rev ?t))"
  have "dropWhile p ?u = ?u"
  proof (cases "?u")
    case Nil
    show ?thesis unfolding Nil by simp
  next
    case (Cons a xs)
    have "suffix (dropWhile p (rev ?t)) (rev ?t)" by (rule suffix_dropWhile)
    then have "prefix ?u ?t" by (simp add: suffix_to_prefix)
    with Cons obtain ys where "?t = a # ys" by (auto simp: prefix_def)
    then have "\<not> p a" by (metis hd_dropWhile list.discI list.sel(1))
    with Cons show ?thesis by simp
  qed
  then show ?thesis
    unfolding trim_by_def by (metis dropWhile_idem rev_rev_ident)
qed

lemma trim_space_idem [simp]: "trim_space (trim_space s) = trim_space s"
  by (simp add: trim_space_def)

lemma contains_str_sublist: "contains_str s sub \<longleftrightarrow> sublist sub s"
  by (induction s) (auto simp: sublist_Cons_right)

lemma last_index_None [simp]: "last_index c s = None \<longleftrightarrow> c \<notin> set s"
  by (induction s) (auto split: option.splits)

lemma last_index_Some:
  "last_index c s = Some i \<Longrightarrow>
     i < length s \<and> s ! i = c \<and> c \<notin> set (drop (Suc i) s)"
  by (induction s arbitrary: i) (auto split: option.splits if_splits)

section \<open>The duplicate-dropping loop\<close>

text \<open>
  Five functions of the sources walk a list with a \<open>seen\<close> map and keep the first element of
  every key, skipping elements that have none. \<open>uniq_by\<close> is that loop.
\<close>

fun uniq_by :: "('a \<Rightarrow> 'k option) \<Rightarrow> 'k list \<Rightarrow> 'a list \<Rightarrow> 'a list" where
  "uniq_by key seen [] = []"
| "uniq_by key seen (x # xs) =
     (case key x of
        None \<Rightarrow> uniq_by key seen xs
      | Some k \<Rightarrow> if k \<in> set seen then uniq_by key seen xs
                 else x # uniq_by key (k # seen) xs)"

lemma uniq_by_keys_fresh:
  "x \<in> set (uniq_by key seen xs) \<Longrightarrow> \<exists>k. key x = Some k \<and> k \<notin> set seen"
  by (induction xs arbitrary: seen) (fastforce split: option.splits if_splits)+

lemma uniq_by_subset: "set (uniq_by key seen xs) \<subseteq> set xs"
  by (induction xs arbitrary: seen) (auto split: option.splits if_splits)

lemma uniq_by_distinct: "distinct (map key (uniq_by key seen xs))"
proof (induction xs arbitrary: seen)
  case (Cons x xs)
  then show ?case
    by (auto split: option.splits dest: uniq_by_keys_fresh)
qed simp

lemma uniq_by_keys:
  "key ` set (uniq_by key seen xs) = {Some k | k. Some k \<in> key ` set xs \<and> k \<notin> set seen}"
proof (induction xs arbitrary: seen)
  case (Cons x xs)
  show ?case
  proof (cases "key x")
    case None
    then show ?thesis using Cons.IH by (auto simp: image_iff)
  next
    case (Some k)
    then show ?thesis
      using Cons.IH[of seen] Cons.IH[of "k # seen"]
      by (cases "k \<in> set seen") auto
  qed
qed simp

lemma uniq_by_subseq: "subseq (uniq_by key seen xs) xs"
  by (induction xs arbitrary: seen) (auto split: option.splits if_splits)

lemma uniq_by_length: "length (uniq_by key seen xs) \<le> length xs"
  by (rule list_emb_length [OF uniq_by_subseq])

section \<open>First minimum and stable sorting\<close>

text \<open>
  The first element that a stable sort by \<open>f\<close> puts in front. \<open>sort.SliceStable\<close> is HOL's
  \<open>sort_key\<close>, which is stable.
\<close>

fun first_min :: "('a \<Rightarrow> 'b::linorder) \<Rightarrow> 'a list \<Rightarrow> 'a option" where
  "first_min f [] = None"
| "first_min f (x # xs) =
     (case first_min f xs of
        None \<Rightarrow> Some x
      | Some y \<Rightarrow> if f x \<le> f y then Some x else Some y)"

lemma first_min_sort_key:
  "first_min f xs = (case sort_key f xs of [] \<Rightarrow> None | y # ys \<Rightarrow> Some y)"
proof (induction xs)
  case (Cons x xs)
  then show ?case by (cases "sort_key f xs") (auto split: if_splits)
qed simp

lemma find_filter: "find P xs = (case filter P xs of [] \<Rightarrow> None | y # ys \<Rightarrow> Some y)"
  by (induction xs) auto

lemma find_sort_key: "find P (sort_key f xs) = first_min f (filter P xs)"
  by (simp add: find_filter filter_sort first_min_sort_key)

lemma first_min_None [simp]: "first_min f xs = None \<longleftrightarrow> xs = []"
  by (cases xs) (auto split: option.splits)

lemma first_min_least:
  "first_min f xs = Some z \<Longrightarrow> z \<in> set xs \<and> (\<forall>w \<in> set xs. f z \<le> f w)"
  by (induction xs arbitrary: z) (force split: option.splits if_splits)+

lemma first_min_filter_split:
  "first_min f (filter P xs) = Some x \<Longrightarrow>
     \<exists>pre post. xs = pre @ x # post \<and> P x \<and>
       (\<forall>y \<in> set pre. P y \<longrightarrow> f x < f y) \<and> (\<forall>y \<in> set post. P y \<longrightarrow> f x \<le> f y)"
proof (induction xs)
  case (Cons a xs)
  show ?case
  proof (cases "P a \<and> (\<forall>y. first_min f (filter P xs) = Some y \<longrightarrow> f a \<le> f y)")
    case True
    with Cons.prems have x: "x = a" by (auto split: option.splits if_splits)
    have "f a \<le> f y" if "y \<in> set xs" "P y" for y
    proof -
      from that obtain z where z: "first_min f (filter P xs) = Some z"
        by (cases "first_min f (filter P xs)") (auto simp: filter_empty_conv)
      from first_min_least [OF z] that(1,2) have "f z \<le> f y" by auto
      with True z show ?thesis by (meson order_trans)
    qed
    then show ?thesis using True x by (intro exI [of _ "[]"] exI [of _ xs]) auto
  next
    case False
    with Cons.prems have fm: "first_min f (filter P xs) = Some x" and lt: "P a \<longrightarrow> f x < f a"
      by (auto split: if_splits option.splits)
    from Cons.IH [OF fm] obtain pre post where
      "xs = pre @ x # post" "P x" "\<forall>y \<in> set pre. P y \<longrightarrow> f x < f y" "\<forall>y \<in> set post. P y \<longrightarrow> f x \<le> f y"
      by blast
    with lt show ?thesis by (intro exI [of _ "a # pre"] exI [of _ post]) auto
  qed
qed simp

section \<open>Association lists as Go maps\<close>

lemma length_update_mem: "k \<in> fst ` set m \<Longrightarrow> length (AList.update k v m) = length m"
  by (induction m) auto

lemma length_update_new: "k \<notin> fst ` set m \<Longrightarrow> length (AList.update k v m) = Suc (length m)"
  by (induction m) auto

lemma update_new: "k \<notin> fst ` set al \<Longrightarrow> AList.update k v al = al @ [(k, v)]"
  by (induction al) auto

lemma delete_notin_id: "k \<notin> fst ` set m \<Longrightarrow> AList.delete k m = m"
  by (induction m) auto

lemma length_delete_mem:
  "distinct (map fst m) \<Longrightarrow> k \<in> fst ` set m \<Longrightarrow> Suc (length (AList.delete k m)) = length m"
  by (induction m) (auto simp: delete_notin_id)

lemma distinct_map_filter_fst: "distinct (map fst m) \<Longrightarrow> distinct (map fst (filter P m))"
  by (induction m) auto

lemma map_of_filter_key:
  "distinct (map fst m) \<Longrightarrow>
   map_of (filter P m) k = (case map_of m k of Some v \<Rightarrow> if P (k, v) then Some v else None | None \<Rightarrow> None)"
  by (induction m) (auto simp: map_of_eq_None_iff split: option.splits)

section \<open>Tables\<close>

text \<open>
  A database table is a list of rows. An \<open>UPDATE ... WHERE p\<close> is a \<open>map\<close> over the rows and a
  \<open>DELETE ... WHERE p\<close> a \<open>filter\<close>; both leave the other rows alone.
\<close>

definition update_where :: "('r \<Rightarrow> bool) \<Rightarrow> ('r \<Rightarrow> 'r) \<Rightarrow> 'r list \<Rightarrow> 'r list" where
  "update_where p f rows = map (\<lambda>r. if p r then f r else r) rows"

definition delete_where :: "('r \<Rightarrow> bool) \<Rightarrow> 'r list \<Rightarrow> 'r list" where
  "delete_where p rows = filter (\<lambda>r. \<not> p r) rows"

definition affected :: "('r \<Rightarrow> bool) \<Rightarrow> 'r list \<Rightarrow> nat" where
  "affected p rows = length (filter p rows)"

lemma set_update_where [table_simps]:
  "set (update_where p f rows) = {if p r then f r else r | r. r \<in> set rows}"
  by (auto simp: update_where_def)

lemma in_delete_where [table_simps]: "r \<in> set (delete_where p rows) \<longleftrightarrow> r \<in> set rows \<and> \<not> p r"
  by (simp add: delete_where_def)

lemma map_update_where:
  "(\<And>r. p r \<Longrightarrow> g (f r) = g r) \<Longrightarrow> map g (update_where p f rows) = map g rows"
  by (simp add: update_where_def)

lemma distinct_delete_where:
  "distinct (map g rows) \<Longrightarrow> distinct (map g (delete_where p rows))"
  by (induction rows) (auto simp: delete_where_def)

lemma affected_0_iff [table_simps]: "affected p rows = 0 \<longleftrightarrow> (\<forall>r \<in> set rows. \<not> p r)"
  by (auto simp: affected_def filter_empty_conv)

lemma update_where_hit: "r \<in> set rows \<Longrightarrow> p r \<Longrightarrow> f r \<in> set (update_where p f rows)"
  by (auto simp: update_where_def)

lemma update_where_miss: "r \<in> set rows \<Longrightarrow> \<not> p r \<Longrightarrow> r \<in> set (update_where p f rows)"
  by (force simp: update_where_def)

lemma update_where_False [simp]: "update_where (\<lambda>_. False) f rows = rows"
  by (induction rows) (simp_all add: update_where_def)

lemma update_where_none: "affected p rows = 0 \<Longrightarrow> update_where p f rows = rows"
  unfolding affected_0_iff by (induction rows) (auto simp: update_where_def)

text \<open>With a unique identifier a lookup finds the row, and at most one row has it.\<close>

definition find_row :: "('r \<Rightarrow> bool) \<Rightarrow> 'r list \<Rightarrow> 'r option" where
  "find_row p rows = find p rows"

lemma find_row_Some: "find_row p rows = Some r \<Longrightarrow> r \<in> set rows \<and> p r"
  by (auto simp: find_row_def find_Some_iff)

lemma find_row_None: "find_row p rows = None \<longleftrightarrow> (\<forall>r \<in> set rows. \<not> p r)"
  by (auto simp: find_row_def find_None_iff)

lemma same_id_same_row:
  "distinct (map g rows) \<Longrightarrow> r \<in> set rows \<Longrightarrow> s \<in> set rows \<Longrightarrow> g r = g s \<Longrightarrow> r = s"
  by (metis distinct_map inj_on_eq_iff)

lemma find_row_unique:
  assumes "distinct (map g rows)" "r \<in> set rows" "P r" "\<And>s. P s \<Longrightarrow> g s = g r"
  shows "find_row P rows = Some r"
proof (cases "find_row P rows")
  case None
  with assms show ?thesis by (auto simp: find_row_None)
next
  case (Some s)
  with find_row_Some [OF Some] assms show ?thesis by (metis same_id_same_row)
qed

end
