(* ===== verification/Run_Traces.thy ===== *)
theory Run_Traces
  imports Go_Prelude
begin

text \<open>
  Sequences of operations on a shared state. \<open>trace\<close> pairs every operation with the state it ran
  in, so that a property of a whole run is a property of that list. The two interfaces say what a
  component promises about single operations; the lemmas inside them carry the promise to runs.
\<close>

definition run :: "('op \<Rightarrow> 's \<Rightarrow> 's) \<Rightarrow> 'op list \<Rightarrow> 's \<Rightarrow> 's" where
  "run step ops s = fold step ops s"

fun trace :: "('op \<Rightarrow> 's \<Rightarrow> 's) \<Rightarrow> 'op list \<Rightarrow> 's \<Rightarrow> ('op \<times> 's) list" where
  "trace step [] s = []"
| "trace step (op # ops) s = (op, s) # trace step ops (step op s)"

lemma run_simps [simp]:
  "run step [] s = s"
  "run step (op # ops) s = run step ops (step op s)"
  by (simp_all add: run_def)

lemma run_append [simp]: "run step (as @ bs) s = run step bs (run step as s)"
  by (simp add: run_def)

lemma map_fst_trace [simp]: "map fst (trace step ops s) = ops"
  by (induction ops arbitrary: s) simp_all

lemma trace_op: "(op, t) \<in> set (trace step ops s) \<Longrightarrow> op \<in> set ops"
  by (induction ops arbitrary: s) auto

lemma length_trace [simp]: "length (trace step ops s) = length ops"
  by (induction ops arbitrary: s) simp_all

text \<open>A state invariant kept by every admissible operation.\<close>

locale invariant_steps =
  fixes step :: "'op \<Rightarrow> 's \<Rightarrow> 's"
    and good :: "'op \<Rightarrow> bool"
    and ok :: "'s \<Rightarrow> bool"
  assumes step_inv: "good op \<Longrightarrow> ok s \<Longrightarrow> ok (step op s)"
begin

lemma run_inv: "list_all good ops \<Longrightarrow> ok s \<Longrightarrow> ok (run step ops s)"
  by (induction ops arbitrary: s) (simp_all add: step_inv)

lemma trace_inv: "list_all good ops \<Longrightarrow> ok s \<Longrightarrow> (op, t) \<in> set (trace step ops s) \<Longrightarrow> ok t"
proof (induction ops arbitrary: s)
  case (Cons a ops)
  then show ?case
    using Cons.IH [of "step a s"] by (auto intro: step_inv)
qed simp

end

text \<open>
  A resource that is used up: winning a key needs the key open, closes it, and only an operation
  that reopens the key opens it again.
\<close>

locale single_use = invariant_steps step "\<lambda>_. True" ok
  for step :: "'op \<Rightarrow> 's \<Rightarrow> 's" and ok :: "'s \<Rightarrow> bool" +
  fixes is_open :: "'s \<Rightarrow> 'k \<Rightarrow> bool"
    and wins :: "'k \<Rightarrow> 'op \<Rightarrow> 's \<Rightarrow> bool"
    and reopens :: "'k \<Rightarrow> 'op \<Rightarrow> bool"
  assumes wins_open: "ok s \<Longrightarrow> \<not> reopens k op \<Longrightarrow> wins k op s \<Longrightarrow> is_open s k"
    and wins_closes: "ok s \<Longrightarrow> \<not> reopens k op \<Longrightarrow> wins k op s \<Longrightarrow> \<not> is_open (step op s) k"
    and stays_closed: "ok s \<Longrightarrow> \<not> reopens k op \<Longrightarrow> \<not> is_open s k \<Longrightarrow> \<not> is_open (step op s) k"
begin

lemma no_win_closed:
  "ok s \<Longrightarrow> \<not> is_open s k \<Longrightarrow> list_all (\<lambda>op. \<not> reopens k op) ops \<Longrightarrow>
   filter (\<lambda>(op, t). wins k op t) (trace step ops s) = []"
proof (induction ops arbitrary: s)
  case (Cons op ops)
  then show ?case
    using wins_open stays_closed step_inv by auto
qed simp

lemma at_most_one_win:
  "ok s \<Longrightarrow> list_all (\<lambda>op. \<not> reopens k op) ops \<Longrightarrow>
   length (filter (\<lambda>(op, t). wins k op t) (trace step ops s)) \<le> 1"
proof (induction ops arbitrary: s)
  case (Cons op ops)
  then show ?case
    using no_win_closed [of "step op s" k ops] wins_closes step_inv by auto
qed simp

end

text \<open>
  A budget: an invariant with a rank that no admissible operation raises and every operation that
  spends lowers. In any run at most that many operations spend.
\<close>

locale ranked_steps = invariant_steps step good ok
  for step :: "'op \<Rightarrow> 's \<Rightarrow> 's" and good :: "'op \<Rightarrow> bool" and ok :: "'s \<Rightarrow> bool" +
  fixes rank :: "'s \<Rightarrow> nat"
    and spends :: "'op \<Rightarrow> 's \<Rightarrow> bool"
  assumes rank_mono: "good op \<Longrightarrow> ok s \<Longrightarrow> rank (step op s) \<le> rank s"
    and rank_less: "good op \<Longrightarrow> ok s \<Longrightarrow> spends op s \<Longrightarrow> rank (step op s) < rank s"
begin

lemma spending_bounded:
  "list_all good ops \<Longrightarrow> ok s \<Longrightarrow>
   length (filter (\<lambda>(op, t). spends op t) (trace step ops s)) + rank (run step ops s) \<le> rank s"
proof (induction ops arbitrary: s)
  case (Cons op ops)
  have "rank (step op s) + (if spends op s then 1 else 0) \<le> rank s"
    using rank_mono [of op s] rank_less [of op s] Cons.prems by auto
  moreover have "length (filter (\<lambda>(op, t). spends op t) (trace step ops (step op s))) + rank (run step ops (step op s))
      \<le> rank (step op s)"
    using Cons by (simp add: step_inv)
  ultimately show ?case by (simp split: if_splits)
qed simp

end

end
