(* ===== verification/Message_Filter.thy ===== *)
theory Message_Filter
  imports Go_Prelude
begin

text \<open>
  The rule engine of \<open>internal/emailfilter\<close>: the view of a message that rules are written
  against (\<open>message.go\<close>), one condition and its validation (\<open>condition.go\<close>), a rule and
  the first-match evaluation of a rule list (\<open>rule.go\<close>), and the filling-in of attachment
  text before evaluation (\<open>attachment_text.go\<close>).

  Regular expressions are two parameters: \<open>re_ok p\<close> says that \<open>regexp.Compile\<close> accepts the
  pattern \<open>p\<close>, \<open>re_match p s\<close> that the compiled pattern matches the text \<open>s\<close>. A compiled
  pattern is represented by its source text.
\<close>

section \<open>Messages\<close>

datatype direction = DirectionOutbound | DirectionInbound | DirectionOther string

fun direction_valid :: "direction \<Rightarrow> bool" where
  "direction_valid DirectionOutbound = True"
| "direction_valid DirectionInbound = True"
| "direction_valid (DirectionOther _) = False"

record attachment =
  a_filename :: string
  a_content_type :: string
  a_size :: int
  a_data :: string
  a_text :: string

text \<open>\<open>filepath.Ext\<close>: from the last dot of the last path element, the dot included.\<close>

fun ext_scan :: "string \<Rightarrow> string \<Rightarrow> string" where
  "ext_scan [] acc = []"
| "ext_scan (c # cs) acc =
     (if c = CHR ''/'' then []
      else if c = CHR ''.'' then CHR ''.'' # acc
      else ext_scan cs (c # acc))"

definition file_ext :: "string \<Rightarrow> string" where
  "file_ext path = ext_scan (rev path) []"

definition trim_prefix :: "string \<Rightarrow> string \<Rightarrow> string" where
  "trim_prefix s p = (if prefix p s then drop (length p) s else s)"

definition extension :: "attachment \<Rightarrow> string" where
  "extension a = trim_prefix (to_lower (file_ext (a_filename a))) ''.''"

definition executable_extensions :: "string list" where
  "executable_extensions =
     [''exe'', ''com'', ''bat'', ''cmd'', ''msi'',
      ''scr'', ''pif'', ''cpl'', ''jar'', ''js'',
      ''jse'', ''vbs'', ''vbe'', ''wsf'', ''wsh'',
      ''ps1'', ''psm1'', ''sh'', ''bash'', ''app'',
      ''dmg'', ''pkg'', ''deb'', ''rpm'', ''apk'',
      ''dll'', ''so'', ''reg'', ''lnk'', ''hta'',
      ''chm'', ''iso'', ''img'', ''vhd'']"

definition is_executable :: "attachment \<Rightarrow> bool" where
  "is_executable a \<longleftrightarrow> extension a \<in> set executable_extensions"

text \<open>\<open>AuthResult\<close> is a string type; the empty string says the check did not run.\<close>

type_synonym auth_result = string

record message =
  m_from :: string
  m_to :: "string list"
  m_cc :: "string list"
  m_bcc :: "string list"
  m_subject :: string
  m_html :: string
  m_text :: string
  m_headers :: "string \<rightharpoonup> string list"
  m_attachments :: "attachment list"
  m_size :: int
  m_provider_id :: string
  m_spf :: auth_result
  m_dkim :: auth_result
  m_dmarc :: auth_result

definition address_key :: "string \<Rightarrow> string option" where
  "address_key address =
     (let key = to_lower (trim_space address) in if key = [] then None else Some key)"

definition recipients :: "message \<Rightarrow> string list" where
  "recipients m = uniq_by address_key [] (m_to m @ m_cc m @ m_bcc m)"

definition header_values :: "message \<Rightarrow> string \<Rightarrow> string list" where
  "header_values m name =
     (case m_headers m (to_lower (trim_space name)) of None \<Rightarrow> [] | Some vs \<Rightarrow> vs)"

text \<open>
  \<open>NormaliseHeaders\<close> ranges over a Go map; the argument is its entries in the order the
  runtime visits them.
\<close>

fun normalise_headers :: "(string \<times> string list) list \<Rightarrow> (string \<rightharpoonup> string list)
    \<Rightarrow> (string \<rightharpoonup> string list)" where
  "normalise_headers [] out = out"
| "normalise_headers ((name, values) # rest) out =
     (let key = to_lower (trim_space name);
          old = (case out key of None \<Rightarrow> [] | Some vs \<Rightarrow> vs)
      in normalise_headers rest (out(key \<mapsto> old @ values)))"

definition total_attachment_size :: "message \<Rightarrow> int" where
  "total_attachment_size m = foldl (\<lambda>total a. total + a_size a) 0 (m_attachments m)"

definition largest_attachment :: "message \<Rightarrow> int" where
  "largest_attachment m =
     foldl (\<lambda>largest a. if a_size a > largest then a_size a else largest) 0 (m_attachments m)"

section \<open>Conditions\<close>

datatype field =
    FieldFrom | FieldTo | FieldCc | FieldBcc | FieldAnyRecipient
  | FieldSubject | FieldBody | FieldSubjectOrBody | FieldHeader
  | FieldAttachmentName | FieldAttachmentExtension | FieldAttachmentText
  | FieldAttachmentCount | FieldAttachmentSize | FieldTotalAttachmentSize
  | FieldMessageSize | FieldRecipientCount
  | FieldHasAttachment | FieldHasExecutableAttachment
  | FieldProvider | FieldSPF | FieldDKIM | FieldDMARC
  | FieldOther string

datatype operator =
    OpContains | OpMatches | OpEquals | OpDomainIs | OpIn
  | OpGreaterOrEqual | OpIsTrue | OpExists | OpOther string

datatype field_kind =
  KindAddress | KindText | KindHeader | KindNumber | KindBool | KindEnum

fun field_kinds :: "field \<Rightarrow> field_kind option" where
  "field_kinds FieldFrom = Some KindAddress"
| "field_kinds FieldTo = Some KindAddress"
| "field_kinds FieldCc = Some KindAddress"
| "field_kinds FieldBcc = Some KindAddress"
| "field_kinds FieldAnyRecipient = Some KindAddress"
| "field_kinds FieldSubject = Some KindText"
| "field_kinds FieldBody = Some KindText"
| "field_kinds FieldSubjectOrBody = Some KindText"
| "field_kinds FieldAttachmentName = Some KindText"
| "field_kinds FieldAttachmentExtension = Some KindText"
| "field_kinds FieldAttachmentText = Some KindText"
| "field_kinds FieldHeader = Some KindHeader"
| "field_kinds FieldAttachmentCount = Some KindNumber"
| "field_kinds FieldAttachmentSize = Some KindNumber"
| "field_kinds FieldTotalAttachmentSize = Some KindNumber"
| "field_kinds FieldMessageSize = Some KindNumber"
| "field_kinds FieldRecipientCount = Some KindNumber"
| "field_kinds FieldHasAttachment = Some KindBool"
| "field_kinds FieldHasExecutableAttachment = Some KindBool"
| "field_kinds FieldProvider = Some KindEnum"
| "field_kinds FieldSPF = Some KindEnum"
| "field_kinds FieldDKIM = Some KindEnum"
| "field_kinds FieldDMARC = Some KindEnum"
| "field_kinds (FieldOther _) = None"

fun allowed_operators :: "field_kind \<Rightarrow> operator list" where
  "allowed_operators KindAddress = [OpContains, OpMatches, OpEquals, OpDomainIs]"
| "allowed_operators KindText = [OpContains, OpMatches, OpEquals, OpIn]"
| "allowed_operators KindHeader = [OpContains, OpMatches, OpEquals, OpExists]"
| "allowed_operators KindNumber = [OpGreaterOrEqual]"
| "allowed_operators KindBool = [OpIsTrue]"
| "allowed_operators KindEnum = [OpEquals, OpIn]"

definition inbound_only_fields :: "field list" where
  "inbound_only_fields = [FieldSPF, FieldDKIM, FieldDMARC]"

definition outbound_only_fields :: "field list" where
  "outbound_only_fields = [FieldProvider]"

record condition =
  c_field :: field
  c_operator :: operator
  c_values :: "string list"
  c_header :: string
  c_number :: int
  c_compiled :: "string list"

datatype condition_error =
    UnknownField field
  | InboundOnly field
  | OutboundOnly field
  | OperatorNotAllowed operator field
  | HeaderNameMissing
  | ValuesMissing field operator
  | NegativeThreshold field
  | BadPattern string

text \<open>The compile loop: the patterns of a condition in order, or the first one refused.\<close>

definition ci_pattern :: "string \<Rightarrow> string" where
  "ci_pattern v = ''(?i)'' @ v"

fun compile_values :: "(string \<Rightarrow> bool) \<Rightarrow> string list \<Rightarrow> (condition_error, string list) result" where
  "compile_values re_ok [] = Inr []"
| "compile_values re_ok (v # vs) =
     (let p = ci_pattern v in
      if \<not> re_ok p then Inl (BadPattern v)
      else case compile_values re_ok vs of Inl e \<Rightarrow> Inl e | Inr ps \<Rightarrow> Inr (p # ps))"

definition needs_values :: "operator \<Rightarrow> bool" where
  "needs_values op \<longleftrightarrow> op \<noteq> OpIsTrue \<and> op \<noteq> OpExists \<and> op \<noteq> OpGreaterOrEqual"

definition condition_problem :: "direction \<Rightarrow> condition \<Rightarrow> condition_error option" where
  "condition_problem dir c =
     (case field_kinds (c_field c) of
        None \<Rightarrow> Some (UnknownField (c_field c))
      | Some kind \<Rightarrow>
          if c_field c \<in> set inbound_only_fields \<and> dir \<noteq> DirectionInbound
          then Some (InboundOnly (c_field c))
          else if c_field c \<in> set outbound_only_fields \<and> dir \<noteq> DirectionOutbound
          then Some (OutboundOnly (c_field c))
          else if c_operator c \<notin> set (allowed_operators kind)
          then Some (OperatorNotAllowed (c_operator c) (c_field c))
          else if c_field c = FieldHeader \<and> trim_space (c_header c) = []
          then Some HeaderNameMissing
          else if needs_values (c_operator c) \<and> c_values c = []
          then Some (ValuesMissing (c_field c) (c_operator c))
          else if c_operator c = OpGreaterOrEqual \<and> c_number c < 0
          then Some (NegativeThreshold (c_field c))
          else None)"

definition validate_condition ::
  "(string \<Rightarrow> bool) \<Rightarrow> direction \<Rightarrow> condition \<Rightarrow> (condition_error, condition) result" where
  "validate_condition re_ok dir c =
     (case condition_problem dir c of
        Some e \<Rightarrow> Inl e
      | None \<Rightarrow>
          if c_operator c = OpMatches
          then (case compile_values re_ok (c_values c) of
                  Inl e \<Rightarrow> Inl e
                | Inr ps \<Rightarrow> Inr (c\<lparr>c_compiled := ps\<rparr>))
          else Inr (c\<lparr>c_compiled := []\<rparr>))"

text \<open>\<open>domainMatches\<close>: the domain itself or a subdomain of it.\<close>

definition domain_matches :: "string \<Rightarrow> string \<Rightarrow> bool" where
  "domain_matches address domain =
     (case last_index CHR ''@'' address of
        None \<Rightarrow> False
      | Some at \<Rightarrow>
          let host = trim_by (\<lambda>c. c = CHR ''>'' \<or> c = CHR '' '') (drop (Suc at) address)
          in host = domain \<or> suffix (''.'' @ domain) host)"

definition value_matches :: "operator \<Rightarrow> string \<Rightarrow> string \<Rightarrow> bool" where
  "value_matches op lowered value =
     (let wanted = to_lower (trim_space value) in
      if wanted = [] then False
      else case op of
        OpContains \<Rightarrow> contains_str lowered wanted
      | OpEquals \<Rightarrow> lowered = wanted
      | OpIn \<Rightarrow> lowered = wanted
      | OpDomainIs \<Rightarrow> domain_matches lowered wanted
      | _ \<Rightarrow> False)"

fun any_value_matches ::
  "(string \<Rightarrow> string \<Rightarrow> bool) \<Rightarrow> condition \<Rightarrow> string list \<Rightarrow> bool" where
  "any_value_matches re_match c [] = False"
| "any_value_matches re_match c (s # ss) =
     (if s = [] then any_value_matches re_match c ss
      else if c_operator c = OpMatches
      then (if list_ex (\<lambda>re. re_match re s) (c_compiled c) then True
            else any_value_matches re_match c ss)
      else if list_ex (value_matches (c_operator c) (to_lower s)) (c_values c) then True
      else any_value_matches re_match c ss)"

definition condition_number :: "condition \<Rightarrow> message \<Rightarrow> int" where
  "condition_number c m =
     (case c_field c of
        FieldAttachmentCount \<Rightarrow> int (length (m_attachments m))
      | FieldAttachmentSize \<Rightarrow> largest_attachment m
      | FieldTotalAttachmentSize \<Rightarrow> total_attachment_size m
      | FieldMessageSize \<Rightarrow> m_size m
      | FieldRecipientCount \<Rightarrow> int (length (recipients m))
      | _ \<Rightarrow> 0)"

definition condition_subjects :: "condition \<Rightarrow> message \<Rightarrow> string list" where
  "condition_subjects c m =
     (case c_field c of
        FieldFrom \<Rightarrow> [m_from m]
      | FieldTo \<Rightarrow> m_to m
      | FieldCc \<Rightarrow> m_cc m
      | FieldBcc \<Rightarrow> m_bcc m
      | FieldAnyRecipient \<Rightarrow> recipients m
      | FieldSubject \<Rightarrow> [m_subject m]
      | FieldBody \<Rightarrow> [m_html m, m_text m]
      | FieldSubjectOrBody \<Rightarrow> [m_subject m, m_html m, m_text m]
      | FieldAttachmentName \<Rightarrow> map a_filename (m_attachments m)
      | FieldAttachmentExtension \<Rightarrow> map extension (m_attachments m)
      | FieldAttachmentText \<Rightarrow> map a_text (m_attachments m)
      | FieldProvider \<Rightarrow> [m_provider_id m]
      | FieldSPF \<Rightarrow> [m_spf m]
      | FieldDKIM \<Rightarrow> [m_dkim m]
      | FieldDMARC \<Rightarrow> [m_dmarc m]
      | _ \<Rightarrow> [])"

definition condition_matches ::
  "(string \<Rightarrow> string \<Rightarrow> bool) \<Rightarrow> condition \<Rightarrow> message \<Rightarrow> bool" where
  "condition_matches re_match c m =
     (if c_field c = FieldHasAttachment then m_attachments m \<noteq> []
      else if c_field c = FieldHasExecutableAttachment then list_ex is_executable (m_attachments m)
      else case field_kinds (c_field c) of
        Some KindNumber \<Rightarrow> condition_number c m \<ge> c_number c
      | Some KindHeader \<Rightarrow>
          (let values = header_values m (c_header c) in
           if c_operator c = OpExists then values \<noteq> []
           else any_value_matches re_match c values)
      | _ \<Rightarrow> any_value_matches re_match c (condition_subjects c m))"

section \<open>Rules\<close>

datatype action = ActionNone | ActionHold | ActionReject | ActionTag | ActionAllow | ActionOther string

fun action_valid :: "action \<Rightarrow> bool" where
  "action_valid ActionHold = True"
| "action_valid ActionReject = True"
| "action_valid ActionTag = True"
| "action_valid ActionAllow = True"
| "action_valid _ = False"

record rule =
  r_id :: string
  r_tenant_id :: string
  r_name :: string
  r_direction :: direction
  r_action :: action
  r_priority :: int
  r_enabled :: bool
  r_conditions :: "condition list"
  r_exceptions :: "condition list"
  r_tag :: string

datatype rule_error =
    NameMissing
  | NotADirection direction
  | NotAnAction action
  | NoConditions
  | ConditionError nat condition_error
  | ExceptionError nat condition_error

fun validate_conditions ::
  "(nat \<Rightarrow> condition_error \<Rightarrow> rule_error) \<Rightarrow> (string \<Rightarrow> bool) \<Rightarrow> direction \<Rightarrow> nat
    \<Rightarrow> condition list \<Rightarrow> (rule_error, condition list) result" where
  "validate_conditions err re_ok dir i [] = Inr []"
| "validate_conditions err re_ok dir i (c # cs) =
     (case validate_condition re_ok dir c of
        Inl e \<Rightarrow> Inl (err (i + 1) e)
      | Inr c' \<Rightarrow>
          (case validate_conditions err re_ok dir (i + 1) cs of
             Inl e \<Rightarrow> Inl e
           | Inr cs' \<Rightarrow> Inr (c' # cs')))"

definition validate_rule :: "(string \<Rightarrow> bool) \<Rightarrow> rule \<Rightarrow> (rule_error, rule) result" where
  "validate_rule re_ok r =
     (if trim_space (r_name r) = [] then Inl NameMissing
      else if \<not> direction_valid (r_direction r) then Inl (NotADirection (r_direction r))
      else if \<not> action_valid (r_action r) then Inl (NotAnAction (r_action r))
      else if r_conditions r = [] then Inl NoConditions
      else case validate_conditions ConditionError re_ok (r_direction r) 0 (r_conditions r) of
        Inl e \<Rightarrow> Inl e
      | Inr cs \<Rightarrow>
          (case validate_conditions ExceptionError re_ok (r_direction r) 0 (r_exceptions r) of
             Inl e \<Rightarrow> Inl e
           | Inr es \<Rightarrow> Inr (r\<lparr>r_conditions := cs, r_exceptions := es\<rparr>)))"

fun matched_conditions ::
  "(string \<Rightarrow> string \<Rightarrow> bool) \<Rightarrow> message \<Rightarrow> condition list \<Rightarrow> condition list option" where
  "matched_conditions re_match m [] = Some []"
| "matched_conditions re_match m (c # cs) =
     (if \<not> condition_matches re_match c m then None
      else map_option ((#) c) (matched_conditions re_match m cs))"

definition rule_matches ::
  "(string \<Rightarrow> string \<Rightarrow> bool) \<Rightarrow> rule \<Rightarrow> message \<Rightarrow> condition list option" where
  "rule_matches re_match r m =
     (if \<not> r_enabled r then None
      else case matched_conditions re_match m (r_conditions r) of
        None \<Rightarrow> None
      | Some matched \<Rightarrow>
          if list_ex (\<lambda>e. condition_matches re_match e m) (r_exceptions r) then None
          else Some matched)"

record decision =
  d_action :: action
  d_rule :: "rule option"
  d_matched :: "condition list"

definition no_decision :: decision where
  "no_decision = \<lparr>d_action = ActionNone, d_rule = None, d_matched = []\<rparr>"

definition delivers :: "decision \<Rightarrow> bool" where
  "delivers d \<longleftrightarrow> d_action d = ActionNone \<or> d_action d = ActionAllow \<or> d_action d = ActionTag"

fun first_decision ::
  "(string \<Rightarrow> string \<Rightarrow> bool) \<Rightarrow> message \<Rightarrow> rule list \<Rightarrow> decision" where
  "first_decision re_match m [] = no_decision"
| "first_decision re_match m (r # rs) =
     (case rule_matches re_match r m of
        None \<Rightarrow> first_decision re_match m rs
      | Some matched \<Rightarrow>
          if r_action r = ActionAllow
          then \<lparr>d_action = ActionNone, d_rule = Some r, d_matched = matched\<rparr>
          else \<lparr>d_action = r_action r, d_rule = Some r, d_matched = matched\<rparr>)"

definition evaluate ::
  "(string \<Rightarrow> string \<Rightarrow> bool) \<Rightarrow> rule list \<Rightarrow> direction \<Rightarrow> message \<Rightarrow> decision" where
  "evaluate re_match rules dir m =
     (let applicable = filter (\<lambda>r. r_direction r = dir \<and> r_enabled r) rules
      in first_decision re_match m (sort_key r_priority applicable))"

section \<open>Attachment text\<close>

definition needs_attachment_text :: "rule list \<Rightarrow> bool" where
  "needs_attachment_text rules =
     list_ex (\<lambda>r. list_ex (list_ex (\<lambda>c. c_field c = FieldAttachmentText))
                    [r_conditions r, r_exceptions r]) rules"

text \<open>
  \<open>supported\<close> and \<open>extract\<close> are the two functions of the \<open>attachtext\<close> package the loop calls;
  \<open>extract\<close> gives the text that call returned, which the loop stores whether or not an error
  came with it.
\<close>

definition read_one ::
  "(string \<Rightarrow> string \<Rightarrow> bool) \<Rightarrow> (string \<Rightarrow> string \<Rightarrow> string \<Rightarrow> string) \<Rightarrow> attachment \<Rightarrow> attachment"
  where
  "read_one supported extract a =
     (if a_text a \<noteq> [] \<or> a_data a = [] \<or> \<not> supported (a_filename a) (a_content_type a) then a
      else a\<lparr>a_text := extract (a_filename a) (a_content_type a) (a_data a)\<rparr>)"

definition read_attachment_text ::
  "(string \<Rightarrow> string \<Rightarrow> bool) \<Rightarrow> (string \<Rightarrow> string \<Rightarrow> string \<Rightarrow> string) \<Rightarrow> message \<Rightarrow> message"
  where
  "read_attachment_text supported extract m =
     (if m_attachments m = [] then m
      else m\<lparr>m_attachments := map (read_one supported extract) (m_attachments m)\<rparr>)"

section \<open>Validated rules\<close>

text \<open>
  What validation establishes, as a predicate on the rule: the shape of each condition and, for
  a pattern condition, that its compiled patterns are its values, each accepted by the compiler.
\<close>

definition wf_shape :: "direction \<Rightarrow> condition \<Rightarrow> bool" where
  "wf_shape dir c \<longleftrightarrow>
     (\<exists>kind. field_kinds (c_field c) = Some kind \<and> c_operator c \<in> set (allowed_operators kind)) \<and>
     (c_field c \<in> set inbound_only_fields \<longrightarrow> dir = DirectionInbound) \<and>
     (c_field c \<in> set outbound_only_fields \<longrightarrow> dir = DirectionOutbound) \<and>
     (c_field c = FieldHeader \<longrightarrow> trim_space (c_header c) \<noteq> []) \<and>
     (needs_values (c_operator c) \<longrightarrow> c_values c \<noteq> []) \<and>
     (c_operator c = OpGreaterOrEqual \<longrightarrow> 0 \<le> c_number c)"

definition wf_condition :: "(string \<Rightarrow> bool) \<Rightarrow> direction \<Rightarrow> condition \<Rightarrow> bool" where
  "wf_condition re_ok dir c \<longleftrightarrow>
     wf_shape dir c \<and>
     c_compiled c = (if c_operator c = OpMatches then map ci_pattern (c_values c) else []) \<and>
     list_all re_ok (c_compiled c)"

definition wf_rule :: "(string \<Rightarrow> bool) \<Rightarrow> rule \<Rightarrow> bool" where
  "wf_rule re_ok r \<longleftrightarrow>
     trim_space (r_name r) \<noteq> [] \<and> direction_valid (r_direction r) \<and> action_valid (r_action r) \<and>
     r_conditions r \<noteq> [] \<and>
     list_all (wf_condition re_ok (r_direction r)) (r_conditions r) \<and>
     list_all (wf_condition re_ok (r_direction r)) (r_exceptions r)"

lemma compile_values_Inr:
  "compile_values re_ok vs = Inr ps \<longleftrightarrow> ps = map ci_pattern vs \<and> list_all re_ok ps"
proof (induction vs arbitrary: ps)
  case (Cons v vs)
  show ?case unfolding compile_values.simps Let_def guard_simps Cons.IH by auto
qed auto

lemma condition_problem_None: "condition_problem dir c = None \<longleftrightarrow> wf_shape dir c"
proof (cases "field_kinds (c_field c)")
  case (Some kind)
  then show ?thesis
    unfolding condition_problem_def wf_shape_def
    by (simp add: guard_simps del: not_None_eq split del: if_split) (auto simp: not_less)
qed (simp add: condition_problem_def wf_shape_def)

lemma compiled_update_frame:
  "c_field (c_compiled_update f c) = c_field c"
  "c_operator (c_compiled_update f c) = c_operator c"
  "c_values (c_compiled_update f c) = c_values c"
  "c_header (c_compiled_update f c) = c_header c"
  "c_number (c_compiled_update f c) = c_number c"
  by simp_all

lemma condition_problem_compiled [simp]:
  "condition_problem dir (c_compiled_update f c) = condition_problem dir c"
  unfolding condition_problem_def compiled_update_frame by (rule refl)

lemma wf_shape_compiled [simp]: "wf_shape dir (c\<lparr>c_compiled := x\<rparr>) = wf_shape dir c"
  unfolding wf_shape_def compiled_update_frame by (rule refl)

lemma validate_condition_wf:
  "validate_condition re_ok dir c = Inr c' \<Longrightarrow>
     wf_condition re_ok dir c' \<and> c' = c\<lparr>c_compiled := c_compiled c'\<rparr>"
  unfolding validate_condition_def wf_condition_def
  by (auto simp: compile_values_Inr condition_problem_None split: option.splits if_splits sum.splits)

lemma validate_condition_fixed:
  assumes wf: "wf_condition re_ok dir c"
  shows "validate_condition re_ok dir c = Inr c"
proof -
  from wf have shape: "condition_problem dir c = None"
    unfolding condition_problem_None wf_condition_def by simp
  have same: "c\<lparr>c_compiled := c_compiled c\<rparr> = c" by simp
  show ?thesis
  proof (cases "c_operator c = OpMatches")
    case True
    from wf True have "c_compiled c = map ci_pattern (c_values c) \<and> list_all re_ok (c_compiled c)"
      unfolding wf_condition_def by auto
    then have "compile_values re_ok (c_values c) = Inr (c_compiled c)"
      by (metis compile_values_Inr)
    with True shape show ?thesis unfolding validate_condition_def by simp
  next
    case False
    with wf have "c_compiled c = []" unfolding wf_condition_def by simp
    with same have "c\<lparr>c_compiled := []\<rparr> = c" by simp
    with False shape show ?thesis unfolding validate_condition_def by simp
  qed
qed

lemma validate_condition_compiled [simp]:
  "validate_condition re_ok dir (c_compiled_update f c) = validate_condition re_ok dir c"
proof -
  have "c_compiled_update (\<lambda>_. x) (c_compiled_update f c) = c\<lparr>c_compiled := x\<rparr>" for x by simp
  then show ?thesis
    unfolding validate_condition_def compiled_update_frame condition_problem_compiled
    by (simp split: option.split sum.split)
qed

lemma validate_conditions_wf:
  "validate_conditions err re_ok dir i cs = Inr cs' \<Longrightarrow>
     list_all (wf_condition re_ok dir) cs' \<and> length cs' = length cs"
  by (induction cs arbitrary: i cs')
     (auto split: sum.splits dest!: validate_condition_wf)

lemma validate_conditions_fixed:
  "list_all (wf_condition re_ok dir) cs \<Longrightarrow> validate_conditions err re_ok dir i cs = Inr cs"
  by (induction cs arbitrary: i) (auto simp: validate_condition_fixed)

lemma validate_conditions_compiled:
  "validate_conditions err re_ok dir i (map (c_compiled_update f) cs) =
   validate_conditions err re_ok dir i cs"
  by (induction cs arbitrary: i) (simp_all cong: sum.case_cong)

lemma validate_rule_wf:
  "validate_rule re_ok r = Inr r' \<Longrightarrow> wf_rule re_ok r'"
  unfolding validate_rule_def wf_rule_def
  by (auto split: if_splits sum.splits dest!: validate_conditions_wf)

lemma validate_rule_fixed: "wf_rule re_ok r \<Longrightarrow> validate_rule re_ok r = Inr r"
  unfolding validate_rule_def wf_rule_def by (simp add: validate_conditions_fixed)

section \<open>What a condition tests\<close>

lemma any_value_matches_iff:
  "any_value_matches re_match c ss \<longleftrightarrow>
     (\<exists>s \<in> set ss. s \<noteq> [] \<and>
        (if c_operator c = OpMatches then \<exists>re \<in> set (c_compiled c). re_match re s
         else \<exists>v \<in> set (c_values c). value_matches (c_operator c) (to_lower s) v))"
  by (induction ss) (auto simp: list_ex_iff)

lemma matched_conditions_iff:
  "matched_conditions re_match m cs =
     (if list_all (\<lambda>c. condition_matches re_match c m) cs then Some cs else None)"
  by (induction cs) auto

definition fires :: "(string \<Rightarrow> string \<Rightarrow> bool) \<Rightarrow> direction \<Rightarrow> message \<Rightarrow> rule \<Rightarrow> bool" where
  "fires re_match dir m r \<longleftrightarrow>
     r_direction r = dir \<and> r_enabled r \<and>
     (\<forall>c \<in> set (r_conditions r). condition_matches re_match c m) \<and>
     (\<forall>c \<in> set (r_exceptions r). \<not> condition_matches re_match c m)"

lemma rule_matches_fires:
  assumes "r_direction r = dir"
  shows "rule_matches re_match r m =
    (if fires re_match dir m r then Some (r_conditions r) else None)"
  using assms unfolding rule_matches_def fires_def matched_conditions_iff
  by (auto simp: list_all_iff list_ex_iff)

definition decision_of :: "rule \<Rightarrow> decision" where
  "decision_of r =
     \<lparr>d_action = (if r_action r = ActionAllow then ActionNone else r_action r),
      d_rule = Some r, d_matched = r_conditions r\<rparr>"

lemma first_decision_find:
  "list_all (\<lambda>r. r_direction r = dir) rs \<Longrightarrow>
   first_decision re_match m rs =
     (case find (fires re_match dir m) rs of None \<Rightarrow> no_decision | Some r \<Rightarrow> decision_of r)"
  by (induction rs) (auto simp: rule_matches_fires decision_of_def)

lemma evaluate_first_min:
  "evaluate re_match rules dir m =
     (case first_min r_priority (filter (fires re_match dir m) rules) of
        None \<Rightarrow> no_decision | Some r \<Rightarrow> decision_of r)"
proof -
  let ?app = "filter (\<lambda>r. r_direction r = dir \<and> r_enabled r) rules"
  have "list_all (\<lambda>r. r_direction r = dir) (sort_key r_priority ?app)"
    by (simp add: list_all_iff)
  moreover have "filter (fires re_match dir m) ?app = filter (fires re_match dir m) rules"
    by (auto simp: fires_def intro: filter_cong)
  ultimately show ?thesis
    unfolding evaluate_def Let_def
    by (simp only: first_decision_find find_sort_key)
qed

section \<open>Attachment text does not change other conditions\<close>

lemma read_one_frame [simp]:
  "a_filename (read_one supported extract a) = a_filename a"
  "a_size (read_one supported extract a) = a_size a"
  "extension (read_one supported extract a) = extension a"
  "is_executable (read_one supported extract a) = is_executable a"
  by (simp_all add: read_one_def extension_def is_executable_def)

lemma foldl_map_size:
  "(\<And>a. a_size (f a) = a_size a) \<Longrightarrow>
   foldl (\<lambda>t a. g t (a_size a)) z (map f as) = foldl (\<lambda>t a. g t (a_size a)) z as"
  by (induction as arbitrary: z) auto

lemma read_text_frame:
  defines "m' \<equiv> \<lambda>sp ex m. read_attachment_text sp ex m"
  shows "recipients (m' sp ex m) = recipients m"
    and "header_values (m' sp ex m) n = header_values m n"
    and "length (m_attachments (m' sp ex m)) = length (m_attachments m)"
    and "total_attachment_size (m' sp ex m) = total_attachment_size m"
    and "largest_attachment (m' sp ex m) = largest_attachment m"
    and "list_ex is_executable (m_attachments (m' sp ex m)) = list_ex is_executable (m_attachments m)"
    and "m_size (m' sp ex m) = m_size m"
    and "(m_attachments (m' sp ex m) = []) = (m_attachments m = [])"
  unfolding m'_def read_attachment_text_def recipients_def header_values_def
    total_attachment_size_def largest_attachment_def
  using foldl_map_size [of "read_one sp ex" "(+)" 0 "m_attachments m"]
    foldl_map_size [of "read_one sp ex" "\<lambda>l s. if s > l then s else l" 0 "m_attachments m"]
  by (auto simp: list_ex_iff)

lemma condition_subjects_text:
  "c_field c \<noteq> FieldAttachmentText \<Longrightarrow>
   condition_subjects c (read_attachment_text sp ex m) = condition_subjects c m"
  unfolding condition_subjects_def
  by (cases "c_field c") (simp_all add: read_text_frame, simp_all add: read_attachment_text_def comp_def)

lemma condition_number_text:
  "condition_number c (read_attachment_text sp ex m) = condition_number c m"
  unfolding condition_number_def by (cases "c_field c") (simp_all add: read_text_frame)

lemma condition_matches_text:
  assumes "c_field c \<noteq> FieldAttachmentText"
  shows "condition_matches re_match c (read_attachment_text sp ex m) = condition_matches re_match c m"
  unfolding condition_matches_def
  by (simp only: read_text_frame condition_number_text condition_subjects_text [OF assms])

lemma fires_text:
  assumes "\<not> needs_attachment_text rules" and "r \<in> set rules"
  shows "fires re_match dir (read_attachment_text sp ex m) r = fires re_match dir m r"
proof -
  have "c_field c \<noteq> FieldAttachmentText" if "c \<in> set (r_conditions r) \<union> set (r_exceptions r)" for c
    using assms that unfolding needs_attachment_text_def by (auto simp: list_ex_iff)
  then show ?thesis unfolding fires_def by (simp add: condition_matches_text)
qed

section \<open>Properties\<close>

text \<open>
  C31. The first match decides. When a rule decides, it applies to the direction, is enabled,
  all of its conditions hold and none of its exceptions; every other rule that fires has a
  higher priority number, or the same one and a later place in the list; and the decision is
  that rule's action (an allow rule's decision is to deliver) with its conditions as the reason.
\<close>

theorem evaluate_first_match:
  assumes "d_rule (evaluate re_match rules dir m) = Some r"
  shows "fires re_match dir m r \<and>
    (\<exists>pre post. rules = pre @ r # post \<and>
       (\<forall>s \<in> set pre. fires re_match dir m s \<longrightarrow> r_priority r < r_priority s) \<and>
       (\<forall>s \<in> set post. fires re_match dir m s \<longrightarrow> r_priority r \<le> r_priority s)) \<and>
    evaluate re_match rules dir m = decision_of r"
proof -
  from assms obtain r' where r': "first_min r_priority (filter (fires re_match dir m) rules) = Some r'"
    by (auto simp: evaluate_first_min no_decision_def split: option.splits)
  with assms have "r' = r" by (simp add: evaluate_first_min decision_of_def)
  with r' first_min_filter_split [OF r'] show ?thesis by (auto simp: evaluate_first_min)
qed

text \<open>
  Filtering that is not configured does not block: no rule decides exactly when no rule
  fires, and then the message is delivered with no action recorded.
\<close>

theorem evaluate_no_rule:
  "d_rule (evaluate re_match rules dir m) = None \<longleftrightarrow>
     list_all (\<lambda>r. \<not> fires re_match dir m r) rules \<and> evaluate re_match rules dir m = no_decision"
  by (auto simp: evaluate_first_min decision_of_def no_decision_def list_all_iff filter_empty_conv
      split: option.splits)

text \<open>
  A rule that passes validation is well formed: it has a name, a direction, an action and
  at least one condition, every condition uses an operator its field admits in that direction,
  and the compiled patterns of a pattern condition are exactly its values. The rules validation
  leaves unchanged are exactly the well-formed ones, and what was compiled before does not
  matter.
\<close>

theorem validate_rule_type:
  "(\<forall>r'. validate_rule re_ok r = Inr r' \<longrightarrow> wf_rule re_ok r') \<and>
   (validate_rule re_ok r = Inr r \<longleftrightarrow> wf_rule re_ok r) \<and>
   validate_rule re_ok (r\<lparr>r_conditions := map (c_compiled_update f) (r_conditions r),
                          r_exceptions := map (c_compiled_update f) (r_exceptions r)\<rparr>) =
   validate_rule re_ok r"
proof -
  have "validate_rule re_ok (r\<lparr>r_conditions := map (c_compiled_update f) (r_conditions r),
                               r_exceptions := map (c_compiled_update f) (r_exceptions r)\<rparr>) =
        validate_rule re_ok r"
    unfolding validate_rule_def
    by (simp add: validate_conditions_compiled split: sum.split)
  then show ?thesis using validate_rule_wf validate_rule_fixed by blast
qed

text \<open>
  A validated pattern condition matches exactly when one of its patterns matches one of the
  non-empty texts its field yields: nothing is lost between saving a rule and evaluating it.
\<close>

lemma pattern_condition_matches:
  assumes "wf_condition re_ok dir c" and "c_operator c = OpMatches"
  shows "condition_matches re_match c m \<longleftrightarrow>
    (\<exists>s \<in> set (if c_field c = FieldHeader then header_values m (c_header c)
              else condition_subjects c m).
       s \<noteq> [] \<and> (\<exists>v \<in> set (c_values c). re_match (ci_pattern v) s))"
proof -
  from assms obtain kind where kind: "field_kinds (c_field c) = Some kind"
    and op: "OpMatches \<in> set (allowed_operators kind)"
    unfolding wf_condition_def wf_shape_def by metis
  from assms have comp: "c_compiled c = map ci_pattern (c_values c)"
    unfolding wf_condition_def by simp
  from op have k: "kind = KindAddress \<or> kind = KindText \<or> kind = KindHeader"
    by (cases kind) auto
  have "kind = KindHeader \<longleftrightarrow> c_field c = FieldHeader"
    using kind by (cases "c_field c") auto
  moreover have "c_field c \<noteq> FieldHasAttachment" "c_field c \<noteq> FieldHasExecutableAttachment"
    using kind k by auto
  ultimately have "condition_matches re_match c m \<longleftrightarrow> any_value_matches re_match c
      (if c_field c = FieldHeader then header_values m (c_header c) else condition_subjects c m)"
    using k kind assms(2) by (auto simp: condition_matches_def Let_def)
  then show ?thesis by (simp add: any_value_matches_iff assms(2) comp)
qed

text \<open>
  The recipients of a message are its addresses in order, each mailbox once: no two share a
  lower-cased, trimmed address, and every address that is not blank is represented.
\<close>

theorem recipients_once:
  "distinct (map address_key (recipients m)) \<and>
   subseq (recipients m) (m_to m @ m_cc m @ m_bcc m) \<and>
   address_key ` set (recipients m) = address_key ` set (m_to m @ m_cc m @ m_bcc m) - {None}"
  unfolding recipients_def
  using uniq_by_keys [of address_key "[]" "m_to m @ m_cc m @ m_bcc m"]
  by (auto simp: uniq_by_distinct uniq_by_subseq image_iff simp del: set_append) metis

text \<open>
  A domain condition reaches the domain and its subdomains and nothing else: a host that
  merely ends in the same letters does not match.
\<close>

lemma domain_matches_iff:
  assumes "CHR ''@'' \<notin> set host" and "CHR ''>'' \<notin> set host" and "CHR '' '' \<notin> set host"
  shows "domain_matches (local @ CHR ''@'' # host) domain \<longleftrightarrow>
    host = domain \<or> (\<exists>sub. host = sub @ CHR ''.'' # domain)"
proof -
  have li: "last_index CHR ''@'' (local @ CHR ''@'' # host) = Some (length local)"
  proof -
    from assms(1) have "last_index CHR ''@'' host = None" by simp
    then show ?thesis by (induction local) (simp_all del: last_index_None)
  qed
  have "trim_by (\<lambda>c. c = CHR ''>'' \<or> c = CHR '' '') host = host"
  proof -
    have keep: "dropWhile (\<lambda>c. c = CHR ''>'' \<or> c = CHR '' '') xs = xs" if "set xs \<subseteq> set host" for xs
      using that assms(2,3) by (cases xs) auto
    show ?thesis by (simp add: trim_by_def keep)
  qed
  then show ?thesis
    by (auto simp: domain_matches_def li suffix_def Let_def)
qed

text \<open>Reading the text of attachments only when a rule asks for it changes no decision.\<close>

lemma evaluate_without_text:
  assumes "\<not> needs_attachment_text rules"
  shows "evaluate re_match rules dir (read_attachment_text supported extract m) =
         evaluate re_match rules dir m"
proof -
  have "filter (fires re_match dir (read_attachment_text supported extract m)) rules =
        filter (fires re_match dir m) rules"
    using fires_text [OF assms] by (auto intro: filter_cong)
  then show ?thesis by (simp add: evaluate_first_min)
qed

section \<open>Concrete instances\<close>

definition sample_subject_condition :: condition where
  "sample_subject_condition =
     \<lparr>c_field = FieldSubject, c_operator = OpContains, c_values = [''Wire''],
      c_header = [], c_number = 0, c_compiled = []\<rparr>"

definition sample_domain_condition :: condition where
  "sample_domain_condition =
     \<lparr>c_field = FieldFrom, c_operator = OpDomainIs, c_values = [''example.com''],
      c_header = [], c_number = 0, c_compiled = []\<rparr>"

definition sample_pattern_condition :: condition where
  "sample_pattern_condition =
     \<lparr>c_field = FieldSubject, c_operator = OpMatches, c_values = [''w.re''],
      c_header = [], c_number = 0, c_compiled = [''(?i)w.re'']\<rparr>"

definition sample_hold_rule :: rule where
  "sample_hold_rule =
     \<lparr>r_id = ''r1'', r_tenant_id = ''t1'', r_name = ''hold wires'', r_direction = DirectionOutbound,
      r_action = ActionHold, r_priority = 10, r_enabled = True,
      r_conditions = [sample_subject_condition], r_exceptions = [], r_tag = []\<rparr>"

definition sample_allow_rule :: rule where
  "sample_allow_rule =
     \<lparr>r_id = ''r2'', r_tenant_id = ''t1'', r_name = ''trusted'', r_direction = DirectionOutbound,
      r_action = ActionAllow, r_priority = 5, r_enabled = True,
      r_conditions = [sample_domain_condition], r_exceptions = [], r_tag = []\<rparr>"

definition sample_message :: message where
  "sample_message =
     \<lparr>m_from = ''a@mail.example.com'', m_to = [''b@x.org''], m_cc = [], m_bcc = [],
      m_subject = ''wire transfer'', m_html = [], m_text = ''hi'', m_headers = Map.empty,
      m_attachments = [], m_size = 15, m_provider_id = ''p1'', m_spf = [], m_dkim = [], m_dmarc = []\<rparr>"

lemmas sample_defs = sample_subject_condition_def sample_domain_condition_def
  sample_pattern_condition_def sample_hold_rule_def sample_allow_rule_def sample_message_def

theorem evaluate_first_match_witness:
  "d_rule (evaluate (\<lambda>_ _. False) [sample_hold_rule, sample_allow_rule] DirectionOutbound sample_message)
     = Some sample_allow_rule \<and>
   delivers (evaluate (\<lambda>_ _. False) [sample_hold_rule, sample_allow_rule] DirectionOutbound sample_message) \<and>
   d_rule (evaluate (\<lambda>_ _. False) [sample_hold_rule] DirectionOutbound sample_message)
     = Some sample_hold_rule"
proof -
  have h: "d_rule (evaluate (\<lambda>_ _. False) [sample_hold_rule, sample_allow_rule]
             DirectionOutbound sample_message) = Some sample_allow_rule"
    by code_simp
  have "d_rule (evaluate (\<lambda>_ _. False) [sample_hold_rule] DirectionOutbound sample_message)
     = Some sample_hold_rule" by code_simp
  with h evaluate_first_match [OF h] show ?thesis
    by (simp add: decision_of_def delivers_def sample_allow_rule_def)
qed

theorem validate_rule_type_witness:
  "validate_rule (\<lambda>_. True) sample_hold_rule = Inr sample_hold_rule \<and>
   wf_rule (\<lambda>_. True) sample_hold_rule"
proof -
  have "validate_rule (\<lambda>_. True) sample_hold_rule = Inr sample_hold_rule" by code_simp
  then show ?thesis using validate_rule_type [of "\<lambda>_. True" sample_hold_rule id] by blast
qed

theorem pattern_condition_matches_witness:
  "condition_matches (\<lambda>p s. prefix ''wire'' s) sample_pattern_condition sample_message"
proof -
  have wf: "wf_condition (\<lambda>_. True) DirectionOutbound sample_pattern_condition"
    by (simp add: wf_condition_def wf_shape_def sample_defs inbound_only_fields_def
        outbound_only_fields_def needs_values_def ci_pattern_def)
  have op: "c_operator sample_pattern_condition = OpMatches" by (simp add: sample_defs)
  show ?thesis
    unfolding pattern_condition_matches [OF wf op]
    by (simp add: sample_defs condition_subjects_def)
qed

theorem domain_matches_iff_witness:
  "domain_matches ''a@mail.example.com'' ''example.com'' \<and>
   \<not> domain_matches ''a@notexample.com'' ''example.com''"
proof -
  have "domain_matches (''a'' @ CHR ''@'' # ''mail.example.com'') ''example.com''"
    by (subst domain_matches_iff) (simp_all add: exI [of _ "''mail''"])
  moreover have "\<not> domain_matches (''a'' @ CHR ''@'' # ''notexample.com'') ''example.com''"
  proof (subst domain_matches_iff)
    show "\<not> (''notexample.com'' = ''example.com'' \<or>
        (\<exists>sub. ''notexample.com'' = sub @ CHR ''.'' # ''example.com''))"
      by (auto simp: Cons_eq_append_conv)
  qed simp_all
  ultimately show ?thesis by simp
qed


end
