(* ===== verification/Quarantine.thy ===== *)
theory Quarantine
  imports Message_Filter Run_Traces "HOL-Library.List_Lexorder" "HOL-Library.Char_ord"
begin

text \<open>
  The review queue of \<open>internal/emailfilter\<close>: the record of a decision and its statuses
  (\<open>quarantine.go\<close>), the table they are kept in (\<open>stores/postgres/quarantine.go\<close>), the screener
  that evaluates and records (\<open>screen.go\<close>), the reviewer's two verbs (\<open>review.go\<close>), the expiry
  sweep (\<open>expiry.go\<close>) and the notifications (\<open>held_event.go\<close>).

  The table is a list of rows with unique identifiers. A statement of the store may fail: the
  operations take one Boolean per database round trip, true when the statement is carried out.
  The clock is an argument.
\<close>

section \<open>Records and statuses\<close>

datatype status = StatusPending | StatusReleased | StatusRejected | StatusExpired | StatusOther string

fun status_valid :: "status \<Rightarrow> bool" where
  "status_valid StatusPending = True"
| "status_valid StatusReleased = True"
| "status_valid StatusRejected = True"
| "status_valid StatusExpired = True"
| "status_valid (StatusOther _) = False"

fun terminal :: "status \<Rightarrow> bool" where
  "terminal StatusReleased = True"
| "terminal StatusRejected = True"
| "terminal StatusExpired = True"
| "terminal _ = False"

record filtered_message =
  fm_id :: string
  fm_tenant_id :: string
  fm_direction :: direction
  fm_rule_id :: string
  fm_rule_name :: string
  fm_action :: action
  fm_status :: status
  fm_message_id :: string
  fm_from :: string
  fm_recipients :: "string list"
  fm_subject :: string
  fm_size_bytes :: int
  fm_attachment_count :: int
  fm_attachment_names :: "string list"
  fm_matched :: "condition list"
  fm_payload_ref :: string
  fm_provider_id :: string
  fm_reviewed_by :: string
  fm_reviewed_at :: "time option"
  fm_review_note :: string
  fm_created_at :: time
  fm_expires_at :: "time option"

definition max_stored_subject :: nat where
  "max_stored_subject = 512"

definition new_filtered_message :: "string \<Rightarrow> direction \<Rightarrow> message \<Rightarrow> decision \<Rightarrow> filtered_message" where
  "new_filtered_message tenant dir m d =
     \<lparr>fm_id = [], fm_tenant_id = tenant, fm_direction = dir,
      fm_rule_id = (case d_rule d of None \<Rightarrow> [] | Some r \<Rightarrow> r_id r),
      fm_rule_name = (case d_rule d of None \<Rightarrow> [] | Some r \<Rightarrow> r_name r),
      fm_action = d_action d, fm_status = StatusPending, fm_message_id = [],
      fm_from = m_from m, fm_recipients = recipients m,
      fm_subject = (if length (m_subject m) > max_stored_subject
                    then take max_stored_subject (m_subject m) else m_subject m),
      fm_size_bytes = m_size m, fm_attachment_count = int (length (m_attachments m)),
      fm_attachment_names = map a_filename (m_attachments m), fm_matched = d_matched d,
      fm_payload_ref = [], fm_provider_id = m_provider_id m,
      fm_reviewed_by = [], fm_reviewed_at = None, fm_review_note = [],
      fm_created_at = zero_time, fm_expires_at = None\<rparr>"

section \<open>The table\<close>

datatype q_error =
    DbError
  | DuplicateId
  | NotAnOutcome status
  | ErrNotFound
  | ErrAlreadyReviewed
  | NotDelivered filtered_message string

type_synonym table = "filtered_message list"

text \<open>
  What \<open>Create\<close> fills in on the record it is given, and the row it inserts: the statement has no
  review columns, so those start empty. The primary key refuses a second row with the same
  identifier.
\<close>

definition create_defaults :: "time \<Rightarrow> filtered_message \<Rightarrow> filtered_message" where
  "create_defaults now m =
     m\<lparr>fm_status := (if fm_status m = StatusOther [] then StatusPending else fm_status m),
       fm_created_at := (if fm_created_at m = zero_time then now else fm_created_at m)\<rparr>"

definition insert_filtered :: "filtered_message \<Rightarrow> filtered_message" where
  "insert_filtered m = m\<lparr>fm_reviewed_by := [], fm_reviewed_at := None, fm_review_note := []\<rparr>"

definition q_create :: "bool \<Rightarrow> time \<Rightarrow> filtered_message \<Rightarrow> table \<Rightarrow> (q_error, table) result" where
  "q_create ok now m rows =
     (if \<not> ok then Inl DbError
      else if \<exists>r \<in> set rows. fm_id r = fm_id m then Inl DuplicateId
      else Inr (rows @ [insert_filtered (create_defaults now m)]))"

definition q_get :: "bool \<Rightarrow> string \<Rightarrow> string \<Rightarrow> table \<Rightarrow> (q_error, filtered_message) result" where
  "q_get ok tenant qid rows =
     (if \<not> ok then Inl DbError
      else case find_row (\<lambda>m. fm_tenant_id m = tenant \<and> fm_id m = qid) rows of
        None \<Rightarrow> Inl ErrNotFound
      | Some m \<Rightarrow> Inr m)"

definition reviewable :: "string \<Rightarrow> string \<Rightarrow> filtered_message \<Rightarrow> bool" where
  "reviewable tenant qid m \<longleftrightarrow> fm_tenant_id m = tenant \<and> fm_id m = qid \<and> fm_status m = StatusPending"

definition decide :: "status \<Rightarrow> string \<Rightarrow> time \<Rightarrow> string \<Rightarrow> filtered_message \<Rightarrow> filtered_message" where
  "decide st by_whom now note m =
     m\<lparr>fm_status := st, fm_reviewed_by := by_whom, fm_reviewed_at := Some now, fm_review_note := note\<rparr>"

definition q_review ::
  "bool \<Rightarrow> bool \<Rightarrow> time \<Rightarrow> string \<Rightarrow> string \<Rightarrow> status \<Rightarrow> string \<Rightarrow> string \<Rightarrow> table
    \<Rightarrow> (q_error, filtered_message) result \<times> table" where
  "q_review exec_ok read_ok now tenant qid st by_whom note rows =
     (if \<not> terminal st then (Inl (NotAnOutcome st), rows)
      else if \<not> exec_ok then (Inl DbError, rows)
      else
        let p = reviewable tenant qid;
            rows' = update_where p (decide st by_whom now note) rows
        in if affected p rows = 0
           then (case q_get read_ok tenant qid rows' of
                   Inl e \<Rightarrow> (Inl e, rows')
                 | Inr _ \<Rightarrow> (Inl ErrAlreadyReviewed, rows'))
           else (q_get read_ok tenant qid rows', rows'))"

text \<open>
  A page of the queue. An empty direction, status or token does not narrow the listing; the
  identifiers are compared byte by byte. One row more than the page is read to know whether
  another page follows.
\<close>

record quarantine_filter =
  qf_direction :: direction
  qf_status :: status
  qf_page_size :: int
  qf_page_token :: string

definition default_page_size :: nat where
  "default_page_size = 50"

definition max_page_size :: nat where
  "max_page_size = 500"

definition page_size :: "int \<Rightarrow> nat" where
  "page_size n =
     (let size = (if n \<le> 0 then default_page_size else nat n)
      in if size > max_page_size then max_page_size else size)"

definition listed :: "string \<Rightarrow> quarantine_filter \<Rightarrow> filtered_message \<Rightarrow> bool" where
  "listed tenant f m \<longleftrightarrow>
     fm_tenant_id m = tenant \<and>
     (qf_direction f \<noteq> DirectionOther [] \<longrightarrow> fm_direction m = qf_direction f) \<and>
     (qf_status f \<noteq> StatusOther [] \<longrightarrow> fm_status m = qf_status f)"

definition q_list ::
  "bool \<Rightarrow> string \<Rightarrow> quarantine_filter \<Rightarrow> table \<Rightarrow> (q_error, filtered_message list \<times> string) result" where
  "q_list ok tenant f rows =
     (if \<not> ok then Inl DbError
      else
        let size = page_size (qf_page_size f);
            found = filter (\<lambda>m. listed tenant f m \<and>
                                 (qf_page_token f \<noteq> [] \<longrightarrow> qf_page_token f < fm_id m)) rows;
            out = take (size + 1) (sort_key fm_id found)
        in if length out > size then Inr (take size out, fm_id (out ! (size - 1)))
           else Inr (out, []))"

text \<open>
  The expiry of the store is three statements: read the overdue identifiers, move those still
  pending, read back the rows that are expired.
\<close>

definition due_for_expiry :: "time \<Rightarrow> filtered_message \<Rightarrow> bool" where
  "due_for_expiry now m \<longleftrightarrow>
     fm_status m = StatusPending \<and>
     (case fm_expires_at m of None \<Rightarrow> False | Some t \<Rightarrow> t \<le> now)"

definition expiry_key :: "filtered_message \<Rightarrow> time" where
  "expiry_key m = (case fm_expires_at m of None \<Rightarrow> 0 | Some t \<Rightarrow> t)"

definition select_due :: "time \<Rightarrow> int \<Rightarrow> table \<Rightarrow> string list" where
  "select_due now limit rows =
     (let n = (if limit \<le> 0 then max_page_size else nat limit)
      in map fm_id (take n (sort_key expiry_key (filter (due_for_expiry now) rows))))"

definition mark_expired :: "string list \<Rightarrow> table \<Rightarrow> table" where
  "mark_expired ids rows =
     update_where (\<lambda>m. fm_status m = StatusPending \<and> fm_id m \<in> set ids)
       (\<lambda>m. m\<lparr>fm_status := StatusExpired\<rparr>) rows"

definition read_expired :: "string list \<Rightarrow> table \<Rightarrow> filtered_message list" where
  "read_expired ids rows = filter (\<lambda>m. fm_status m = StatusExpired \<and> fm_id m \<in> set ids) rows"

definition q_expire ::
  "bool \<Rightarrow> bool \<Rightarrow> bool \<Rightarrow> time \<Rightarrow> int \<Rightarrow> table \<Rightarrow> (q_error, filtered_message list) result \<times> table" where
  "q_expire select_ok exec_ok read_ok now limit rows =
     (if \<not> select_ok then (Inl DbError, rows)
      else
        let ids = select_due now limit rows
        in if ids = [] then (Inr [], rows)
           else if \<not> exec_ok then (Inl DbError, rows)
           else let rows' = mark_expired ids rows
                in if \<not> read_ok then (Inl DbError, rows')
                   else (Inr (read_expired ids rows'), rows'))"

definition decided_at :: "filtered_message \<Rightarrow> time" where
  "decided_at m =
     (case fm_reviewed_at m of
        Some t \<Rightarrow> t
      | None \<Rightarrow> (case fm_expires_at m of Some t \<Rightarrow> t | None \<Rightarrow> fm_created_at m))"

definition prunable :: "time \<Rightarrow> filtered_message \<Rightarrow> bool" where
  "prunable before m \<longleftrightarrow>
     (fm_status m \<in> {StatusReleased, StatusRejected, StatusExpired} \<or> fm_action m \<noteq> ActionHold) \<and>
     decided_at m < before"

definition q_prune_terminal :: "bool \<Rightarrow> time \<Rightarrow> table \<Rightarrow> (q_error, nat) result \<times> table" where
  "q_prune_terminal ok before rows =
     (if \<not> ok then (Inl DbError, rows)
      else (Inr (affected (prunable before) rows), delete_where (prunable before) rows))"

section \<open>Notifications\<close>

record matched_condition =
  mc_field :: field
  mc_operator :: operator
  mc_values :: "string list"
  mc_header :: string
  mc_number :: int

record held_event =
  he_id :: string
  he_direction :: direction
  he_message_id :: string
  he_rule_id :: string
  he_rule_name :: string
  he_from :: string
  he_recipients :: "string list"
  he_subject :: string
  he_size_bytes :: int
  he_attachment_count :: int
  he_attachment_names :: "string list"
  he_matched :: "matched_condition list"
  he_held_at :: time
  he_expires_at :: "time option"

record outcome_event =
  oe_id :: string
  oe_direction :: direction
  oe_message_id :: string
  oe_rule_id :: string
  oe_rule_name :: string
  oe_from :: string
  oe_recipients :: "string list"
  oe_subject :: string
  oe_held_at :: time
  oe_decided_at :: time
  oe_reviewed_by :: string
  oe_note :: string

definition matched_condition_of :: "condition \<Rightarrow> matched_condition" where
  "matched_condition_of c =
     \<lparr>mc_field = c_field c, mc_operator = c_operator c, mc_values = c_values c,
      mc_header = c_header c, mc_number = c_number c\<rparr>"

definition held_event_for :: "filtered_message \<Rightarrow> held_event" where
  "held_event_for r =
     \<lparr>he_id = fm_id r, he_direction = fm_direction r, he_message_id = fm_message_id r,
      he_rule_id = fm_rule_id r, he_rule_name = fm_rule_name r, he_from = fm_from r,
      he_recipients = fm_recipients r, he_subject = fm_subject r,
      he_size_bytes = fm_size_bytes r, he_attachment_count = fm_attachment_count r,
      he_attachment_names = fm_attachment_names r,
      he_matched = map matched_condition_of (fm_matched r),
      he_held_at = fm_created_at r, he_expires_at = fm_expires_at r\<rparr>"

definition outcome_event_for :: "filtered_message \<Rightarrow> time \<Rightarrow> outcome_event" where
  "outcome_event_for r at_time =
     \<lparr>oe_id = fm_id r, oe_direction = fm_direction r, oe_message_id = fm_message_id r,
      oe_rule_id = fm_rule_id r, oe_rule_name = fm_rule_name r, oe_from = fm_from r,
      oe_recipients = fm_recipients r, oe_subject = fm_subject r,
      oe_held_at = fm_created_at r, oe_decided_at = at_time,
      oe_reviewed_by = fm_reviewed_by r, oe_note = fm_review_note r\<rparr>"

datatype notification =
    NotifyHeld string held_event
  | NotifyReleased string outcome_event
  | NotifyRejected string outcome_event
  | NotifyExpired string outcome_event

section \<open>Screening and recording\<close>

datatype screen_error = RulesUnreadable

text \<open>\<open>enabled\<close> is what the rule repository answers for the tenant and direction.\<close>

definition screen ::
  "(string \<Rightarrow> string \<Rightarrow> bool) \<Rightarrow> (string \<Rightarrow> string \<Rightarrow> bool) \<Rightarrow> (string \<Rightarrow> string \<Rightarrow> string \<Rightarrow> string)
    \<Rightarrow> rule list option \<Rightarrow> direction \<Rightarrow> message \<Rightarrow> (screen_error, decision) result" where
  "screen re_match supported extract enabled dir m =
     (case enabled of
        None \<Rightarrow> Inl RulesUnreadable
      | Some rules \<Rightarrow>
          if rules = [] then Inr no_decision
          else
            let m' = (if needs_attachment_text rules
                      then read_attachment_text supported extract m else m)
            in Inr (evaluate re_match rules dir m'))"

definition default_quarantine_retention :: duration where
  "default_quarantine_retention = 30 * 24 * hour"

definition new_retention :: "duration \<Rightarrow> duration" where
  "new_retention d = (if d \<le> 0 then default_quarantine_retention else d)"

definition set_retention :: "duration \<Rightarrow> duration" where
  "set_retention d = (if d < 0 then 0 else d)"

definition complete_record :: "string \<Rightarrow> time \<Rightarrow> duration \<Rightarrow> filtered_message \<Rightarrow> filtered_message" where
  "complete_record fresh now retention r =
     (let r1 = (if fm_id r = [] then r\<lparr>fm_id := fresh\<rparr> else r);
          r2 = (if fm_created_at r1 = zero_time then r1\<lparr>fm_created_at := now\<rparr> else r1)
      in if fm_expires_at r2 = None \<and> fm_action r2 = ActionHold \<and> retention > 0
         then r2\<lparr>fm_expires_at := Some (fm_created_at r2 + retention)\<rparr>
         else r2)"

definition screener_record ::
  "bool \<Rightarrow> bool \<Rightarrow> string \<Rightarrow> time \<Rightarrow> duration \<Rightarrow> filtered_message \<Rightarrow> table \<times> notification list
    \<Rightarrow> (q_error, filtered_message) result \<times> table \<times> notification list" where
  "screener_record ok has_notifier fresh now retention r st =
     (let r' = complete_record fresh now retention r
      in case q_create ok now r' (fst st) of
           Inl e \<Rightarrow> (Inl e, st)
         | Inr rows \<Rightarrow>
             (Inr (create_defaults now r'), rows,
              if fm_action r' = ActionHold \<and> has_notifier
              then snd st @ [NotifyHeld (fm_tenant_id r') (held_event_for r')] else snd st))"

section \<open>Review\<close>

text \<open>
  A releaser takes a tenant and a payload reference and either reports an error or not, changing
  the pipeline it belongs to. The reviewer holds an optional releaser per direction.
\<close>

type_synonym 'p releaser = "string \<Rightarrow> string \<Rightarrow> 'p \<Rightarrow> string option \<times> 'p"

record ('o, 'i) review_world =
  w_rows :: table
  w_outbox :: 'o
  w_inbound :: 'i
  w_notes :: "notification list"

record ('o, 'i) reviewer =
  rv_release_outbound :: "'o releaser option"
  rv_discard_outbound :: "'o releaser option"
  rv_release_inbound :: "'i releaser option"
  rv_notifier :: bool

definition deliver ::
  "('o, 'i) reviewer \<Rightarrow> filtered_message \<Rightarrow> ('o, 'i) review_world
    \<Rightarrow> string option \<times> ('o, 'i) review_world" where
  "deliver rv r w =
     (if fm_action r \<noteq> ActionHold then (None, w)
      else if fm_payload_ref r = [] then (Some ''no payload was retained'', w)
      else case fm_direction r of
        DirectionOutbound \<Rightarrow>
          (case rv_release_outbound rv of
             None \<Rightarrow> (Some ''outbound release is not configured'', w)
           | Some rel \<Rightarrow>
               let (e, ob) = rel (fm_tenant_id r) (fm_payload_ref r) (w_outbox w)
               in (e, w\<lparr>w_outbox := ob\<rparr>))
      | DirectionInbound \<Rightarrow>
          (case rv_release_inbound rv of
             None \<Rightarrow> (Some ''inbound release is not configured'', w)
           | Some rel \<Rightarrow>
               let (e, ib) = rel (fm_tenant_id r) (fm_payload_ref r) (w_inbound w)
               in (e, w\<lparr>w_inbound := ib\<rparr>))
      | DirectionOther _ \<Rightarrow> (Some ''unknown direction'', w))"

definition outcome :: "('o, 'i) reviewer \<Rightarrow> time \<Rightarrow> filtered_message \<Rightarrow> outcome_event option" where
  "outcome rv now r =
     (if \<not> rv_notifier rv then None
      else Some (outcome_event_for r (case fm_reviewed_at r of None \<Rightarrow> now | Some t \<Rightarrow> t)))"

definition review_release ::
  "('o, 'i) reviewer \<Rightarrow> bool \<Rightarrow> bool \<Rightarrow> time \<Rightarrow> string \<Rightarrow> string \<Rightarrow> string \<Rightarrow> string
    \<Rightarrow> ('o, 'i) review_world \<Rightarrow> (q_error, filtered_message) result \<times> ('o, 'i) review_world" where
  "review_release rv exec_ok read_ok now tenant qid by_whom note w =
     (case q_review exec_ok read_ok now tenant qid StatusReleased by_whom note (w_rows w) of
        (Inl e, rows) \<Rightarrow> (Inl e, w\<lparr>w_rows := rows\<rparr>)
      | (Inr r, rows) \<Rightarrow>
          (case deliver rv r (w\<lparr>w_rows := rows\<rparr>) of
             (Some err, w') \<Rightarrow> (Inl (NotDelivered r err), w')
           | (None, w') \<Rightarrow>
               (Inr r,
                case outcome rv now r of
                  None \<Rightarrow> w'
                | Some ev \<Rightarrow> w'\<lparr>w_notes := w_notes w' @ [NotifyReleased tenant ev]\<rparr>)))"

definition discard_payload ::
  "('o, 'i) reviewer \<Rightarrow> filtered_message \<Rightarrow> ('o, 'i) review_world \<Rightarrow> ('o, 'i) review_world" where
  "discard_payload rv r w =
     (if fm_action r = ActionHold \<and> fm_payload_ref r \<noteq> [] \<and> fm_direction r = DirectionOutbound
      then (case rv_discard_outbound rv of
              None \<Rightarrow> w
            | Some disc \<Rightarrow> w\<lparr>w_outbox := snd (disc (fm_tenant_id r) (fm_payload_ref r) (w_outbox w))\<rparr>)
      else w)"

definition review_reject ::
  "('o, 'i) reviewer \<Rightarrow> bool \<Rightarrow> bool \<Rightarrow> time \<Rightarrow> string \<Rightarrow> string \<Rightarrow> string \<Rightarrow> string
    \<Rightarrow> ('o, 'i) review_world \<Rightarrow> (q_error, filtered_message) result \<times> ('o, 'i) review_world" where
  "review_reject rv exec_ok read_ok now tenant qid by_whom note w =
     (case q_review exec_ok read_ok now tenant qid StatusRejected by_whom note (w_rows w) of
        (Inl e, rows) \<Rightarrow> (Inl e, w\<lparr>w_rows := rows\<rparr>)
      | (Inr r, rows) \<Rightarrow>
          let w' = discard_payload rv r (w\<lparr>w_rows := rows\<rparr>)
          in (Inr r,
              case outcome rv now r of
                None \<Rightarrow> w'
              | Some ev \<Rightarrow> w'\<lparr>w_notes := w_notes w' @ [NotifyRejected tenant ev]\<rparr>))"

section \<open>Expiry\<close>

fun announce_expired :: "time \<Rightarrow> filtered_message list \<Rightarrow> notification list" where
  "announce_expired now [] = []"
| "announce_expired now (r # rs) =
     (if fm_tenant_id r = [] then announce_expired now rs
      else NotifyExpired (fm_tenant_id r) (outcome_event_for r now) # announce_expired now rs)"

definition sweep_expire ::
  "('o, 'i) reviewer \<Rightarrow> bool \<Rightarrow> bool \<Rightarrow> bool \<Rightarrow> time \<Rightarrow> time \<Rightarrow> int
    \<Rightarrow> ('o, 'i) review_world \<Rightarrow> (q_error, nat) result \<times> ('o, 'i) review_world" where
  "sweep_expire rv select_ok exec_ok read_ok clock now limit w =
     (case q_expire select_ok exec_ok read_ok now limit (w_rows w) of
        (Inl e, rows) \<Rightarrow> (Inl e, w\<lparr>w_rows := rows\<rparr>)
      | (Inr expired, rows) \<Rightarrow>
          let w' = fold (discard_payload rv) expired (w\<lparr>w_rows := rows\<rparr>)
          in if \<not> rv_notifier rv then (Inr (length expired), w')
             else (Inr (length expired),
                   w'\<lparr>w_notes := w_notes w' @ announce_expired clock expired\<rparr>))"

text \<open>
  \<open>PruneBefore\<close>: the review history, then the held payloads. \<open>prune_held\<close> is the outbox's
  pruner when the outbound releaser implements it; the result is the rows removed and whether
  either part failed.
\<close>

definition sweep_prune_before ::
  "(time \<Rightarrow> table \<Rightarrow> 'o \<Rightarrow> (nat \<times> bool) \<times> 'o) option \<Rightarrow> bool \<Rightarrow> time
    \<Rightarrow> ('o, 'i) review_world \<Rightarrow> (nat \<times> bool) \<times> ('o, 'i) review_world" where
  "sweep_prune_before prune_held ok before w =
     (let (res, rows) = q_prune_terminal ok before (w_rows w);
          removed = (case res of Inl _ \<Rightarrow> 0 | Inr n \<Rightarrow> n);
          failed = (case res of Inl _ \<Rightarrow> True | Inr _ \<Rightarrow> False);
          w' = w\<lparr>w_rows := rows\<rparr>
      in case prune_held of
           None \<Rightarrow> ((removed, failed), w')
         | Some ph \<Rightarrow>
             let ((n, failed'), ob) = ph before rows (w_outbox w')
             in ((removed + n, failed \<or> failed'), w'\<lparr>w_outbox := ob\<rparr>))"

section \<open>Sequences of operations\<close>

datatype q_op =
    OpRecord bool string time duration filtered_message
  | OpRelease bool bool time string string string string
  | OpReject bool bool time string string string string
  | OpExpire bool bool bool time time int
  | OpPrune bool time

primrec q_step ::
  "('o, 'i) reviewer \<Rightarrow> (time \<Rightarrow> table \<Rightarrow> 'o \<Rightarrow> (nat \<times> bool) \<times> 'o) option \<Rightarrow> q_op
    \<Rightarrow> ('o, 'i) review_world \<Rightarrow> ('o, 'i) review_world" where
  "q_step rv ph (OpRecord ok fresh now retention r) w =
     (case screener_record ok (rv_notifier rv) fresh now retention r (w_rows w, w_notes w) of
        (_, rows, notes) \<Rightarrow> w\<lparr>w_rows := rows, w_notes := notes\<rparr>)"
| "q_step rv ph (OpRelease exec_ok read_ok now tenant qid by_whom note) w =
     snd (review_release rv exec_ok read_ok now tenant qid by_whom note w)"
| "q_step rv ph (OpReject exec_ok read_ok now tenant qid by_whom note) w =
     snd (review_reject rv exec_ok read_ok now tenant qid by_whom note w)"
| "q_step rv ph (OpExpire select_ok exec_ok read_ok clock now limit) w =
     snd (sweep_expire rv select_ok exec_ok read_ok clock now limit w)"
| "q_step rv ph (OpPrune ok before) w = snd (sweep_prune_before ph ok before w)"

text \<open>The operation decides the message: it is released, rejected or returned by the sweep.\<close>

primrec settles :: "string \<Rightarrow> q_op \<Rightarrow> ('o, 'i) review_world \<Rightarrow> bool" where
  "settles k (OpRecord ok fresh now retention r) w = False"
| "settles k (OpRelease exec_ok read_ok now tenant qid by_whom note) w =
     (qid = k \<and> (case fst (q_review exec_ok read_ok now tenant qid StatusReleased by_whom note (w_rows w)) of
                   Inl _ \<Rightarrow> False | Inr _ \<Rightarrow> True))"
| "settles k (OpReject exec_ok read_ok now tenant qid by_whom note) w =
     (qid = k \<and> (case fst (q_review exec_ok read_ok now tenant qid StatusRejected by_whom note (w_rows w)) of
                   Inl _ \<Rightarrow> False | Inr _ \<Rightarrow> True))"
| "settles k (OpExpire select_ok exec_ok read_ok clock now limit) w =
     (case fst (q_expire select_ok exec_ok read_ok now limit (w_rows w)) of
        Inl _ \<Rightarrow> False | Inr rs \<Rightarrow> k \<in> fm_id ` set rs)"
| "settles k (OpPrune ok before) w = False"

primrec records :: "string \<Rightarrow> q_op \<Rightarrow> bool" where
  "records k (OpRecord ok fresh now retention r) = (fm_id (complete_record fresh now retention r) = k)"
| "records k (OpRelease exec_ok read_ok now tenant qid by_whom note) = False"
| "records k (OpReject exec_ok read_ok now tenant qid by_whom note) = False"
| "records k (OpExpire select_ok exec_ok read_ok clock now limit) = False"
| "records k (OpPrune ok before) = False"

definition wf_table :: "table \<Rightarrow> bool" where
  "wf_table rows \<longleftrightarrow> distinct (map fm_id rows)"

definition pending_in :: "table \<Rightarrow> string \<Rightarrow> bool" where
  "pending_in rows k \<longleftrightarrow> (\<exists>m \<in> set rows. fm_id m = k \<and> fm_status m = StatusPending)"

section \<open>The table keeps its identifiers\<close>

lemma wf_update_where:
  assumes "\<And>m. fm_id (f m) = fm_id m"
  shows "wf_table (update_where p f rows) = wf_table rows"
  using assms by (simp add: wf_table_def map_update_where)

lemma decide_frame [simp]:
  "fm_id (decide st b now note m) = fm_id m"
  "fm_tenant_id (decide st b now note m) = fm_tenant_id m"
  "fm_status (decide st b now note m) = st"
  "fm_action (decide st b now note m) = fm_action m"
  "fm_direction (decide st b now note m) = fm_direction m"
  "fm_payload_ref (decide st b now note m) = fm_payload_ref m"
  by (simp_all add: decide_def)

lemma q_review_rows:
  "snd (q_review ex rd now tenant qid st b note rows) =
     (if terminal st \<and> ex then update_where (reviewable tenant qid) (decide st b now note) rows else rows)"
  by (simp add: q_review_def Let_def split: sum.split)

lemma wf_q_review [simp]:
  "wf_table (snd (q_review ex rd now tenant qid st b note rows)) = wf_table rows"
  by (simp add: q_review_rows wf_update_where)

lemma wf_mark_expired [simp]: "wf_table (mark_expired ids rows) = wf_table rows"
  by (simp add: mark_expired_def wf_update_where)

lemma mark_expired_pending:
  assumes "x \<in> set (mark_expired ids rows)" "fm_status x = StatusPending"
  shows "x \<in> set rows" "fm_id x \<notin> set ids"
proof -
  from assms(1) obtain m where m: "m \<in> set rows"
    "x = (if fm_status m = StatusPending \<and> fm_id m \<in> set ids then m\<lparr>fm_status := StatusExpired\<rparr> else m)"
    by (auto simp: mark_expired_def set_update_where)
  with assms(2) have "\<not> (fm_status m = StatusPending \<and> fm_id m \<in> set ids)" by auto
  with m assms(2) show "x \<in> set rows" "fm_id x \<notin> set ids" by auto
qed

lemma mark_expired_moves:
  "m \<in> set rows \<Longrightarrow> fm_status m = StatusPending \<Longrightarrow> fm_id m \<in> set ids \<Longrightarrow>
   m\<lparr>fm_status := StatusExpired\<rparr> \<in> set (mark_expired ids rows)"
  unfolding mark_expired_def
  by (rule update_where_hit [where f = "fm_status_update (\<lambda>_. StatusExpired)"]) simp_all

lemma mark_expired_keeps:
  "m \<in> set rows \<Longrightarrow> fm_status m \<noteq> StatusPending \<Longrightarrow> m \<in> set (mark_expired ids rows)"
  unfolding mark_expired_def by (rule update_where_miss) simp_all

lemma q_expire_rows:
  "snd (q_expire sel ex rd now limit rows) =
     (if sel \<and> ex then mark_expired (select_due now limit rows) rows else rows)"
  by (auto simp: q_expire_def Let_def mark_expired_def update_where_none)

lemma wf_q_expire [simp]: "wf_table (snd (q_expire sel ex rd now limit rows)) = wf_table rows"
  by (simp add: q_expire_rows)

lemma q_create_row:
  "q_create ok now m rows = Inr rows' \<Longrightarrow>
   ok \<and> fm_id m \<notin> fm_id ` set rows \<and> rows' = rows @ [insert_filtered (create_defaults now m)]"
  by (auto simp: q_create_def split: if_splits)

lemma created_frame [simp]:
  "fm_id (insert_filtered (create_defaults now m)) = fm_id m"
  "fm_action (insert_filtered (create_defaults now m)) = fm_action m"
  "fm_expires_at (insert_filtered (create_defaults now m)) = fm_expires_at m"
  by (simp_all add: insert_filtered_def create_defaults_def)

lemma wf_q_create:
  "q_create ok now m rows = Inr rows' \<Longrightarrow> wf_table rows \<Longrightarrow> wf_table rows'"
  by (drule q_create_row) (auto simp: wf_table_def)

section \<open>Single decisions\<close>

lemma q_get_row:
  assumes "wf_table rows" "m \<in> set rows"
  shows "q_get True (fm_tenant_id m) (fm_id m) rows = Inr m"
proof -
  have "find_row (\<lambda>x. fm_tenant_id x = fm_tenant_id m \<and> fm_id x = fm_id m) rows = Some m"
    by (rule find_row_unique [where g = fm_id]) (use assms in \<open>auto simp: wf_table_def\<close>)
  then show ?thesis by (simp add: q_get_def)
qed

lemma q_get_Inr:
  "q_get ok tenant qid rows = Inr m \<Longrightarrow>
   ok \<and> m \<in> set rows \<and> fm_tenant_id m = tenant \<and> fm_id m = qid"
  by (auto simp: q_get_def split: if_splits option.splits dest: find_row_Some)

lemma q_review_Inr:
  assumes "wf_table rows" "fst (q_review ex rd now tenant qid st b note rows) = Inr r"
  obtains m where "m \<in> set rows" "reviewable tenant qid m" "r = decide st b now note m"
    "terminal st" "ex" "rd"
proof -
  let ?p = "reviewable tenant qid" and ?f = "decide st b now note"
  from assms(2) have guards: "terminal st" "ex" "affected ?p rows \<noteq> 0"
    and got: "q_get rd tenant qid (update_where ?p ?f rows) = Inr r"
    by (auto simp: q_review_def Let_def split: if_splits sum.splits)
  from guards(3) obtain m where m: "m \<in> set rows" "?p m"
    by (auto simp: affected_0_iff)
  from m have "?f m \<in> set (update_where ?p ?f rows)"
    by (auto simp: set_update_where)
  then have "q_get True tenant qid (update_where ?p ?f rows) = Inr (?f m)"
    using q_get_row [of "update_where ?p ?f rows" "?f m"] assms(1) m(2)
    by (simp add: wf_update_where reviewable_def)
  with got q_get_Inr [OF got] have "r = ?f m" "rd" by auto
  with that m guards show ?thesis by blast
qed

lemma review_settles_pending:
  assumes "wf_table rows" "fst (q_review ex rd now tenant qid st b note rows) = Inr r"
  shows "pending_in rows qid"
    and "\<not> pending_in (snd (q_review ex rd now tenant qid st b note rows)) qid"
proof -
  from assms obtain m where m: "m \<in> set rows" "reviewable tenant qid m" "terminal st" "ex"
    by (rule q_review_Inr)
  then show "pending_in rows qid" by (auto simp: pending_in_def reviewable_def)
  have "x = m" if "x \<in> set rows" "fm_id x = qid" for x
    using same_id_same_row [of fm_id rows x m] that m assms(1) by (simp add: wf_table_def reviewable_def)
  with m show "\<not> pending_in (snd (q_review ex rd now tenant qid st b note rows)) qid"
    by (auto simp: pending_in_def q_review_rows set_update_where)
qed

lemma review_keeps_closed:
  "\<not> pending_in rows k \<Longrightarrow> \<not> pending_in (snd (q_review ex rd now tenant qid st b note rows)) k"
  by (auto simp: pending_in_def q_review_rows set_update_where)

lemma select_due_rows:
  "k \<in> set (select_due now limit rows) \<Longrightarrow> \<exists>m \<in> set rows. fm_id m = k \<and> due_for_expiry now m"
  unfolding select_due_def Let_def by (fastforce dest: in_set_takeD)

lemma mark_read_expired:
  assumes "\<And>m. m \<in> set rows \<Longrightarrow> fm_id m \<in> set ids \<Longrightarrow> fm_status m = StatusPending"
  shows "read_expired ids (mark_expired ids rows) =
      map (\<lambda>m. m\<lparr>fm_status := StatusExpired\<rparr>) (filter (\<lambda>m. fm_id m \<in> set ids) rows)"
  using assms unfolding read_expired_def mark_expired_def
  by (induction rows) (auto simp: update_where_def)

lemma expire_Inr:
  assumes "wf_table rows" "fst (q_expire sel ex rd now limit rows) = Inr rs"
  shows "rs = map (\<lambda>m. m\<lparr>fm_status := StatusExpired\<rparr>)
               (filter (\<lambda>m. fm_id m \<in> set (select_due now limit rows)) rows)"
    and "\<And>r. r \<in> set rs \<Longrightarrow> \<exists>m \<in> set rows. due_for_expiry now m \<and> r = m\<lparr>fm_status := StatusExpired\<rparr>"
proof -
  let ?ids = "select_due now limit rows"
  have due: "due_for_expiry now m" if "m \<in> set rows" "fm_id m \<in> set ?ids" for m
    using select_due_rows [OF that(2)] that(1) assms(1) same_id_same_row
    unfolding wf_table_def by metis
  then have "read_expired ?ids (mark_expired ?ids rows) =
      map (\<lambda>m. m\<lparr>fm_status := StatusExpired\<rparr>) (filter (\<lambda>m. fm_id m \<in> set ?ids) rows)"
    by (intro mark_read_expired) (auto simp: due_for_expiry_def)
  then show eq: "rs = map (\<lambda>m. m\<lparr>fm_status := StatusExpired\<rparr>) (filter (\<lambda>m. fm_id m \<in> set ?ids) rows)"
    using assms(2) by (auto simp: q_expire_def Let_def split: if_splits)
  show "\<exists>m \<in> set rows. due_for_expiry now m \<and> r = m\<lparr>fm_status := StatusExpired\<rparr>" if "r \<in> set rs" for r
  proof -
    from that obtain m where "m \<in> set rows" "fm_id m \<in> set ?ids" "r = m\<lparr>fm_status := StatusExpired\<rparr>"
      unfolding eq by auto
    with due show ?thesis by blast
  qed
qed

section \<open>What an operation does to the table\<close>

lemma w_rows_deliver [simp]: "w_rows (snd (deliver rv r w)) = w_rows w"
  by (auto simp: deliver_def split: option.splits direction.splits prod.splits)

lemma w_notes_deliver [simp]: "w_notes (snd (deliver rv r w)) = w_notes w"
  by (auto simp: deliver_def split: option.splits direction.splits prod.splits)

lemma w_rows_discard [simp]: "w_rows (discard_payload rv r w) = w_rows w"
  by (simp add: discard_payload_def split: option.splits)

lemma w_rows_discards [simp]: "w_rows (fold (discard_payload rv) rs w) = w_rows w"
  by (induction rs arbitrary: w) simp_all

lemma rows_release [simp]:
  "w_rows (snd (review_release rv ex rd now tenant qid b note w)) =
     snd (q_review ex rd now tenant qid StatusReleased b note (w_rows w))"
proof -
  obtain res rows where rev: "q_review ex rd now tenant qid StatusReleased b note (w_rows w) = (res, rows)"
    by force
  show ?thesis
  proof (cases res)
    case (Inr r)
    obtain e w' where del: "deliver rv r (w\<lparr>w_rows := rows\<rparr>) = (e, w')" by force
    with w_rows_deliver [of rv r "w\<lparr>w_rows := rows\<rparr>"] have "w_rows w' = rows" by simp
    with rev Inr del show ?thesis
      by (simp add: review_release_def split: option.split)
  qed (simp add: review_release_def rev)
qed

lemma rows_reject [simp]:
  "w_rows (snd (review_reject rv ex rd now tenant qid b note w)) =
     snd (q_review ex rd now tenant qid StatusRejected b note (w_rows w))"
  by (simp add: review_reject_def Let_def split: prod.splits sum.splits option.splits)

lemma rows_expire [simp]:
  "w_rows (snd (sweep_expire rv sel ex rd clock now limit w)) =
     snd (q_expire sel ex rd now limit (w_rows w))"
  by (simp add: sweep_expire_def Let_def split: prod.splits sum.splits)

lemma rows_prune:
  "set (w_rows (snd (sweep_prune_before ph ok before w))) \<subseteq> set (w_rows w)"
  "wf_table (w_rows w) \<Longrightarrow> wf_table (w_rows (snd (sweep_prune_before ph ok before w)))"
  by (auto simp: sweep_prune_before_def q_prune_terminal_def in_delete_where wf_table_def
      distinct_delete_where split: prod.splits if_splits option.splits)

lemma rows_record:
  "w_rows (q_step rv ph (OpRecord ok fresh now retention r) w) =
     (case q_create ok now (complete_record fresh now retention r) (w_rows w) of
        Inl _ \<Rightarrow> w_rows w | Inr rows \<Rightarrow> rows)"
  by (simp add: screener_record_def Let_def split: sum.splits)

lemma wf_step: "wf_table (w_rows w) \<Longrightarrow> wf_table (w_rows (q_step rv ph op w))"
proof (cases op)
  case (OpRecord ok fresh now retention r)
  assume "wf_table (w_rows w)"
  then show ?thesis
    unfolding OpRecord rows_record by (auto split: sum.split intro: wf_q_create)
qed (simp_all add: rows_prune)

lemma step_stays_closed:
  assumes "\<not> records k op" "\<not> pending_in (w_rows w) k"
  shows "\<not> pending_in (w_rows (q_step rv ph op w)) k"
proof (cases op)
  case (OpRecord ok fresh now retention r)
  with assms show ?thesis
    unfolding OpRecord rows_record
    by (auto simp: pending_in_def split: sum.split dest!: q_create_row)
next
  case (OpPrune ok before)
  with assms rows_prune(1) [of ph ok before w] show ?thesis
    by (auto simp: pending_in_def)
next
  case (OpExpire sel ex rd clock now limit)
  with assms show ?thesis
    by (auto simp: q_expire_rows pending_in_def mark_expired_def set_update_where)
qed (use assms in \<open>simp_all add: review_keeps_closed\<close>)

lemma expire_settles_pending:
  assumes "wf_table rows" "fst (q_expire sel ex rd now limit rows) = Inr rs" "k \<in> fm_id ` set rs"
  shows "pending_in rows k"
    and "\<not> pending_in (snd (q_expire sel ex rd now limit rows)) k"
proof -
  from assms(3) obtain r where r: "r \<in> set rs" "k = fm_id r" by auto
  from expire_Inr(2) [OF assms(1,2) r(1)] r(2) show "pending_in rows k"
    by (auto simp: pending_in_def due_for_expiry_def)
  from r have "k \<in> set (select_due now limit rows)"
    by (auto simp: expire_Inr(1) [OF assms(1,2)])
  moreover from this assms(2,3) have "sel" "ex"
    by (auto simp: q_expire_def Let_def split: if_splits)
  ultimately show "\<not> pending_in (snd (q_expire sel ex rd now limit rows)) k"
    by (auto simp: q_expire_rows pending_in_def mark_expired_def set_update_where)
qed

lemma settles_pending:
  assumes "wf_table (w_rows w)" "settles k op w"
  shows "pending_in (w_rows w) k" "\<not> pending_in (w_rows (q_step rv ph op w)) k"
  using assms review_settles_pending expire_settles_pending
  by (cases op; force split: sum.splits)+

interpretation decision_once: single_use "q_step rv ph" "\<lambda>w. wf_table (w_rows w)"
  "\<lambda>w. pending_in (w_rows w)" settles records
  by unfold_locales (use wf_step settles_pending step_stays_closed in \<open>blast+\<close>)

section \<open>Pages\<close>

text \<open>Following the page tokens from the first page, for at most \<open>n\<close> pages.\<close>

fun walk_pages :: "nat \<Rightarrow> string \<Rightarrow> quarantine_filter \<Rightarrow> table \<Rightarrow> filtered_message list option" where
  "walk_pages 0 tenant f rows = None"
| "walk_pages (Suc n) tenant f rows =
     (case q_list True tenant f rows of
        Inl _ \<Rightarrow> None
      | Inr (out, token) \<Rightarrow>
          if token = [] then Some out
          else map_option (\<lambda>rest. out @ rest) (walk_pages n tenant (f\<lparr>qf_page_token := token\<rparr>) rows))"

lemma filter_after_key:
  assumes "sorted_wrt (\<lambda>x y. key x < (key y :: 'k :: linorder)) xs" "0 < k" "k \<le> length xs"
  shows "filter (\<lambda>x. key (xs ! (k - 1)) < key x) xs = drop k xs"
proof -
  have "filter (\<lambda>x. key (xs ! (k - 1)) < key x) (take k xs @ drop k xs) = drop k xs"
  proof -
    have "\<not> key (xs ! (k - 1)) < key x" if x: "x \<in> set (take k xs)" for x
    proof -
      from x assms(3) obtain i where i: "i < k" "x = xs ! i" by (auto simp: in_set_conv_nth)
      show ?thesis
      proof (cases "i = k - 1")
        case False
        with i assms have "key (xs ! i) < key (xs ! (k - 1))"
          by (intro sorted_wrt_nth_less [OF assms(1)]) auto
        with i show ?thesis by simp
      qed (use i in simp)
    qed
    moreover have "key (xs ! (k - 1)) < key x" if x: "x \<in> set (drop k xs)" for x
    proof -
      from x obtain i where "i < length xs - k" "x = xs ! (k + i)"
        by (auto simp: in_set_conv_nth)
      with assms(2,3) show ?thesis
        by (auto intro!: sorted_wrt_nth_less [OF assms(1)])
    qed
    ultimately show ?thesis
      unfolding filter_append by (simp add: filter_empty_conv)
  qed
  then show ?thesis by simp
qed

lemma page_size_pos [simp]: "0 < page_size n"
  by (simp add: page_size_def Let_def default_page_size_def max_page_size_def)

lemma listed_token [simp]: "listed tenant (f\<lparr>qf_page_token := t\<rparr>) = listed tenant f"
  by (intro ext) (simp add: listed_def)

lemma q_list_drop:
  fixes f tenant rows
  defines "xs \<equiv> sort_key fm_id (filter (listed tenant f) rows)"
  assumes "filter (\<lambda>m. t \<noteq> [] \<longrightarrow> t < fm_id m) xs = drop j xs"
  shows "q_list True tenant (f\<lparr>qf_page_token := t\<rparr>) rows =
    (if length (drop j xs) > page_size (qf_page_size f)
     then Inr (take (page_size (qf_page_size f)) (drop j xs),
               fm_id (drop j xs ! (page_size (qf_page_size f) - 1)))
     else Inr (drop j xs, []))"
proof -
  have "sort_key fm_id (filter (\<lambda>m. listed tenant f m \<and> (t \<noteq> [] \<longrightarrow> t < fm_id m)) rows) = drop j xs"
  proof -
    have "sort_key fm_id (filter (\<lambda>m. listed tenant f m \<and> (t \<noteq> [] \<longrightarrow> t < fm_id m)) rows) =
        filter (\<lambda>m. t \<noteq> [] \<longrightarrow> t < fm_id m) xs"
      unfolding xs_def filter_sort filter_filter by (simp add: conj_commute)
    then show ?thesis by (simp only: assms(2))
  qed
  then show ?thesis
    unfolding q_list_def Let_def by (auto simp: min_def)
qed

lemma walk_pages_drop:
  fixes f tenant rows
  defines "xs \<equiv> sort_key fm_id (filter (listed tenant f) rows)"
  assumes "wf_table rows" "\<And>m. m \<in> set rows \<Longrightarrow> fm_id m \<noteq> []"
  shows "filter (\<lambda>m. t \<noteq> [] \<longrightarrow> t < fm_id m) xs = drop j xs \<Longrightarrow> length xs - j < n \<Longrightarrow>
    walk_pages n tenant (f\<lparr>qf_page_token := t\<rparr>) rows = Some (drop j xs)"
proof (induction n arbitrary: j t)
  case (Suc n)
  let ?s = "page_size (qf_page_size f)"
  note page = q_list_drop [of t tenant f rows j, folded xs_def, OF Suc.prems(1)]
  show ?case
  proof (cases "length (drop j xs) > ?s")
    case True
    let ?t = "fm_id (drop j xs ! (?s - 1))"
    have len: "j + ?s \<le> length xs" using True by simp
    have "distinct (map fm_id xs)"
      using assms(2) unfolding xs_def wf_table_def
      by (simp add: distinct_map inj_on_def)
    then have strict: "sorted_wrt (\<lambda>x y. fm_id x < fm_id y) xs"
      using strict_sorted_iff [of "map fm_id xs"] sorted_sort_key [of fm_id "filter (listed tenant f) rows"]
      unfolding xs_def by (simp add: sorted_wrt_map)
    obtain k where k: "?s = Suc k"
      using page_size_pos [of "qf_page_size f"] gr0_implies_Suc by blast
    have t: "?t = fm_id (xs ! (j + ?s - 1))"
      using len by (simp add: k)
    have "xs ! (j + ?s - 1) \<in> set xs"
      using len by (intro nth_mem) (simp add: k)
    then have ne: "?t \<noteq> []"
      unfolding t using assms(3) by (auto simp: xs_def)
    have next_page: "filter (\<lambda>m. ?t \<noteq> [] \<longrightarrow> ?t < fm_id m) xs = drop (j + ?s) xs"
      using filter_after_key [OF strict, of "j + ?s"] ne len k
      by (simp add: t)
    have "walk_pages n tenant (f\<lparr>qf_page_token := ?t\<rparr>) rows = Some (drop (j + ?s) xs)"
      using Suc.prems(2) len k by (intro Suc.IH next_page) linarith
    with True ne show ?thesis
      by (simp add: page) (metis append_take_drop_id drop_drop add.commute)
  qed (simp add: page)
qed simp

section \<open>Holds are kept\<close>

text \<open>The operations that may take a pending hold out of the queue: a review that names it, a sweep past its deadline.\<close>

primrec touches :: "filtered_message \<Rightarrow> q_op \<Rightarrow> bool" where
  "touches m (OpRecord ok fresh now retention r) = False"
| "touches m (OpRelease ex rd now tenant qid b note) = (tenant = fm_tenant_id m \<and> qid = fm_id m)"
| "touches m (OpReject ex rd now tenant qid b note) = (tenant = fm_tenant_id m \<and> qid = fm_id m)"
| "touches m (OpExpire sel ex rd clock now limit) = due_for_expiry now m"
| "touches m (OpPrune ok before) = False"

definition waiting_hold :: "filtered_message \<Rightarrow> table \<Rightarrow> bool" where
  "waiting_hold m rows \<longleftrightarrow>
     wf_table rows \<and> m \<in> set rows \<and> fm_status m = StatusPending \<and> fm_action m = ActionHold"

lemma review_other_row:
  "m \<in> set rows \<Longrightarrow> \<not> reviewable tenant qid m \<Longrightarrow>
   m \<in> set (snd (q_review ex rd now tenant qid st b note rows))"
  by (auto simp: q_review_rows set_update_where)

lemma expire_other_row:
  assumes "wf_table rows" "m \<in> set rows" "\<not> due_for_expiry now m"
  shows "m \<in> set (snd (q_expire sel ex rd now limit rows))"
proof -
  have "fm_id m \<notin> set (select_due now limit rows)"
    using assms select_due_rows same_id_same_row unfolding wf_table_def by metis
  with assms(2) show ?thesis
    by (auto simp: q_expire_rows mark_expired_def set_update_where)
qed

lemma prune_waiting:
  "m \<in> set (w_rows w) \<Longrightarrow> fm_status m = StatusPending \<Longrightarrow> fm_action m = ActionHold \<Longrightarrow>
   m \<in> set (w_rows (snd (sweep_prune_before ph ok before w)))"
  by (auto simp: sweep_prune_before_def q_prune_terminal_def in_delete_where prunable_def
      split: prod.splits if_splits option.splits)

lemma waiting_step:
  assumes "\<not> touches m op" "waiting_hold m (w_rows w)"
  shows "waiting_hold m (w_rows (q_step rv ph op w))"
proof -
  have "m \<in> set (w_rows (q_step rv ph op w))"
  proof (cases op)
    case (OpRecord ok fresh now retention r)
    with assms show ?thesis
      unfolding OpRecord rows_record
      by (auto simp: waiting_hold_def split: sum.split dest!: q_create_row)
  qed (use assms in \<open>auto simp: waiting_hold_def reviewable_def
        intro: review_other_row expire_other_row prune_waiting\<close>)
  with assms(2) wf_step [of w rv ph op] show ?thesis by (simp add: waiting_hold_def)
qed

interpretation held_queue: invariant_steps "q_step rv ph" "\<lambda>op. \<not> touches m op"
  "\<lambda>w. waiting_hold m (w_rows w)"
  by unfold_locales (rule waiting_step)

section \<open>Properties\<close>

text \<open>
  C3. A filtered message is decided at most once. In any sequence of recordings, reviews, sweeps
  and prunes, by any number of reviewers and with any of the statements failing, at most one
  operation releases, rejects or expires a given message, so that its payload is handed to the
  pipeline at most once. The identifier is not used for another message in the meantime.
\<close>

theorem review_once:
  assumes "wf_table (w_rows w)" "list_all (\<lambda>op. \<not> records k op) ops"
  shows "length (filter (\<lambda>(op, t). settles k op t) (trace (q_step rv ph) ops w)) \<le> 1"
  using assms by (rule decision_once.at_most_one_win)

text \<open>
  C26. No hold is lost. A message waiting for a reviewer stays in the queue, unchanged, through
  any sequence of operations that neither reviews it nor sweeps after its deadline; in particular
  no prune removes it, whatever the cutoff.
\<close>

theorem hold_kept:
  assumes "waiting_hold m (w_rows w)" "list_all (\<lambda>op. \<not> touches m op) ops"
  shows "m \<in> set (w_rows (run (q_step rv ph) ops w))"
  using held_queue.run_inv [of m ops w rv ph] assms by (simp add: waiting_hold_def)

lemma deliver_frame:
  "fst (deliver rv r (w\<lparr>w_rows := rows\<rparr>)) = fst (deliver rv r w)"
  "w_outbox (snd (deliver rv r (w\<lparr>w_rows := rows\<rparr>))) = w_outbox (snd (deliver rv r w))"
  "w_inbound (snd (deliver rv r (w\<lparr>w_rows := rows\<rparr>))) = w_inbound (snd (deliver rv r w))"
  by (simp_all add: deliver_def split: option.split direction.split prod.split)

lemma release_Inr:
  assumes "review_release rv ex rd now tenant qid b note w = (Inr r, w')"
  shows "fst (q_review ex rd now tenant qid StatusReleased b note (w_rows w)) = Inr r"
    and "fst (deliver rv r w) = None"
    and "w_outbox w' = w_outbox (snd (deliver rv r w))"
    and "w_notes w' = w_notes w @ (case outcome rv now r of None \<Rightarrow> [] | Some ev \<Rightarrow> [NotifyReleased tenant ev])"
proof -
  let ?w = "w\<lparr>w_rows := snd (q_review ex rd now tenant qid StatusReleased b note (w_rows w))\<rparr>"
  from assms have rev: "fst (q_review ex rd now tenant qid StatusReleased b note (w_rows w)) = Inr r"
    and del: "fst (deliver rv r ?w) = None"
    and w': "w' = (case outcome rv now r of None \<Rightarrow> snd (deliver rv r ?w)
        | Some ev \<Rightarrow> (snd (deliver rv r ?w))\<lparr>w_notes := w_notes (snd (deliver rv r ?w)) @ [NotifyReleased tenant ev]\<rparr>)"
    by (auto simp: review_release_def simp del: w_notes_deliver split: prod.splits sum.splits option.splits)
  show "fst (q_review ex rd now tenant qid StatusReleased b note (w_rows w)) = Inr r" by (rule rev)
  show "fst (deliver rv r w) = None" using del by (simp add: deliver_frame)
  show "w_outbox w' = w_outbox (snd (deliver rv r w))"
    by (simp add: w' deliver_frame split: option.split)
  show "w_notes w' = w_notes w @ (case outcome rv now r of None \<Rightarrow> [] | Some ev \<Rightarrow> [NotifyReleased tenant ev])"
    by (simp add: w' split: option.split)
qed

text \<open>
  C21. A reviewer who is told that a message went out is right. When a release succeeds, the row
  was pending for that tenant and is now released in the reviewer's name, every other row is as
  before, and for a held outbound message the outbox accepted its payload. The release is announced
  once when there is a notifier, after the delivery.
\<close>

theorem release_delivers:
  assumes "wf_table (w_rows w)" "review_release rv ex rd now tenant qid b note w = (Inr r, w')"
  shows "(\<exists>m \<in> set (w_rows w). reviewable tenant qid m \<and> r = decide StatusReleased b now note m) \<and>
    w_rows w' = update_where (reviewable tenant qid) (decide StatusReleased b now note) (w_rows w) \<and>
    (fm_action r = ActionHold \<and> fm_direction r = DirectionOutbound \<longrightarrow>
      (\<exists>rel. rv_release_outbound rv = Some rel \<and> fm_payload_ref r \<noteq> [] \<and>
        rel tenant (fm_payload_ref r) (w_outbox w) = (None, w_outbox w'))) \<and>
    w_notes w' = w_notes w @
      (if rv_notifier rv then [NotifyReleased tenant (outcome_event_for r now)] else [])"
proof (intro conjI impI)
  note rel = release_Inr [OF assms(2)]
  obtain m where m: "m \<in> set (w_rows w)"
    "reviewable tenant qid m" "r = decide StatusReleased b now note m" "ex"
    using q_review_Inr [OF assms(1) rel(1)] by blast
  then show "\<exists>m \<in> set (w_rows w). reviewable tenant qid m \<and> r = decide StatusReleased b now note m"
    by blast
  show "w_rows w' = update_where (reviewable tenant qid) (decide StatusReleased b now note) (w_rows w)"
    using rows_release [of rv ex rd now tenant qid b "note" w] m(4)
    unfolding assms(2) q_review_rows by simp
  show "\<exists>rel. rv_release_outbound rv = Some rel \<and> fm_payload_ref r \<noteq> [] \<and>
        rel tenant (fm_payload_ref r) (w_outbox w) = (None, w_outbox w')"
    if "fm_action r = ActionHold \<and> fm_direction r = DirectionOutbound"
    using that rel(2,3) m(2,3)
    by (auto simp: deliver_def reviewable_def split: if_splits option.splits prod.splits)
  show "w_notes w' = w_notes w @
      (if rv_notifier rv then [NotifyReleased tenant (outcome_event_for r now)] else [])"
    using rel(4) m(3) by (simp add: outcome_def decide_def)
qed

text \<open>What a review that finds no pending row reports.\<close>

definition review_refusal :: "bool \<Rightarrow> bool \<Rightarrow> string \<Rightarrow> string \<Rightarrow> table \<Rightarrow> q_error" where
  "review_refusal ex rd tenant qid rows =
     (if \<not> ex \<or> \<not> rd then DbError
      else if \<exists>m \<in> set rows. fm_tenant_id m = tenant \<and> fm_id m = qid then ErrAlreadyReviewed
      else ErrNotFound)"

lemma review_nobody:
  assumes "\<not> (\<exists>m \<in> set rows. reviewable tenant qid m)" "terminal st"
  shows "q_review ex rd now tenant qid st b note rows =
    (Inl (review_refusal ex rd tenant qid rows), rows)"
proof -
  have none: "affected (reviewable tenant qid) rows = 0"
    using assms(1) by (auto simp: affected_0_iff)
  show ?thesis
  proof (cases "ex \<and> rd \<and> (\<exists>m \<in> set rows. fm_tenant_id m = tenant \<and> fm_id m = qid)")
    case True
    then have "find_row (\<lambda>m. fm_tenant_id m = tenant \<and> fm_id m = qid) rows \<noteq> None"
      by (auto simp: find_row_None)
    with True none assms(2) show ?thesis
      by (auto simp: q_review_def Let_def update_where_none q_get_def review_refusal_def)
  next
    case False
    then have "ex \<Longrightarrow> rd \<Longrightarrow> find_row (\<lambda>m. fm_tenant_id m = tenant \<and> fm_id m = qid) rows = None"
      by (auto simp: find_row_None)
    with False none assms(2) show ?thesis
      by (auto simp: q_review_def Let_def update_where_none q_get_def review_refusal_def)
  qed
qed

text \<open>
  Losing the race costs nothing. When no pending row with that identifier belongs to the
  tenant, a release or a rejection leaves the queue, the outbox, the inbound pipeline and the
  notifications as they were, and says whether the message was already reviewed or does not exist
  for this tenant: another tenant's message is reported as not found.
\<close>

theorem review_loser:
  assumes "\<not> (\<exists>m \<in> set (w_rows w). reviewable tenant qid m)"
  shows "review_release rv ex rd now tenant qid b note w =
      (Inl (review_refusal ex rd tenant qid (w_rows w)), w) \<and>
    review_reject rv ex rd now tenant qid b note w =
      (Inl (review_refusal ex rd tenant qid (w_rows w)), w)"
  using review_nobody [OF assms, of _ ex rd now b "note"]
  by (simp add: review_release_def review_reject_def)

definition expire_limit :: "int \<Rightarrow> nat" where
  "expire_limit limit = (if limit \<le> 0 then max_page_size else nat limit)"

lemma select_due_all:
  assumes "length (filter (due_for_expiry now) rows) \<le> expire_limit limit" "m \<in> set rows" "due_for_expiry now m"
  shows "fm_id m \<in> set (select_due now limit rows)"
  using assms by (simp add: select_due_def Let_def expire_limit_def split: if_splits)

lemma select_due_length: "length (select_due now limit rows) \<le> expire_limit limit"
  by (simp add: select_due_def Let_def expire_limit_def)

lemma expired_length:
  assumes "wf_table rows"
  shows "length (filter (\<lambda>m. fm_id m \<in> set ids) rows) \<le> length ids"
proof -
  have "length (filter (\<lambda>m. fm_id m \<in> set ids) rows) = card (fm_id ` set (filter (\<lambda>m. fm_id m \<in> set ids) rows))"
    using assms distinct_card [of "map fm_id (filter (\<lambda>m. fm_id m \<in> set ids) rows)"]
    by (simp add: wf_table_def distinct_map_filter)
  also have "\<dots> \<le> card (set ids)" by (intro card_mono) auto
  also have "\<dots> \<le> length ids" by (rule card_length)
  finally show ?thesis .
qed

text \<open>
  The sweep expires what is overdue. Every message it returns was pending past its deadline
  and is now expired in the table, it returns no more than the limit, a message that is not
  overdue is left alone, and when the limit covers the backlog no overdue message remains.
\<close>

theorem expire_sound:
  assumes "wf_table rows" "q_expire sel ex rd now limit rows = (Inr rs, rows')"
  shows "(\<forall>r \<in> set rs. r \<in> set rows' \<and>
      (\<exists>m \<in> set rows. due_for_expiry now m \<and> r = m\<lparr>fm_status := StatusExpired\<rparr>)) \<and>
    length rs \<le> expire_limit limit \<and>
    (\<forall>m \<in> set rows. \<not> due_for_expiry now m \<longrightarrow> m \<in> set rows') \<and>
    (length (filter (due_for_expiry now) rows) \<le> expire_limit limit \<longrightarrow>
      (\<forall>m \<in> set rows'. \<not> due_for_expiry now m))"
proof (intro conjI ballI impI)
  let ?ids = "select_due now limit rows"
  from assms(2) have res: "fst (q_expire sel ex rd now limit rows) = Inr rs"
    and rows': "rows' = snd (q_expire sel ex rd now limit rows)" by simp_all
  note rs = expire_Inr [OF assms(1) res]
  show "r \<in> set rows'" if "r \<in> set rs" for r
    using that assms(2) by (auto simp: q_expire_def Let_def read_expired_def split: if_splits)
  show "\<exists>m \<in> set rows. due_for_expiry now m \<and> r = m\<lparr>fm_status := StatusExpired\<rparr>" if "r \<in> set rs" for r
    using that by (rule rs(2))
  show "length rs \<le> expire_limit limit"
    using expired_length [OF assms(1), of ?ids] select_due_length [of now limit rows] by (simp add: rs(1))
  show "m \<in> set rows'" if "m \<in> set rows" "\<not> due_for_expiry now m" for m
    unfolding rows' using assms(1) that by (rule expire_other_row)
  show "\<not> due_for_expiry now m"
    if small: "length (filter (due_for_expiry now) rows) \<le> expire_limit limit" and m: "m \<in> set rows'" for m
  proof
    assume due: "due_for_expiry now m"
    have "m \<in> set (mark_expired ?ids rows)"
      using m assms(2) by (auto simp: q_expire_def Let_def mark_expired_def split: if_splits)
    with due have "m \<in> set rows" "fm_id m \<notin> set ?ids"
      using mark_expired_pending by (auto simp: due_for_expiry_def)
    with select_due_all [OF small] due show False by blast
  qed
qed

text \<open>
  C34. A review between the statements of a sweep stands. Whatever identifiers the sweep read
  before, a message decided by a reviewer in the meantime keeps that decision through the update,
  and is not among the rows the sweep reads back and announces.
\<close>

theorem expire_respects_review:
  assumes "wf_table rows" "q_review ex rd now tenant qid st b note rows = (Inr r, rows')"
    and "st \<noteq> StatusExpired"
  shows "q_get True tenant qid (mark_expired ids rows') = Inr r \<and>
    qid \<notin> fm_id ` set (read_expired ids (mark_expired ids rows'))"
proof -
  obtain m where m: "m \<in> set rows" "reviewable tenant qid m" "r = decide st b now note m" "terminal st" "ex"
    using q_review_Inr [OF assms(1), of ex rd now tenant qid st b "note" r] assms(2) by auto
  have rows': "rows' = update_where (reviewable tenant qid) (decide st b now note) rows"
    using q_review_rows [of ex rd now tenant qid st b "note" rows] m(4,5) assms(2) by simp
  let ?rows = "mark_expired ids rows'"
  have wf: "wf_table ?rows" using assms(1) by (simp add: rows' wf_update_where)
  have "r \<in> set rows'" using m by (auto simp: rows' set_update_where)
  moreover have "fm_status r \<noteq> StatusPending" using m by auto
  ultimately have r: "r \<in> set ?rows" by (rule mark_expired_keeps)
  have rid: "fm_id r = qid" "fm_tenant_id r = tenant" "fm_status r = st"
    using m by (simp_all add: reviewable_def)
  have "fm_status x \<noteq> StatusExpired" if "x \<in> set ?rows" "fm_id x = qid" for x
    using same_id_same_row [of fm_id ?rows x r] that r rid wf assms(3) by (auto simp: wf_table_def)
  then have "qid \<notin> fm_id ` set (read_expired ids ?rows)"
    unfolding read_expired_def by auto
  with q_get_row [OF wf r] rid show ?thesis by simp
qed

text \<open>
  C35. The page tokens enumerate the queue. Following them from the first page returns every
  message of the tenant that the filter asks for, each once and in the order of the identifiers,
  whatever the page size; one page more than there are rows is always enough.
\<close>

theorem pages_complete:
  assumes "wf_table rows" "list_all (\<lambda>m. fm_id m \<noteq> []) rows" "length rows < n"
  shows "walk_pages n tenant (f\<lparr>qf_page_token := []\<rparr>) rows =
    Some (sort_key fm_id (filter (listed tenant f) rows))"
proof -
  have "length (filter (listed tenant f) rows) < n"
    using assms(3) length_filter_le [of "listed tenant f" rows] by linarith
  then show ?thesis
    using walk_pages_drop [OF assms(1), of "[]" tenant f 0 n] assms(2)
    by (simp add: list_all_iff)
qed

text \<open>
  Screening fails closed and reads attachments only when asked. When the rules cannot be read
  the caller gets an error and no decision; otherwise the decision is the one that evaluation gives
  with the text of every attachment read, although the text is read only for rules that mention it.
\<close>

lemma screen_evaluates:
  "screen re_match supported extract enabled dir m =
     (case enabled of
        None \<Rightarrow> Inl RulesUnreadable
      | Some rules \<Rightarrow> Inr (evaluate re_match rules dir (read_attachment_text supported extract m)))"
  by (auto simp: screen_def Let_def evaluate_without_text split: option.split)
    (simp add: evaluate_def)

text \<open>
  A hold is announced when it can be fetched. Recording a decision writes the row, and the
  notification of a hold is queued only once the row is there to be read. Only a hold gets a
  deadline, the retention after its creation, and a retention of zero gives none.
\<close>

lemma record_announces_fetchable:
  assumes "wf_table rows"
    and "screener_record ok has_notifier fresh now retention r (rows, notes) = (Inr r', rows', notes')"
  shows "q_get True (fm_tenant_id r') (fm_id r') rows' = Inr (insert_filtered r') \<and>
    notes' = notes @ (if fm_action r = ActionHold \<and> has_notifier
                      then [NotifyHeld (fm_tenant_id r') (held_event_for r')] else []) \<and>
    (fm_expires_at r = None \<longrightarrow>
      fm_expires_at r' = (if fm_action r = ActionHold \<and> retention > 0
                          then Some (fm_created_at r' + retention) else None))"
proof (intro conjI impI)
  let ?c = "complete_record fresh now retention r"
  from assms(2) have create: "q_create ok now ?c rows = Inr rows'" and r': "r' = create_defaults now ?c"
    and notes': "notes' = notes @ (if fm_action ?c = ActionHold \<and> has_notifier
                      then [NotifyHeld (fm_tenant_id ?c) (held_event_for ?c)] else [])"
    by (auto simp: screener_record_def Let_def split: sum.splits if_splits)
  have "insert_filtered r' \<in> set rows'" using q_create_row [OF create] r' by simp
  from q_get_row [OF wf_q_create [OF create assms(1)] this]
  show "q_get True (fm_tenant_id r') (fm_id r') rows' = Inr (insert_filtered r')"
    by (simp add: insert_filtered_def)
  have "fm_action ?c = fm_action r" "fm_created_at ?c = fm_created_at r'"
    by (simp_all add: r' create_defaults_def complete_record_def Let_def)
  with notes' show "notes' = notes @ (if fm_action r = ActionHold \<and> has_notifier
                      then [NotifyHeld (fm_tenant_id r') (held_event_for r')] else [])"
    by (simp add: r' create_defaults_def held_event_for_def)
  show "fm_expires_at r' = (if fm_action r = ActionHold \<and> retention > 0
                          then Some (fm_created_at r' + retention) else None)"
    if "fm_expires_at r = None"
    using that by (simp add: r' create_defaults_def complete_record_def Let_def)
qed

section \<open>What the reviewer asks of the outbound pipeline\<close>

text \<open>
  The contract of \<open>OutboundReleaser\<close>: a release that reports no error has put the message of that
  tenant back in the pipeline, can be repeated, and one that reports an error has changed nothing;
  after a discard the message is not held.
\<close>

locale outbound_pipeline =
  fixes release :: "'o releaser"
    and discard :: "'o releaser"
    and queued :: "string \<Rightarrow> string \<Rightarrow> 'o \<Rightarrow> bool"
    and held :: "string \<Rightarrow> 'o \<Rightarrow> bool"
  assumes release_ok: "release t p ob = (None, ob') \<Longrightarrow> queued t p ob' \<and> \<not> held p ob'"
    and release_failed: "release t p ob = (Some e, ob') \<Longrightarrow> ob' = ob"
    and release_again: "release t p ob = (None, ob') \<Longrightarrow> release t p ob' = (None, ob')"
    and discard_ok: "discard t p ob = (None, ob') \<Longrightarrow> \<not> held p ob'"
begin

lemma released_is_queued:
  assumes "wf_table (w_rows w)" "rv_release_outbound rv = Some release"
    "review_release rv ex rd now tenant qid b note w = (Inr r, w')"
    "fm_action r = ActionHold" "fm_direction r = DirectionOutbound"
  shows "queued tenant (fm_payload_ref r) (w_outbox w') \<and> \<not> held (fm_payload_ref r) (w_outbox w')"
proof -
  note rel = release_Inr [OF assms(3)]
  obtain m where "reviewable tenant qid m" "r = decide StatusReleased b now note m"
    using q_review_Inr [OF assms(1) rel(1)] by blast
  then have "fm_tenant_id r = tenant" by (simp add: reviewable_def)
  then have "release tenant (fm_payload_ref r) (w_outbox w) = (None, w_outbox w')"
    using rel(2,3) assms(2,4,5) by (auto simp: deliver_def split: if_splits prod.splits)
  then show ?thesis by (rule release_ok)
qed

lemma undelivered_unchanged:
  assumes "rv_release_outbound rv = Some release" "fm_direction r = DirectionOutbound"
    "deliver rv r w = (Some err, w')"
  shows "w_outbox w' = w_outbox w"
  using assms release_failed by (auto simp: deliver_def split: if_splits prod.splits)

end

section \<open>Two things the store does not promise\<close>

text \<open>
  C38. A release can be lost. When the update of a review is carried out and the read after it
  fails, the caller gets an error, the message is marked released, nothing has been handed to the
  outbox, and every later release is refused as already reviewed.
\<close>

theorem release_claimed_not_sent:
  assumes "wf_table (w_rows w)" "m \<in> set (w_rows w)" "reviewable tenant qid m"
  shows "\<exists>rows. review_release rv True False now tenant qid b note w = (Inl DbError, w\<lparr>w_rows := rows\<rparr>) \<and>
    decide StatusReleased b now note m \<in> set rows \<and>
    review_release rv True True now' tenant qid b' note' (w\<lparr>w_rows := rows\<rparr>) =
      (Inl ErrAlreadyReviewed, w\<lparr>w_rows := rows\<rparr>)"
proof (intro exI conjI)
  let ?rows = "update_where (reviewable tenant qid) (decide StatusReleased b now note) (w_rows w)"
  have "affected (reviewable tenant qid) (w_rows w) \<noteq> 0" using assms(2,3) by (auto simp: affected_0_iff)
  then show "review_release rv True False now tenant qid b note w = (Inl DbError, w\<lparr>w_rows := ?rows\<rparr>)"
    by (simp add: review_release_def q_review_def q_get_def Let_def)
  show m: "decide StatusReleased b now note m \<in> set ?rows"
    using assms(2,3) by (rule update_where_hit)
  have "\<not> reviewable tenant qid x" if x: "x \<in> set ?rows" for x
  proof -
    from x obtain y where "x = (if reviewable tenant qid y then decide StatusReleased b now note y else y)"
      by (auto simp: set_update_where)
    then show ?thesis by (cases "reviewable tenant qid y") (simp_all add: reviewable_def)
  qed
  then have "\<not> (\<exists>x \<in> set ?rows. reviewable tenant qid x)" by blast
  moreover have "fm_tenant_id (decide StatusReleased b now note m) = tenant \<and>
      fm_id (decide StatusReleased b now note m) = qid"
    using assms(3) by (simp add: reviewable_def)
  with m have "\<exists>x \<in> set ?rows. fm_tenant_id x = tenant \<and> fm_id x = qid" by blast
  ultimately show "review_release rv True True now' tenant qid b' note' (w\<lparr>w_rows := ?rows\<rparr>) =
      (Inl ErrAlreadyReviewed, w\<lparr>w_rows := ?rows\<rparr>)"
    by (simp add: review_release_def review_nobody review_refusal_def)
qed


section \<open>The properties at concrete inputs\<close>

text \<open>An outbox that is the list of the payloads it accepted, and a queue with one held message.\<close>

definition sample_held :: filtered_message where
  "sample_held =
     \<lparr>fm_id = ''q1'', fm_tenant_id = ''t1'', fm_direction = DirectionOutbound,
      fm_rule_id = ''r1'', fm_rule_name = ''hold invoices'', fm_action = ActionHold,
      fm_status = StatusPending, fm_message_id = ''m1'', fm_from = ''a@x.test'',
      fm_recipients = [''b@y.test''], fm_subject = ''invoice'', fm_size_bytes = 10,
      fm_attachment_count = 0, fm_attachment_names = [], fm_matched = [],
      fm_payload_ref = ''m1'', fm_provider_id = ''p1'', fm_reviewed_by = [],
      fm_reviewed_at = None, fm_review_note = [], fm_created_at = 1, fm_expires_at = Some 100\<rparr>"

definition sample_release :: "string list releaser" where
  "sample_release tenant payload ob = (None, ob @ [payload])"

definition sample_reviewer :: "(string list, unit) reviewer" where
  "sample_reviewer =
     \<lparr>rv_release_outbound = Some sample_release, rv_discard_outbound = None,
      rv_release_inbound = None, rv_notifier = True\<rparr>"

definition sample_world :: "(string list, unit) review_world" where
  "sample_world = \<lparr>w_rows = [sample_held], w_outbox = [], w_inbound = (), w_notes = []\<rparr>"

definition sample_ops :: "q_op list" where
  "sample_ops =
     [OpRelease True True 5 ''t1'' ''q1'' ''ann'' [],
      OpRelease True True 6 ''t1'' ''q1'' ''bob'' [],
      OpExpire True True True 200 200 10]"

lemmas sample_queue = sample_held_def sample_release_def sample_reviewer_def sample_world_def sample_ops_def

theorem review_once_witness:
  "wf_table (w_rows sample_world) \<and> list_all (\<lambda>op. \<not> records ''q1'' op) sample_ops \<and>
   length (filter (\<lambda>(op, t). settles ''q1'' op t) (trace (q_step sample_reviewer None) sample_ops sample_world)) \<le> 1"
proof -
  have h: "wf_table (w_rows sample_world)" "list_all (\<lambda>op. \<not> records ''q1'' op) sample_ops"
    by (simp_all add: sample_queue wf_table_def)
  show ?thesis using h review_once [OF h] by blast
qed

theorem hold_kept_witness:
  "waiting_hold sample_held (w_rows sample_world) \<and>
   sample_held \<in> set (w_rows (run (q_step sample_reviewer None) [OpPrune True 1000] sample_world))"
proof -
  have h: "waiting_hold sample_held (w_rows sample_world)"
    "list_all (\<lambda>op. \<not> touches sample_held op) [OpPrune True 1000]"
    by (simp_all add: sample_queue wf_table_def waiting_hold_def)
  show ?thesis using h hold_kept [OF h] by blast
qed

definition sample_released :: filtered_message where
  "sample_released = decide StatusReleased ''ann'' 5 [] sample_held"

definition sample_released_world :: "(string list, unit) review_world" where
  "sample_released_world =
     \<lparr>w_rows = [sample_released], w_outbox = [''m1''], w_inbound = (),
      w_notes = [NotifyReleased ''t1'' (outcome_event_for sample_released 5)]\<rparr>"

lemma sample_review:
  "q_review True True 5 ''t1'' ''q1'' StatusReleased ''ann'' [] [sample_held] = (Inr sample_released, [sample_released])"
  by (simp add: q_review_def q_get_def find_row_def affected_def update_where_def reviewable_def
      sample_released_def decide_def sample_held_def)

lemma sample_release_run:
  "review_release sample_reviewer True True 5 ''t1'' ''q1'' ''ann'' [] sample_world =
     (Inr sample_released, sample_released_world)"
proof -
  have "deliver sample_reviewer sample_released (sample_world\<lparr>w_rows := [sample_released]\<rparr>) =
      (None, sample_world\<lparr>w_rows := [sample_released], w_outbox := [''m1'']\<rparr>)"
    by (simp add: deliver_def sample_released_def decide_def sample_queue)
  moreover have "outcome sample_reviewer 5 sample_released = Some (outcome_event_for sample_released 5)"
    by (simp add: outcome_def sample_reviewer_def sample_released_def decide_def)
  ultimately show ?thesis
    using sample_review by (simp add: review_release_def sample_world_def sample_released_world_def)
qed

theorem release_delivers_witness:
  "wf_table (w_rows sample_world) \<and>
   review_release sample_reviewer True True 5 ''t1'' ''q1'' ''ann'' [] sample_world =
     (Inr sample_released, sample_released_world) \<and>
   w_notes sample_released_world = w_notes sample_world @
     [NotifyReleased ''t1'' (outcome_event_for sample_released 5)] \<and>
   (\<exists>rel. rv_release_outbound sample_reviewer = Some rel \<and>
     rel ''t1'' ''m1'' (w_outbox sample_world) = (None, w_outbox sample_released_world))"
proof -
  have wf: "wf_table (w_rows sample_world)" by (simp add: sample_queue wf_table_def)
  have "fm_action sample_released = ActionHold" "fm_direction sample_released = DirectionOutbound"
    "fm_payload_ref sample_released = ''m1''" "rv_notifier sample_reviewer"
    by (simp_all add: sample_released_def sample_queue)
  with wf sample_release_run release_delivers [OF wf sample_release_run] show ?thesis by simp
qed

theorem review_loser_witness:
  "\<not> (\<exists>m \<in> set (w_rows sample_world). reviewable ''t2'' ''q1'' m) \<and>
   review_release sample_reviewer True True 5 ''t2'' ''q1'' ''eve'' [] sample_world = (Inl ErrNotFound, sample_world)"
proof -
  have h: "\<not> (\<exists>m \<in> set (w_rows sample_world). reviewable ''t2'' ''q1'' m)"
    by (simp add: sample_queue reviewable_def)
  moreover have "review_refusal True True ''t2'' ''q1'' (w_rows sample_world) = ErrNotFound"
    by (simp add: review_refusal_def sample_queue)
  ultimately show ?thesis
    using review_loser [OF h, of sample_reviewer True True 5 "''eve''" "[]"] by simp
qed

lemma sample_expire:
  "q_expire True True True 200 10 [sample_held] =
     (Inr [sample_held\<lparr>fm_status := StatusExpired\<rparr>], [sample_held\<lparr>fm_status := StatusExpired\<rparr>])"
  by (simp add: q_expire_def Let_def select_due_def due_for_expiry_def mark_expired_def read_expired_def
      update_where_def sample_held_def)

theorem expire_sound_witness:
  "q_expire True True True 200 10 [sample_held] =
     (Inr [sample_held\<lparr>fm_status := StatusExpired\<rparr>], [sample_held\<lparr>fm_status := StatusExpired\<rparr>]) \<and>
   (\<exists>m \<in> set [sample_held]. due_for_expiry 200 m \<and>
      sample_held\<lparr>fm_status := StatusExpired\<rparr> = m\<lparr>fm_status := StatusExpired\<rparr>)"
proof -
  have wf: "wf_table [sample_held]" by (simp add: wf_table_def)
  from expire_sound [OF wf sample_expire] sample_expire show ?thesis by simp
qed

theorem expire_respects_review_witness:
  "q_review True True 5 ''t1'' ''q1'' StatusReleased ''ann'' [] [sample_held] =
     (Inr sample_released, [sample_released]) \<and>
   q_get True ''t1'' ''q1'' (mark_expired [''q1''] [sample_released]) = Inr sample_released"
proof -
  have wf: "wf_table [sample_held]" by (simp add: wf_table_def)
  from expire_respects_review [OF wf sample_review, of "[''q1'']"] sample_review show ?thesis by simp
qed

definition sample_listing :: quarantine_filter where
  "sample_listing = \<lparr>qf_direction = DirectionOther [], qf_status = StatusPending, qf_page_size = 1, qf_page_token = []\<rparr>"

theorem pages_complete_witness:
  "walk_pages 3 ''t1'' (sample_listing\<lparr>qf_page_token := []\<rparr>) [sample_held\<lparr>fm_id := ''q2''\<rparr>, sample_held] =
   Some (sort_key fm_id (filter (listed ''t1'' sample_listing) [sample_held\<lparr>fm_id := ''q2''\<rparr>, sample_held]))"
  by (rule pages_complete) (simp_all add: wf_table_def sample_held_def)

theorem record_announces_fetchable_witness:
  "screener_record True True ''q1'' 1 99 (sample_held\<lparr>fm_id := [], fm_created_at := 0, fm_expires_at := None\<rparr>) ([], []) =
     (Inr sample_held, [sample_held], [NotifyHeld ''t1'' (held_event_for sample_held)]) \<and>
   q_get True ''t1'' ''q1'' [sample_held] = Inr (insert_filtered sample_held)"
proof -
  have wf: "wf_table []" by (simp add: wf_table_def)
  have rec: "screener_record True True ''q1'' 1 99
      (sample_held\<lparr>fm_id := [], fm_created_at := 0, fm_expires_at := None\<rparr>) ([], []) =
     (Inr sample_held, [sample_held], [NotifyHeld ''t1'' (held_event_for sample_held)])"
    by (simp add: screener_record_def Let_def complete_record_def q_create_def insert_filtered_def
        create_defaults_def held_event_for_def sample_held_def)
  from record_announces_fetchable [OF wf rec] rec show ?thesis by (simp add: sample_held_def)
qed



theorem release_claimed_not_sent_witness:
  "\<exists>rows. review_release sample_reviewer True False 5 ''t1'' ''q1'' ''ann'' [] sample_world =
      (Inl DbError, sample_world\<lparr>w_rows := rows\<rparr>) \<and>
    review_release sample_reviewer True True 6 ''t1'' ''q1'' ''bob'' [] (sample_world\<lparr>w_rows := rows\<rparr>) =
      (Inl ErrAlreadyReviewed, sample_world\<lparr>w_rows := rows\<rparr>)"
proof -
  have h: "wf_table (w_rows sample_world)" "sample_held \<in> set (w_rows sample_world)" "reviewable ''t1'' ''q1'' sample_held"
    by (simp_all add: sample_queue wf_table_def reviewable_def)
  from release_claimed_not_sent [OF h, of sample_reviewer 5 "''ann''" "[]" 6 "''bob''" "[]"] show ?thesis by blast
qed


end
