(* ===== verification/Rate_Limiter.thy ===== *)
theory Rate_Limiter
  imports Complex_Main Run_Traces "HOL-Library.AList"
begin

text \<open>
  The send limiter of \<open>internal/ratelimit/limiter.go\<close>: token buckets per tenant and provider, an
  all-or-nothing charge over several buckets, and reservations for callers that can wait.

  The map of bucket pointers is an association list from keys to addresses, and the buckets live in
  a heap that only grows: a caller that holds a pointer keeps its bucket even when an eviction drops
  it from the map. The order in which Go iterates over the map is the argument \<open>order\<close>. Token counts
  are exact rationals where the code has \<open>float64\<close>; a conversion to a duration truncates as in Go.
\<close>

section \<open>Limits and buckets\<close>

record limit =
  l_per_minute :: int
  l_burst :: int

definition unlimited :: "limit \<Rightarrow> bool" where
  "unlimited l \<longleftrightarrow> l_per_minute l \<le> 0"

definition limit_capacity :: "limit \<Rightarrow> rat" where
  "limit_capacity l = (if l_burst l > 0 then of_int (l_burst l) else of_int (l_per_minute l))"

definition per_second :: "limit \<Rightarrow> rat" where
  "per_second l = of_int (l_per_minute l) / 60"

record bucket =
  b_tokens :: rat
  b_capacity :: rat
  b_per_sec :: rat
  b_refilled :: time
  b_seen :: time

record limiter =
  lm_buckets :: "(string \<times> nat) list"
  lm_heap :: "bucket list"
  lm_max_buckets :: nat
  lm_idle_ttl :: duration

definition new_limiter :: limiter where
  "new_limiter =
     \<lparr>lm_buckets = [], lm_heap = [], lm_max_buckets = 10000, lm_idle_ttl = 15 * minute\<rparr>"

definition min_float :: "rat \<Rightarrow> rat \<Rightarrow> rat" where
  "min_float a b = (if a < b then a else b)"

definition max_float :: "rat \<Rightarrow> rat \<Rightarrow> rat" where
  "max_float a b = (if a > b then a else b)"

definition seconds :: "duration \<Rightarrow> rat" where
  "seconds d = of_int d / of_int second"

definition to_duration :: "rat \<Rightarrow> duration" where
  "to_duration s = (let x = s * of_int second in if x < 0 then \<lceil>x\<rceil> else \<lfloor>x\<rfloor>)"

section \<open>Finding, creating and evicting buckets\<close>

definition bucket_at :: "limiter \<Rightarrow> nat \<Rightarrow> bucket" where
  "bucket_at l a = lm_heap l ! a"

definition put_bucket :: "nat \<Rightarrow> bucket \<Rightarrow> limiter \<Rightarrow> limiter" where
  "put_bucket a b l = l\<lparr>lm_heap := (lm_heap l)[a := b]\<rparr>"

fun pick_oldest :: "(nat \<Rightarrow> time) \<Rightarrow> (string \<times> nat) list \<Rightarrow> string \<times> time \<Rightarrow> string \<times> time" where
  "pick_oldest seen [] acc = acc"
| "pick_oldest seen ((k, a) # bs) (oldest, oldest_seen) =
     pick_oldest seen bs (if oldest = [] \<or> seen a < oldest_seen then (k, seen a) else (oldest, oldest_seen))"

definition evict_if_needed ::
  "((string \<times> nat) list \<Rightarrow> (string \<times> nat) list) \<Rightarrow> time \<Rightarrow> limiter \<Rightarrow> limiter" where
  "evict_if_needed order now l =
     (if length (lm_buckets l) < lm_max_buckets l then l
      else
        let kept = filter (\<lambda>(k, a). \<not> now - b_seen (bucket_at l a) > lm_idle_ttl l) (lm_buckets l)
        in if length kept < lm_max_buckets l then l\<lparr>lm_buckets := kept\<rparr>
           else
             let oldest = fst (pick_oldest (\<lambda>a. b_seen (bucket_at l a)) (order kept) ([], zero_time))
             in l\<lparr>lm_buckets := AList.delete oldest kept\<rparr>)"

definition rerate :: "limit \<Rightarrow> bucket \<Rightarrow> bucket" where
  "rerate lmt b =
     (if b_per_sec b \<noteq> per_second lmt \<or> b_capacity b \<noteq> limit_capacity lmt
      then b\<lparr>b_per_sec := per_second lmt, b_capacity := limit_capacity lmt,
             b_tokens := min_float (b_tokens b) (limit_capacity lmt)\<rparr>
      else b)"

definition fresh_bucket :: "limit \<Rightarrow> time \<Rightarrow> bucket" where
  "fresh_bucket lmt now =
     \<lparr>b_tokens = limit_capacity lmt, b_capacity = limit_capacity lmt, b_per_sec = per_second lmt,
      b_refilled = now, b_seen = now\<rparr>"

definition bucket_for ::
  "((string \<times> nat) list \<Rightarrow> (string \<times> nat) list) \<Rightarrow> string \<Rightarrow> limit \<Rightarrow> time \<Rightarrow> limiter \<Rightarrow> nat \<times> limiter" where
  "bucket_for order key lmt now l =
     (case map_of (lm_buckets l) key of
        Some a \<Rightarrow> (a, put_bucket a (rerate lmt (bucket_at l a)) l)
      | None \<Rightarrow>
          let l1 = evict_if_needed order now l;
              a = length (lm_heap l1)
          in (a, l1\<lparr>lm_buckets := AList.update key a (lm_buckets l1),
                    lm_heap := lm_heap l1 @ [fresh_bucket lmt now]\<rparr>))"

section \<open>Charging\<close>

record charge =
  ch_allowed :: bool
  ch_retry_after :: duration
  ch_spend :: rat
  ch_empty :: bool

definition refill :: "time \<Rightarrow> bucket \<Rightarrow> bucket" where
  "refill now b =
     (let elapsed = seconds (now - b_refilled b);
          b1 = (if elapsed > 0
                then b\<lparr>b_tokens := min_float (b_capacity b) (b_tokens b + elapsed * b_per_sec b),
                       b_refilled := now\<rparr>
                else b)
      in b1\<lparr>b_seen := now\<rparr>)"

definition assess :: "int \<Rightarrow> time \<Rightarrow> bucket \<Rightarrow> charge \<times> bucket" where
  "assess cost now b =
     (let b' = refill now b; want = of_int cost
      in if want > b_capacity b' then (\<lparr>ch_allowed = True, ch_retry_after = 0, ch_spend = 0, ch_empty = True\<rparr>, b')
         else if b_tokens b' \<ge> want
         then (\<lparr>ch_allowed = True, ch_retry_after = 0, ch_spend = want, ch_empty = False\<rparr>, b')
         else (\<lparr>ch_allowed = False, ch_retry_after = to_duration ((want - b_tokens b') / b_per_sec b'),
                ch_spend = 0, ch_empty = False\<rparr>, b'))"

definition apply_charge :: "charge \<Rightarrow> bucket \<Rightarrow> bucket" where
  "apply_charge d b =
     (if \<not> ch_allowed d then b
      else if ch_empty d then b\<lparr>b_tokens := 0\<rparr>
      else b\<lparr>b_tokens := b_tokens b - ch_spend d\<rparr>)"

definition norm_cost :: "int \<Rightarrow> int" where
  "norm_cost cost = (if cost \<le> 0 then 1 else cost)"

definition allow ::
  "((string \<times> nat) list \<Rightarrow> (string \<times> nat) list) \<Rightarrow> time \<Rightarrow> string \<Rightarrow> limit \<Rightarrow> int \<Rightarrow> limiter
    \<Rightarrow> (bool \<times> duration) \<times> limiter" where
  "allow order now key lmt cost l =
     (if unlimited lmt then ((True, 0), l)
      else
        let (a, l1) = bucket_for order key lmt now l;
            (d, b) = assess (norm_cost cost) now (bucket_at l1 a)
        in ((ch_allowed d, ch_retry_after d), put_bucket a (apply_charge d b) l1))"

record request =
  q_key :: string
  q_limit :: limit

definition skipped :: "request \<Rightarrow> bool" where
  "skipped r \<longleftrightarrow> unlimited (q_limit r) \<or> q_key r = []"

fun assess_all ::
  "((string \<times> nat) list \<Rightarrow> (string \<times> nat) list) \<Rightarrow> time \<Rightarrow> int \<Rightarrow> request list \<Rightarrow> limiter
    \<Rightarrow> (nat \<times> charge) list \<times> limiter" where
  "assess_all order now cost [] l = ([], l)"
| "assess_all order now cost (r # rs) l =
     (if skipped r then assess_all order now cost rs l
      else
        let (a, l1) = bucket_for order (q_key r) (q_limit r) now l;
            (d, b) = assess cost now (bucket_at l1 a);
            (ps, l2) = assess_all order now cost rs (put_bucket a b l1)
        in ((a, d) # ps, l2))"

definition apply_all :: "(nat \<times> charge) list \<Rightarrow> limiter \<Rightarrow> limiter" where
  "apply_all ps l = fold (\<lambda>(a, d) l. put_bucket a (apply_charge d (bucket_at l a)) l) ps l"

definition longest_retry :: "(nat \<times> charge) list \<Rightarrow> duration" where
  "longest_retry ps =
     fold (\<lambda>(a, d) m. if \<not> ch_allowed d \<and> ch_retry_after d > m then ch_retry_after d else m) ps 0"

definition allow_all ::
  "((string \<times> nat) list \<Rightarrow> (string \<times> nat) list) \<Rightarrow> time \<Rightarrow> request list \<Rightarrow> int \<Rightarrow> limiter
    \<Rightarrow> (bool \<times> duration) \<times> limiter" where
  "allow_all order now reqs cost l =
     (let (ps, l1) = assess_all order now (norm_cost cost) reqs l
      in if list_ex (\<lambda>(a, d). \<not> ch_allowed d) ps then ((False, longest_retry ps), l1)
         else ((True, 0), apply_all ps l1))"

section \<open>Reservations\<close>

record reservation =
  rs_delay :: duration
  rs_held :: "(string \<times> rat) list"

definition reserve_one :: "int \<Rightarrow> time \<Rightarrow> bucket \<Rightarrow> (rat \<times> duration) \<times> bucket" where
  "reserve_one cost now b =
     (let b' = refill now b; want = of_int cost
      in if want > b_capacity b' then ((max_float (b_tokens b') 0, 0), b'\<lparr>b_tokens := 0\<rparr>)
         else
           let b'' = b'\<lparr>b_tokens := b_tokens b' - want\<rparr>
           in ((want, if b_tokens b'' < 0 then to_duration (- b_tokens b'' / b_per_sec b'') else 0), b''))"

fun reserve_loop ::
  "((string \<times> nat) list \<Rightarrow> (string \<times> nat) list) \<Rightarrow> time \<Rightarrow> int \<Rightarrow> request list
    \<Rightarrow> reservation \<times> limiter \<Rightarrow> reservation \<times> limiter" where
  "reserve_loop order now cost [] (r, l) = (r, l)"
| "reserve_loop order now cost (q # qs) (r, l) =
     (if skipped q then reserve_loop order now cost qs (r, l)
      else
        let (a, l1) = bucket_for order (q_key q) (q_limit q) now l;
            ((restore, wait), b) = reserve_one cost now (bucket_at l1 a)
        in reserve_loop order now cost qs
             (r\<lparr>rs_held := rs_held r @ [(q_key q, restore)],
                rs_delay := (if wait > rs_delay r then wait else rs_delay r)\<rparr>,
              put_bucket a b l1))"

definition reserve_all ::
  "((string \<times> nat) list \<Rightarrow> (string \<times> nat) list) \<Rightarrow> time \<Rightarrow> request list \<Rightarrow> int \<Rightarrow> limiter
    \<Rightarrow> reservation \<times> limiter" where
  "reserve_all order now reqs cost l =
     reserve_loop order now (norm_cost cost) reqs (\<lparr>rs_delay = 0, rs_held = []\<rparr>, l)"

definition restore_one :: "string \<times> rat \<Rightarrow> limiter \<Rightarrow> limiter" where
  "restore_one h l =
     (case map_of (lm_buckets l) (fst h) of
        None \<Rightarrow> l
      | Some a \<Rightarrow>
          let b = bucket_at l a
          in put_bucket a (b\<lparr>b_tokens := min_float (b_capacity b) (b_tokens b + snd h)\<rparr>) l)"

definition cancel :: "reservation \<Rightarrow> limiter \<Rightarrow> reservation \<times> limiter" where
  "cancel r l = (r\<lparr>rs_held := []\<rparr>, fold restore_one (rs_held r) l)"

definition forget :: "string \<Rightarrow> limiter \<Rightarrow> limiter" where
  "forget key l = l\<lparr>lm_buckets := AList.delete key (lm_buckets l)\<rparr>"

definition tracked :: "limiter \<Rightarrow> nat" where
  "tracked l = length (lm_buckets l)"

section \<open>The abstract limiter\<close>

text \<open>
  A limiter promises a map from keys to buckets. \<open>view\<close> reads that map off the pointers and the
  heap; with room for the keys in use no operation evicts, and every operation is the function of
  the map below.
\<close>

definition view :: "limiter \<Rightarrow> string \<Rightarrow> bucket option" where
  "view l k = map_option (bucket_at l) (map_of (lm_buckets l) k)"

definition keys_of :: "limiter \<Rightarrow> string set" where
  "keys_of l = fst ` set (lm_buckets l)"

definition wf_limiter :: "limiter \<Rightarrow> bool" where
  "wf_limiter l \<longleftrightarrow>
     distinct (map fst (lm_buckets l)) \<and> distinct (map snd (lm_buckets l)) \<and>
     (\<forall>(k, a) \<in> set (lm_buckets l). a < length (lm_heap l))"

definition rated :: "limit \<Rightarrow> time \<Rightarrow> bucket option \<Rightarrow> bucket" where
  "rated lmt now ob = (case ob of None \<Rightarrow> fresh_bucket lmt now | Some b \<Rightarrow> rerate lmt b)"

definition active :: "request list \<Rightarrow> request list" where
  "active reqs = filter (\<lambda>r. \<not> skipped r) reqs"

definition active_keys :: "request list \<Rightarrow> string list" where
  "active_keys reqs = map q_key (active reqs)"

definition room :: "limiter \<Rightarrow> string set \<Rightarrow> bool" where
  "room l ks \<longleftrightarrow> card (keys_of l \<union> ks) \<le> lm_max_buckets l"

lemma map_of_key:
  "wf_limiter l \<Longrightarrow> map_of (lm_buckets l) k = Some a \<longleftrightarrow> (k, a) \<in> set (lm_buckets l)"
  by (simp add: wf_limiter_def)

lemma address_inj:
  assumes "wf_limiter l" "map_of (lm_buckets l) k = Some a" "map_of (lm_buckets l) k' = Some a"
  shows "k = k'"
proof -
  from assms have "(k, a) \<in> set (lm_buckets l)" "(k', a) \<in> set (lm_buckets l)"
    by (auto simp: map_of_key)
  moreover from assms(1) have "inj_on snd (set (lm_buckets l))"
    by (simp add: wf_limiter_def distinct_map)
  ultimately show ?thesis by (metis inj_onD prod.inject snd_conv)
qed

lemma address_bound:
  "wf_limiter l \<Longrightarrow> map_of (lm_buckets l) k = Some a \<Longrightarrow> a < length (lm_heap l)"
  by (auto simp: map_of_key) (auto simp: wf_limiter_def)

lemma put_bucket_frame [simp]:
  "lm_buckets (put_bucket a b l) = lm_buckets l"
  "lm_max_buckets (put_bucket a b l) = lm_max_buckets l"
  "length (lm_heap (put_bucket a b l)) = length (lm_heap l)"
  "wf_limiter (put_bucket a b l) = wf_limiter l"
  "keys_of (put_bucket a b l) = keys_of l"
  by (simp_all add: put_bucket_def wf_limiter_def keys_of_def)

lemma bucket_at_put:
  "a < length (lm_heap l) \<Longrightarrow> bucket_at (put_bucket a b l) a' = (if a' = a then b else bucket_at l a')"
  by (simp add: bucket_at_def put_bucket_def)

lemma view_put:
  assumes "wf_limiter l" "map_of (lm_buckets l) k = Some a"
  shows "view (put_bucket a b l) = (view l)(k \<mapsto> b)"
proof
  fix k'
  show "view (put_bucket a b l) k' = ((view l)(k \<mapsto> b)) k'"
    using address_inj [OF assms(1), of k' a k] assms address_bound [OF assms]
    by (cases "map_of (lm_buckets l) k'") (auto simp: view_def bucket_at_put)
qed

lemma keys_of_view: "wf_limiter l \<Longrightarrow> keys_of l = dom (view l)"
  by (simp add: keys_of_def view_def dom_def dom_map_of_conv_image_fst [symmetric])

lemma finite_keys [simp]: "finite (keys_of l)"
  by (simp add: keys_of_def)

lemma evict_room:
  assumes "wf_limiter l" "room l ks" "k \<in> ks" "finite ks" "map_of (lm_buckets l) k = None"
  shows "evict_if_needed order now l = l"
proof -
  from assms(5) have "k \<notin> keys_of l" by (simp add: keys_of_def map_of_eq_None_iff)
  then have "card (keys_of l) < card (keys_of l \<union> ks)"
    using assms(3,4) by (intro psubset_card_mono) auto
  moreover have "card (keys_of l) = length (lm_buckets l)"
    using assms(1) distinct_card [of "map fst (lm_buckets l)"] by (simp add: keys_of_def wf_limiter_def)
  ultimately show ?thesis
    using assms(2) by (simp add: room_def evict_if_needed_def)
qed

lemma bucket_for_view:
  assumes "wf_limiter l" "room l ks" "k \<in> ks" "finite ks" "bucket_for order k lmt now l = (a, l')"
  shows "wf_limiter l'" "map_of (lm_buckets l') k = Some a"
    "view l' = (view l)(k \<mapsto> rated lmt now (view l k))"
    "bucket_at l' a = rated lmt now (view l k)"
    "keys_of l' = insert k (keys_of l)" "lm_max_buckets l' = lm_max_buckets l"
    "map_of (lm_buckets l) \<subseteq>\<^sub>m map_of (lm_buckets l')"
proof -
  let ?goal = "wf_limiter l' \<and> map_of (lm_buckets l') k = Some a \<and>
    view l' = (view l)(k \<mapsto> rated lmt now (view l k)) \<and> bucket_at l' a = rated lmt now (view l k) \<and>
    keys_of l' = insert k (keys_of l) \<and> lm_max_buckets l' = lm_max_buckets l \<and>
    map_of (lm_buckets l) \<subseteq>\<^sub>m map_of (lm_buckets l')"
  have ?goal
  proof (cases "map_of (lm_buckets l) k")
    case (Some a0)
    with assms(5) have l': "l' = put_bucket a (rerate lmt (bucket_at l a)) l" and a: "a = a0"
      by (auto simp: bucket_for_def)
    have "insert k (keys_of l) = keys_of l"
      using Some by (force simp: keys_of_def dest: map_of_SomeD)
    with Some a assms(1) address_bound [OF assms(1)] show ?thesis
      by (simp add: l' view_put bucket_at_put) (simp add: view_def rated_def)
  next
    case None
    with assms evict_room [OF assms(1-4)] have a: "a = length (lm_heap l)"
      and l': "l' = l\<lparr>lm_buckets := AList.update k a (lm_buckets l), lm_heap := lm_heap l @ [fresh_bucket lmt now]\<rparr>"
      by (auto simp: bucket_for_def Let_def)
    have fresh: "k \<notin> fst ` set (lm_buckets l)" using None by (simp add: map_of_eq_None_iff)
    have buckets: "lm_buckets l' = lm_buckets l @ [(k, a)]" by (simp add: l' update_new [OF fresh])
    have at: "bucket_at l' x = (if x < length (lm_heap l) then bucket_at l x else fresh_bucket lmt now)"
      if "x \<le> length (lm_heap l)" for x
      using that by (auto simp: bucket_at_def l' nth_append)
    have below: "x < length (lm_heap l)" if "(y, x) \<in> set (lm_buckets l)" for x y
      using assms(1) that by (auto simp: wf_limiter_def)
    have "wf_limiter l'"
      using assms(1) fresh below by (auto simp: wf_limiter_def buckets a) (auto simp: l' less_Suc_eq dest: below)
    moreover have "view l' k' = ((view l)(k \<mapsto> rated lmt now (view l k))) k'" for k'
      using fresh None address_bound [OF assms(1), of k']
      by (cases "map_of (lm_buckets l) k'") (auto simp: view_def buckets map_add_def at a rated_def)
    moreover have "map_of (lm_buckets l') k = Some a"
      using None by (simp add: buckets map_add_def)
    moreover have "map_of (lm_buckets l) \<subseteq>\<^sub>m map_of (lm_buckets l')"
      using None by (auto simp: buckets map_le_def map_add_def split: option.split)
    ultimately show ?thesis
      using None by (auto simp: at a rated_def view_def keys_of_def buckets) (simp add: l')
  qed
  then show "wf_limiter l'" "map_of (lm_buckets l') k = Some a"
    "view l' = (view l)(k \<mapsto> rated lmt now (view l k))"
    "bucket_at l' a = rated lmt now (view l k)"
    "keys_of l' = insert k (keys_of l)" "lm_max_buckets l' = lm_max_buckets l"
    "map_of (lm_buckets l) \<subseteq>\<^sub>m map_of (lm_buckets l')" by blast+
qed

section \<open>Refinement\<close>

type_synonym buckets = "string \<rightharpoonup> bucket"

fun abs_assess_all :: "time \<Rightarrow> int \<Rightarrow> request list \<Rightarrow> buckets \<Rightarrow> (string \<times> charge) list \<times> buckets" where
  "abs_assess_all now cost [] m = ([], m)"
| "abs_assess_all now cost (r # rs) m =
     (if skipped r then abs_assess_all now cost rs m
      else
        let (d, b) = assess cost now (rated (q_limit r) now (m (q_key r)));
            (ps, m') = abs_assess_all now cost rs (m(q_key r \<mapsto> b))
        in ((q_key r, d) # ps, m'))"

definition abs_apply_all :: "(string \<times> charge) list \<Rightarrow> buckets \<Rightarrow> buckets" where
  "abs_apply_all ps m = fold (\<lambda>(k, d) m. m(k \<mapsto> apply_charge d (the (m k)))) ps m"

definition abs_allow_all :: "time \<Rightarrow> request list \<Rightarrow> int \<Rightarrow> buckets \<Rightarrow> bool \<times> buckets" where
  "abs_allow_all now reqs cost m =
     (let (ps, m1) = abs_assess_all now (norm_cost cost) reqs m
      in if list_ex (\<lambda>(k, d). \<not> ch_allowed d) ps then (False, m1) else (True, abs_apply_all ps m1))"

fun abs_reserve :: "time \<Rightarrow> int \<Rightarrow> request list \<Rightarrow> reservation \<times> buckets \<Rightarrow> reservation \<times> buckets" where
  "abs_reserve now cost [] (r, m) = (r, m)"
| "abs_reserve now cost (q # qs) (r, m) =
     (if skipped q then abs_reserve now cost qs (r, m)
      else
        let ((restore, wait), b) = reserve_one cost now (rated (q_limit q) now (m (q_key q)))
        in abs_reserve now cost qs
             (r\<lparr>rs_held := rs_held r @ [(q_key q, restore)],
                rs_delay := (if wait > rs_delay r then wait else rs_delay r)\<rparr>,
              m(q_key q \<mapsto> b)))"

lemma active_keys_simps [simp]:
  "active_keys [] = []"
  "active_keys (r # rs) = (if skipped r then active_keys rs else q_key r # active_keys rs)"
  by (simp_all add: active_keys_def active_def)

lemma room_insert: "room l (insert k ks) \<Longrightarrow> keys_of l' = insert k (keys_of l) \<Longrightarrow>
   lm_max_buckets l' = lm_max_buckets l \<Longrightarrow> room l' ks"
  by (simp add: room_def)

text \<open>A charge in the list of the code belongs to a key through its address.\<close>

definition same_charges :: "limiter \<Rightarrow> (nat \<times> charge) list \<Rightarrow> (string \<times> charge) list \<Rightarrow> bool" where
  "same_charges l ps qs \<longleftrightarrow>
     list_all2 (\<lambda>p q. map_of (lm_buckets l) (fst q) = Some (fst p) \<and> snd p = snd q) ps qs"

lemma assess_all_refines:
  assumes "wf_limiter l" "room l (set (active_keys reqs))"
    "assess_all order now cost reqs l = (ps, l')"
    "abs_assess_all now cost reqs (view l) = (qs, m')"
  shows "wf_limiter l' \<and> view l' = m' \<and> same_charges l' ps qs \<and>
    map_of (lm_buckets l) \<subseteq>\<^sub>m map_of (lm_buckets l')"
  using assms
proof (induction reqs arbitrary: l ps qs)
  case (Cons r rs)
  show ?case
  proof (cases "skipped r")
    case False
    let ?b = "rated (q_limit r) now (view l (q_key r))"
    obtain a l1 where bf: "bucket_for order (q_key r) (q_limit r) now l = (a, l1)" by force
    have "room l (insert (q_key r) (set (active_keys rs)))" using Cons.prems(2) False by simp
    note v = bucket_for_view [OF Cons.prems(1) this _ _ bf, simplified]
    obtain d b where as: "assess cost now ?b = (d, b)" by force
    let ?l2 = "put_bucket a b l1"
    obtain ps' qs' where ps': "assess_all order now cost rs ?l2 = (ps', l')" "ps = (a, d) # ps'"
      and qs': "abs_assess_all now cost rs ((view l)(q_key r \<mapsto> b)) = (qs', m')" "qs = (q_key r, d) # qs'"
      using Cons.prems(3,4) False bf as v(4) by (auto split: prod.splits)
    have view2: "(view l)(q_key r \<mapsto> b) = view ?l2"
      using view_put [OF v(1,2)] v(3) by simp
    have "room ?l2 (set (active_keys rs))"
      using Cons.prems(2) False v(5,6) by (simp add: room_def)
    then have IH: "wf_limiter l' \<and> view l' = m' \<and> same_charges l' ps' qs' \<and>
      map_of (lm_buckets ?l2) \<subseteq>\<^sub>m map_of (lm_buckets l')"
      using Cons.IH [OF _ _ ps'(1) qs'(1) [unfolded view2]] v(1) by simp
    moreover have "map_of (lm_buckets l') (q_key r) = Some a"
      using IH v(2) by (metis domI map_le_def put_bucket_frame(1))
    moreover have "map_of (lm_buckets l) \<subseteq>\<^sub>m map_of (lm_buckets l')"
      using IH v(7) map_le_trans by (metis put_bucket_frame(1))
    ultimately show ?thesis by (simp add: ps'(2) qs'(2) same_charges_def)
  qed (use Cons in simp)
qed (simp add: same_charges_def)

lemma apply_all_refines:
  assumes "wf_limiter l" "same_charges l ps qs"
  shows "wf_limiter (apply_all ps l) \<and> view (apply_all ps l) = abs_apply_all qs (view l)"
  using assms
proof (induction ps arbitrary: l qs)
  case Nil
  then show ?case by (simp add: apply_all_def abs_apply_all_def same_charges_def)
next
  case (Cons p ps)
  obtain a d where p: "p = (a, d)" by force
  from Cons.prems p obtain k qs' where qs: "qs = (k, d) # qs'" "map_of (lm_buckets l) k = Some a"
    and rest: "same_charges l ps qs'"
    by (cases qs) (auto simp: same_charges_def)
  let ?l = "put_bucket a (apply_charge d (bucket_at l a)) l"
  have "the (view l k) = bucket_at l a" using qs(2) by (simp add: view_def)
  then have "abs_apply_all qs (view l) = abs_apply_all qs' (view ?l)"
    unfolding view_put [OF Cons.prems(1) qs(2)] by (simp add: qs(1) abs_apply_all_def)
  moreover have "apply_all (p # ps) l = apply_all ps ?l" by (simp add: apply_all_def p)
  ultimately show ?case
    using Cons.IH [of ?l qs'] Cons.prems(1) rest by (simp add: same_charges_def)
qed

lemma list_ex_snd: "list_ex (\<lambda>(a, d). P d) xs = list_ex P (map snd xs)"
  by (induction xs) auto

lemma allow_all_refines_abs:
  assumes "wf_limiter l" "room l (set (active_keys reqs))"
  shows "fst (fst (allow_all order now reqs cost l)) = fst (abs_allow_all now reqs cost (view l))"
    and "view (snd (allow_all order now reqs cost l)) = snd (abs_allow_all now reqs cost (view l))"
    and "wf_limiter (snd (allow_all order now reqs cost l))"
proof -
  obtain ps l1 where c: "assess_all order now (norm_cost cost) reqs l = (ps, l1)" by force
  obtain qs m1 where a: "abs_assess_all now (norm_cost cost) reqs (view l) = (qs, m1)" by force
  note r = assess_all_refines [OF assms c a]
  from r have "map snd ps = map snd qs"
    by (auto simp: same_charges_def list_all2_conv_all_nth intro: nth_equalityI)
  then have "list_ex (\<lambda>(a, d). \<not> ch_allowed d) ps = list_ex (\<lambda>(k, d). \<not> ch_allowed d) qs"
    unfolding list_ex_snd by simp
  with r apply_all_refines [of l1 ps qs]
  show "fst (fst (allow_all order now reqs cost l)) = fst (abs_allow_all now reqs cost (view l))"
    "view (snd (allow_all order now reqs cost l)) = snd (abs_allow_all now reqs cost (view l))"
    "wf_limiter (snd (allow_all order now reqs cost l))"
    by (auto simp: allow_all_def abs_allow_all_def c a)
qed

lemma reserve_refines:
  assumes "wf_limiter l" "room l (set (active_keys reqs))"
    "reserve_loop order now cost reqs (r, l) = (r', l')"
  shows "wf_limiter l' \<and> abs_reserve now cost reqs (r, view l) = (r', view l') \<and>
    keys_of l' = keys_of l \<union> set (active_keys reqs) \<and> lm_max_buckets l' = lm_max_buckets l"
  using assms
proof (induction reqs arbitrary: l r)
  case (Cons q qs)
  show ?case
  proof (cases "skipped q")
    case False
    let ?b = "rated (q_limit q) now (view l (q_key q))"
    obtain a l1 where bf: "bucket_for order (q_key q) (q_limit q) now l = (a, l1)" by force
    have "room l (insert (q_key q) (set (active_keys qs)))" using Cons.prems(2) False by simp
    note v = bucket_for_view [OF Cons.prems(1) this _ _ bf, simplified]
    obtain restore wait b where one: "reserve_one cost now ?b = ((restore, wait), b)" by (metis surj_pair)
    let ?l2 = "put_bucket a b l1"
    let ?r = "r\<lparr>rs_held := rs_held r @ [(q_key q, restore)], rs_delay := (if wait > rs_delay r then wait else rs_delay r)\<rparr>"
    have loop: "reserve_loop order now cost qs (?r, ?l2) = (r', l')"
      using Cons.prems(3) False bf one v(4) by simp
    have view2: "(view l)(q_key q \<mapsto> b) = view ?l2"
      using view_put [OF v(1,2)] v(3) by simp
    have "room ?l2 (set (active_keys qs))"
      using Cons.prems(2) False v(5,6) by (simp add: room_def)
    moreover have "wf_limiter ?l2" using v(1) by simp
    ultimately have IH: "wf_limiter l' \<and> abs_reserve now cost qs (?r, view ?l2) = (r', view l') \<and>
      keys_of l' = keys_of ?l2 \<union> set (active_keys qs) \<and> lm_max_buckets l' = lm_max_buckets ?l2"
      using Cons.IH [OF _ _ loop] by blast
    moreover have "abs_reserve now cost (q # qs) (r, view l) = abs_reserve now cost qs (?r, view ?l2)"
      using False one unfolding view2 [symmetric] by simp
    ultimately show ?thesis using False v(5,6) by auto
  qed (use Cons in simp)
qed simp

lemma assess_all_frame:
  assumes "wf_limiter l" "room l (set (active_keys reqs))" "assess_all order now cost reqs l = (ps, l')"
  shows "keys_of l' = keys_of l \<union> set (active_keys reqs) \<and> lm_max_buckets l' = lm_max_buckets l"
  using assms
proof (induction reqs arbitrary: l ps)
  case (Cons r rs)
  show ?case
  proof (cases "skipped r")
    case False
    obtain a l1 where bf: "bucket_for order (q_key r) (q_limit r) now l = (a, l1)" by force
    have "room l (insert (q_key r) (set (active_keys rs)))" using Cons.prems(2) False by simp
    note v = bucket_for_view [OF Cons.prems(1) this _ _ bf, simplified]
    obtain d b where as: "assess cost now (bucket_at l1 a) = (d, b)" by force
    obtain ps' where "assess_all order now cost rs (put_bucket a b l1) = (ps', l')"
      using Cons.prems(3) False bf as by (auto split: prod.splits)
    with Cons.IH [of "put_bucket a b l1" ps'] Cons.prems(2) False v(1,5,6)
    show ?thesis by (auto simp: room_def)
  qed (use Cons in simp)
qed simp

lemma apply_all_frame [simp]:
  "lm_buckets (apply_all ps l) = lm_buckets l"
  "lm_max_buckets (apply_all ps l) = lm_max_buckets l"
  unfolding apply_all_def by (induction ps arbitrary: l) (auto simp: case_prod_beta)

lemma keys_allow_all:
  assumes "wf_limiter l" "room l (set (active_keys reqs))"
  shows "keys_of (snd (allow_all order now reqs cost l)) = keys_of l \<union> set (active_keys reqs)"
    and "lm_max_buckets (snd (allow_all order now reqs cost l)) = lm_max_buckets l"
proof -
  obtain ps l1 where c: "assess_all order now (norm_cost cost) reqs l = (ps, l1)" by force
  from assess_all_frame [OF assms c]
  show "keys_of (snd (allow_all order now reqs cost l)) = keys_of l \<union> set (active_keys reqs)"
    "lm_max_buckets (snd (allow_all order now reqs cost l)) = lm_max_buckets l"
    by (auto simp: allow_all_def c keys_of_def)
qed

section \<open>What a charge does to one bucket\<close>

text \<open>What a key may spend at a moment: its tokens after the refill, or a full bucket.\<close>

definition balance :: "limit \<Rightarrow> time \<Rightarrow> bucket option \<Rightarrow> rat" where
  "balance lmt now ob = b_tokens (refill now (rated lmt now ob))"

lemma assess_bucket [simp]: "snd (assess cost now b) = refill now b"
  by (simp add: assess_def Let_def)

lemma refill_frame [simp]:
  "b_capacity (refill now b) = b_capacity b" "b_per_sec (refill now b) = b_per_sec b"
  by (simp_all add: refill_def Let_def)

lemma rated_frame [simp]:
  "b_capacity (rated lmt now ob) = limit_capacity lmt" "b_per_sec (rated lmt now ob) = per_second lmt"
  by (auto simp: rated_def rerate_def fresh_bucket_def split: option.split)

lemma abs_assess_all_at:
  assumes "distinct (active_keys reqs)" "abs_assess_all now cost reqs m = (qs, m')"
  shows "qs = map (\<lambda>r. (q_key r, fst (assess cost now (rated (q_limit r) now (m (q_key r)))))) (active reqs)"
    and "\<And>r. r \<in> set (active reqs) \<Longrightarrow> m' (q_key r) = Some (refill now (rated (q_limit r) now (m (q_key r))))"
    and "\<And>k. k \<notin> set (active_keys reqs) \<Longrightarrow> m' k = m k"
proof -
  have "qs = map (\<lambda>r. (q_key r, fst (assess cost now (rated (q_limit r) now (m (q_key r)))))) (active reqs) \<and>
    (\<forall>r \<in> set (active reqs). m' (q_key r) = Some (refill now (rated (q_limit r) now (m (q_key r))))) \<and>
    (\<forall>k. k \<notin> set (active_keys reqs) \<longrightarrow> m' k = m k)"
    using assms
  proof (induction reqs arbitrary: m qs)
    case (Cons r rs)
    show ?case
    proof (cases "skipped r")
      case False
      let ?b = "rated (q_limit r) now (m (q_key r))"
      obtain qs' where rec: "abs_assess_all now cost rs (m(q_key r \<mapsto> refill now ?b)) = (qs', m')"
        and qs: "qs = (q_key r, fst (assess cost now ?b)) # qs'"
        using Cons.prems(2) False assess_bucket [of cost now ?b]
        by (cases "assess cost now ?b") (auto split: prod.splits simp del: assess_bucket)
      have new: "q_key x \<noteq> q_key r" if "x \<in> set (active rs)" for x
        using Cons.prems(1) False that by (auto simp: active_keys_def active_def image_iff)
      have "q_key r \<notin> set (active_keys rs)" using Cons.prems(1) False by simp
      with Cons.IH [OF _ rec] Cons.prems(1) False new show ?thesis
        by (auto simp: qs active_def)
    qed (use Cons in \<open>auto simp: active_def\<close>)
  qed (simp add: active_def)
  then show "qs = map (\<lambda>r. (q_key r, fst (assess cost now (rated (q_limit r) now (m (q_key r)))))) (active reqs)"
    and "\<And>r. r \<in> set (active reqs) \<Longrightarrow> m' (q_key r) = Some (refill now (rated (q_limit r) now (m (q_key r))))"
    and "\<And>k. k \<notin> set (active_keys reqs) \<Longrightarrow> m' k = m k"
    by blast+
qed

lemma abs_apply_all_at:
  assumes "distinct (map fst qs)"
  shows "(k, d) \<in> set qs \<Longrightarrow> abs_apply_all qs m k = Some (apply_charge d (the (m k)))"
    and "k \<notin> fst ` set qs \<Longrightarrow> abs_apply_all qs m k = m k"
  using assms unfolding abs_apply_all_def
  by (induction qs arbitrary: m) (force simp: image_iff)+

lemma capacity_pos: "\<not> unlimited lmt \<Longrightarrow> 0 < limit_capacity lmt"
  by (simp add: unlimited_def limit_capacity_def)

lemma rate_pos: "\<not> unlimited lmt \<Longrightarrow> 0 < per_second lmt"
  by (simp add: unlimited_def per_second_def)

text \<open>After a refill the balance is the token count, and the next rating at the same limit keeps it.\<close>

lemma rated_same:
  "b_capacity b = limit_capacity lmt \<Longrightarrow> b_per_sec b = per_second lmt \<Longrightarrow> rated lmt now (Some b) = b"
  by (simp add: rated_def rerate_def)

definition full_at_most :: "bucket option \<Rightarrow> bool" where
  "full_at_most ob \<longleftrightarrow> (\<forall>b. ob = Some b \<longrightarrow> b_tokens b \<le> b_capacity b)"

lemma balance_capacity: "full_at_most ob \<Longrightarrow> balance lmt now ob \<le> limit_capacity lmt"
  by (cases ob) (auto simp: balance_def refill_def Let_def rated_def rerate_def fresh_bucket_def
      min_float_def full_at_most_def)

lemma seconds_pos [simp]: "0 < seconds d \<longleftrightarrow> 0 < d"
  by (simp add: seconds_def)

lemma refill_grows:
  assumes "t \<le> t'" "0 \<le> b_per_sec b"
  shows "b_tokens (refill t' b) \<le> b_tokens (refill t b) + b_per_sec b * seconds (t' - t)"
proof -
  let ?r = "b_per_sec b" and ?k = "b_tokens b" and ?c = "b_capacity b" and ?f = "b_refilled b"
  have mono: "0 \<le> ?r * seconds (t' - t)" using assms by (simp add: seconds_def)
  show ?thesis
  proof (cases "?f < t")
    case True
    have split: "seconds (t' - ?f) = seconds (t - ?f) + seconds (t' - t)"
      by (simp add: seconds_def diff_divide_distrib add_divide_distrib)
    have "b_tokens (refill t b) = min_float ?c (?k + seconds (t - ?f) * ?r)"
      "b_tokens (refill t' b) = min_float ?c (?k + (seconds (t - ?f) + seconds (t' - t)) * ?r)"
      using True assms(1) unfolding split [symmetric] by (simp_all add: refill_def Let_def)
    with mono show ?thesis by (auto simp: min_float_def algebra_simps)
  next
    case False
    have "?r * seconds (t' - ?f) \<le> ?r * seconds (t' - t)" if "?f < t'"
      using False assms that by (intro mult_left_mono) (auto simp: seconds_def divide_right_mono)
    with False mono show ?thesis
      by (auto simp: refill_def Let_def min_float_def algebra_simps)
  qed
qed

lemma balance_grows:
  assumes "t \<le> t'" "\<not> unlimited lmt"
  shows "balance lmt t' ob \<le> balance lmt t ob + per_second lmt * seconds (t' - t)"
proof (cases ob)
  case None
  have "0 \<le> per_second lmt * seconds (t' - t)"
    using assms rate_pos [of lmt] by (simp add: seconds_def)
  with None show ?thesis
    by (simp add: balance_def rated_def refill_def Let_def fresh_bucket_def)
next
  case (Some b)
  have "rated lmt t' ob = rated lmt t ob" by (simp add: Some rated_def)
  with refill_grows [of t t' "rated lmt t ob"] assms rate_pos [of lmt] show ?thesis
    by (simp add: balance_def)
qed

lemma refill_twice [simp]: "refill now (refill now b) = refill now b"
  by (auto simp: refill_def Let_def)

lemma refill_tokens [simp]:
  "b_tokens (refill now (b\<lparr>b_tokens := x\<rparr>)) = x" if "b_refilled b \<ge> now"
  using that by (simp add: refill_def Let_def)

lemma refill_refilled: "b_refilled (refill now b) \<ge> now"
  by (auto simp: refill_def Let_def)

lemma balance_spent:
  "balance lmt now (Some ((refill now (rated lmt now ob))\<lparr>b_tokens := x\<rparr>)) = x"
  using refill_refilled [of now "rated lmt now ob"] by (simp add: balance_def rated_same)

lemma balance_refilled:
  "balance lmt now (Some (refill now (rated lmt now ob))) = balance lmt now ob"
  by (simp add: balance_def rated_same)

section \<open>Charging all buckets or none\<close>

definition covers :: "int \<Rightarrow> time \<Rightarrow> (string \<Rightarrow> bucket option) \<Rightarrow> request \<Rightarrow> bool" where
  "covers cost now m r \<longleftrightarrow>
     of_int cost > limit_capacity (q_limit r) \<or> of_int cost \<le> balance (q_limit r) now (m (q_key r))"

definition after_charge :: "int \<Rightarrow> time \<Rightarrow> (string \<Rightarrow> bucket option) \<Rightarrow> request \<Rightarrow> rat" where
  "after_charge cost now m r =
     (if of_int cost > limit_capacity (q_limit r) then 0
      else balance (q_limit r) now (m (q_key r)) - of_int cost)"

lemma assess_allowed:
  "ch_allowed (fst (assess cost now (rated (q_limit r) now (m (q_key r))))) = covers cost now m r"
  by (simp add: assess_def Let_def covers_def balance_def not_le)

lemma assess_applied:
  fixes cost :: int and now :: time and m :: buckets
  assumes "covers cost now m r"
  defines "b \<equiv> rated (q_limit r) now (m (q_key r))"
  shows "apply_charge (fst (assess cost now b)) (refill now b) =
    (refill now b)\<lparr>b_tokens := after_charge cost now m r\<rparr>"
  using assms(1) unfolding b_def
  by (auto simp: assess_def Let_def covers_def balance_def apply_charge_def after_charge_def not_le)

lemma active_same_key:
  "distinct (active_keys reqs) \<Longrightarrow> r \<in> set (active reqs) \<Longrightarrow> r' \<in> set (active reqs) \<Longrightarrow>
   q_key r = q_key r' \<Longrightarrow> r = r'"
  unfolding active_keys_def by (rule same_id_same_row)

lemma abs_allow_all_effect:
  fixes cost :: int and now :: time and m :: buckets
  assumes "distinct (active_keys reqs)"
  defines "c \<equiv> norm_cost cost" and "granted \<equiv> \<forall>r \<in> set (active reqs). covers (norm_cost cost) now m r"
  shows "fst (abs_allow_all now reqs cost m) = granted"
    and "\<And>r. r \<in> set (active reqs) \<Longrightarrow> snd (abs_allow_all now reqs cost m) (q_key r) =
      Some (if granted
            then (refill now (rated (q_limit r) now (m (q_key r))))\<lparr>b_tokens := after_charge c now m r\<rparr>
            else refill now (rated (q_limit r) now (m (q_key r))))"
    and "\<And>k. k \<notin> set (active_keys reqs) \<Longrightarrow> snd (abs_allow_all now reqs cost m) k = m k"
proof -
  obtain qs m1 where as: "abs_assess_all now c reqs m = (qs, m1)" by force
  note at = abs_assess_all_at [OF assms(1) as]
  have g: "granted = (\<not> list_ex (\<lambda>(k, d). \<not> ch_allowed d) qs)"
    unfolding at(1) granted_def c_def by (auto simp: list_ex_iff assess_allowed)
  have res: "abs_allow_all now reqs cost m = (if granted then (True, abs_apply_all qs m1) else (False, m1))"
    using as g by (simp add: abs_allow_all_def c_def)
  have dist: "distinct (map fst qs)"
    using assms(1) by (simp add: at(1) active_keys_def comp_def)
  show "fst (abs_allow_all now reqs cost m) = granted" by (simp add: res)
  show "snd (abs_allow_all now reqs cost m) (q_key r) =
      Some (if granted
            then (refill now (rated (q_limit r) now (m (q_key r))))\<lparr>b_tokens := after_charge c now m r\<rparr>
            else refill now (rated (q_limit r) now (m (q_key r))))" if r: "r \<in> set (active reqs)" for r
  proof (cases granted)
    case True
    have "(q_key r, fst (assess c now (rated (q_limit r) now (m (q_key r))))) \<in> set qs"
      using r by (auto simp: at(1))
    from abs_apply_all_at(1) [OF dist this, of m1] at(2) [OF r] True r assess_applied [of c now m r]
    show ?thesis by (auto simp: res granted_def c_def)
  qed (use at(2) [OF r] in \<open>simp add: res\<close>)
  show "snd (abs_allow_all now reqs cost m) k = m k" if "k \<notin> set (active_keys reqs)" for k
    using that at(3) abs_apply_all_at(2) [OF dist, of k m1]
    by (auto simp: res at(1) active_keys_def image_iff)
qed

text \<open>
  C27. Every bucket pays or none does. \<open>AllowAll\<close> admits a send exactly when each bucket it names
  covers the cost, or is too small ever to hold it. An admitted send costs each of them the cost; a
  refused one leaves what each may spend as it was; and no other bucket changes in either case.
\<close>

theorem allow_all_atomic:
  assumes "wf_limiter l" "room l (set (active_keys reqs))" "distinct (active_keys reqs)"
    "allow_all order now reqs cost l = ((ok, retry), l')"
  shows "ok = (\<forall>r \<in> set (active reqs). covers (norm_cost cost) now (view l) r) \<and>
    (\<forall>r \<in> set (active reqs).
       balance (q_limit r) now (view l' (q_key r)) =
         (if ok then after_charge (norm_cost cost) now (view l) r
          else balance (q_limit r) now (view l (q_key r)))) \<and>
    (\<forall>k. k \<notin> set (active_keys reqs) \<longrightarrow> view l' k = view l k)"
proof -
  note ref = allow_all_refines_abs [OF assms(1,2), of order now cost]
  note eff = abs_allow_all_effect [OF assms(3), where now = now and cost = cost and m = "view l"]
  from ref(1) eff(1) assms(4) have ok: "ok = (\<forall>r \<in> set (active reqs). covers (norm_cost cost) now (view l) r)"
    by simp
  moreover have "balance (q_limit r) now (view l' (q_key r)) =
      (if ok then after_charge (norm_cost cost) now (view l) r
       else balance (q_limit r) now (view l (q_key r)))" if "r \<in> set (active reqs)" for r
    using eff(2) [OF that] ref(2) assms(4) ok by (simp add: balance_spent balance_refilled)
  moreover have "view l' k = view l k" if "k \<notin> set (active_keys reqs)" for k
    using eff(3) [OF that] ref(2) assms(4) by simp
  ultimately show ?thesis by blast
qed

section \<open>Reservations on the map of buckets\<close>

lemma reserve_one_bucket:
  "snd (reserve_one cost now (rated (q_limit q) now (m (q_key q)))) =
     (refill now (rated (q_limit q) now (m (q_key q))))\<lparr>b_tokens := after_charge cost now m q\<rparr>"
  by (auto simp: reserve_one_def Let_def after_charge_def balance_def)

definition wait_for :: "int \<Rightarrow> time \<Rightarrow> (string \<Rightarrow> bucket option) \<Rightarrow> request \<Rightarrow> duration" where
  "wait_for cost now m q = snd (fst (reserve_one cost now (rated (q_limit q) now (m (q_key q)))))"

lemma abs_reserve_at:
  assumes "distinct (active_keys reqs)" "abs_reserve now cost reqs (r, m) = (r', m')"
  shows "(\<forall>q \<in> set (active reqs). m' (q_key q) =
      Some ((refill now (rated (q_limit q) now (m (q_key q))))\<lparr>b_tokens := after_charge cost now m q\<rparr>)) \<and>
    (\<forall>k. k \<notin> set (active_keys reqs) \<longrightarrow> m' k = m k) \<and>
    (\<forall>q \<in> set (active reqs). wait_for cost now m q \<le> rs_delay r') \<and> rs_delay r \<le> rs_delay r'"
  using assms
proof (induction reqs arbitrary: r m)
  case (Cons q qs)
  show ?case
  proof (cases "skipped q")
    case False
    let ?b = "rated (q_limit q) now (m (q_key q))"
    let ?b' = "(refill now ?b)\<lparr>b_tokens := after_charge cost now m q\<rparr>"
    obtain restore where one: "reserve_one cost now ?b = ((restore, wait_for cost now m q), ?b')"
      using reserve_one_bucket [of cost now q m] by (metis prod.collapse wait_for_def)
    let ?r = "r\<lparr>rs_held := rs_held r @ [(q_key q, restore)],
      rs_delay := (if wait_for cost now m q > rs_delay r then wait_for cost now m q else rs_delay r)\<rparr>"
    define m1 where "m1 = m(q_key q \<mapsto> ?b')"
    have rec: "abs_reserve now cost qs (?r, m1) = (r', m')"
      using Cons.prems(2) False one by (simp add: m1_def)
    have new: "q_key q \<notin> set (active_keys qs)" "distinct (active_keys qs)" using Cons.prems(1) False by simp_all
    have at: "m1 (q_key x) = m (q_key x)" if "x \<in> set (active qs)" for x
      using new(1) that by (auto simp: active_keys_def image_iff m1_def)
    then have same: "after_charge cost now m1 x = after_charge cost now m x"
      "wait_for cost now m1 x = wait_for cost now m x" if "x \<in> set (active qs)" for x
      using that by (simp_all add: after_charge_def wait_for_def)
    have act: "active (q # qs) = q # active qs" using False by (simp add: active_def)
    note IH = Cons.IH [OF new(2) rec]
    from IH new(1) have "m' (q_key q) = Some ?b'" by (simp add: m1_def)
    moreover from IH have "wait_for cost now m q \<le> rs_delay r'" "rs_delay r \<le> rs_delay r'"
      by (auto split: if_splits)
    moreover have "m1 k = m k" if "k \<noteq> q_key q" for k using that by (simp add: m1_def)
    ultimately show ?thesis using IH same at False unfolding act by simp
  qed (use Cons in \<open>auto simp: active_def\<close>)
qed (simp add: active_def)

lemma to_duration_nonneg: "0 \<le> x \<Longrightarrow> to_duration x = \<lfloor>x * of_int second\<rfloor>"
  by (simp add: to_duration_def Let_def)

lemma to_duration_bound: "0 \<le> x \<Longrightarrow> x < seconds (to_duration x + 1)"
proof -
  assume "0 \<le> x"
  then have "x * of_int second < of_int (to_duration x + 1)"
    by (simp add: to_duration_nonneg) linarith
  then show ?thesis by (simp add: seconds_def field_simps)
qed

lemma wait_covers_debt:
  assumes "\<not> unlimited (q_limit q)"
  shows "- after_charge cost now m q \<le> per_second (q_limit q) * seconds (wait_for cost now m q + 1)"
proof -
  let ?r = "per_second (q_limit q)" and ?x = "after_charge cost now m q"
  have r: "0 < ?r" using rate_pos assms by blast
  show ?thesis
  proof (cases "?x < 0")
    case True
    then have big: "\<not> of_int cost > limit_capacity (q_limit q)" by (auto simp: after_charge_def)
    have "wait_for cost now m q = to_duration (- ?x / ?r)"
      using True big by (simp add: wait_for_def reserve_one_def Let_def after_charge_def balance_def)
    moreover have "0 \<le> - ?x / ?r" using True r by (simp add: divide_nonpos_pos)
    ultimately have "- ?x / ?r < seconds (wait_for cost now m q + 1)"
      using to_duration_bound by simp
    with r show ?thesis by (simp add: field_simps)
  next
    case False
    have "0 \<le> wait_for cost now m q"
      unfolding wait_for_def reserve_one_def Let_def
      using r by (auto simp: to_duration_def Let_def zero_less_mult_iff divide_less_0_iff not_less)
    then have "0 \<le> ?r * seconds (wait_for cost now m q + 1)"
      using r by (simp add: seconds_def)
    with False show ?thesis by linarith
  qed
qed

section \<open>The state of the limiter stays sound and bounded\<close>

definition good_bucket :: "bucket \<Rightarrow> bool" where
  "good_bucket b \<longleftrightarrow> b_tokens b \<le> b_capacity b \<and> 0 < b_capacity b \<and> 0 < b_per_sec b"

definition good_limiter :: "limiter \<Rightarrow> bool" where
  "good_limiter l \<longleftrightarrow>
     wf_limiter l \<and> list_all good_bucket (lm_heap l) \<and>
     0 < lm_max_buckets l \<and> tracked l \<le> lm_max_buckets l"

datatype limiter_op =
    OpAllow time string limit int
  | OpAllowAll time "request list" int
  | OpReserve time "request list" int
  | OpCancel reservation
  | OpForget string

primrec limiter_step ::
  "((string \<times> nat) list \<Rightarrow> (string \<times> nat) list) \<Rightarrow> limiter_op \<Rightarrow> limiter \<Rightarrow> limiter" where
  "limiter_step order (OpAllow now key lmt cost) l = snd (allow order now key lmt cost l)"
| "limiter_step order (OpAllowAll now reqs cost) l = snd (allow_all order now reqs cost l)"
| "limiter_step order (OpReserve now reqs cost) l = snd (reserve_all order now reqs cost l)"
| "limiter_step order (OpCancel r) l = snd (cancel r l)"
| "limiter_step order (OpForget key) l = forget key l"

lemma pick_oldest_mem: "fst (pick_oldest seen bs acc) \<in> insert (fst acc) (fst ` set bs)"
  by (induction seen bs acc rule: pick_oldest.induct) (force split: if_splits)+

lemma pick_oldest_key: "bs \<noteq> [] \<Longrightarrow> fst (pick_oldest seen bs ([], t)) \<in> fst ` set bs"
proof (cases bs)
  case (Cons b bs')
  obtain k a where b: "b = (k, a)" by force
  show ?thesis using pick_oldest_mem [of seen bs' "(k, seen a)"] by (simp add: Cons b)
qed simp

lemma wf_kept:
  "wf_limiter l \<Longrightarrow> wf_limiter (l\<lparr>lm_buckets := filter P (lm_buckets l)\<rparr>)"
  by (auto simp: wf_limiter_def distinct_map_filter)

lemma wf_forget:
  "wf_limiter l \<Longrightarrow> wf_limiter (l\<lparr>lm_buckets := AList.delete k (lm_buckets l)\<rparr>)"
  unfolding AList.delete_eq by (rule wf_kept)

lemma evict_good:
  assumes "good_limiter l" "\<And>bs. set (order bs) = set bs"
  shows "wf_limiter (evict_if_needed order now l)"
    "lm_heap (evict_if_needed order now l) = lm_heap l"
    "lm_max_buckets (evict_if_needed order now l) = lm_max_buckets l"
    "tracked (evict_if_needed order now l) < lm_max_buckets l"
proof -
  let ?kept = "filter (\<lambda>(k, a). \<not> now - b_seen (bucket_at l a) > lm_idle_ttl l) (lm_buckets l)"
  let ?old = "fst (pick_oldest (\<lambda>a. b_seen (bucket_at l a)) (order ?kept) ([], zero_time))"
  have wf: "wf_limiter (l\<lparr>lm_buckets := ?kept\<rparr>)" using assms(1) wf_kept by (auto simp: good_limiter_def)
  have len: "length (AList.delete ?old ?kept) < lm_max_buckets l" if "\<not> length ?kept < lm_max_buckets l"
  proof -
    have ne: "?kept \<noteq> []" using that assms(1) by (auto simp: good_limiter_def)
    then have "order ?kept \<noteq> []" using assms(2) by (metis set_empty)
    then have "?old \<in> fst ` set ?kept" using pick_oldest_key assms(2) by metis
    then have "length (AList.delete ?old ?kept) < length ?kept"
      using length_delete_mem [of ?kept ?old] wf by (simp add: wf_limiter_def)
    moreover have "length ?kept \<le> lm_max_buckets l"
      using length_filter_le [of _ "lm_buckets l"] assms(1) by (metis good_limiter_def le_trans tracked_def)
    ultimately show ?thesis by linarith
  qed
  show "wf_limiter (evict_if_needed order now l)"
    using assms(1) wf wf_forget [OF wf] by (auto simp: evict_if_needed_def Let_def good_limiter_def)
  show "lm_heap (evict_if_needed order now l) = lm_heap l"
    "lm_max_buckets (evict_if_needed order now l) = lm_max_buckets l"
    by (simp_all add: evict_if_needed_def Let_def)
  show "tracked (evict_if_needed order now l) < lm_max_buckets l"
    using len by (simp add: evict_if_needed_def Let_def tracked_def)
qed

lemma good_put:
  assumes "good_limiter l" "\<And>b. good_bucket b \<Longrightarrow> good_bucket (f b)"
  shows "good_limiter (put_bucket a (f (bucket_at l a)) l)"
proof (cases "a < length (lm_heap l)")
  case True
  then have "good_bucket (f (bucket_at l a))"
    using assms by (auto simp: good_limiter_def list_all_length bucket_at_def)
  then have "list_all good_bucket (lm_heap (put_bucket a (f (bucket_at l a)) l))"
    using assms(1) set_update_subset_insert
    by (fastforce simp: good_limiter_def put_bucket_def list_all_iff)
  with assms(1) show ?thesis by (simp add: good_limiter_def tracked_def)
next
  case False
  then have "put_bucket a (f (bucket_at l a)) l = l" by (simp add: put_bucket_def list_update_beyond)
  with assms(1) show ?thesis by simp
qed

lemma good_rerate: "\<not> unlimited lmt \<Longrightarrow> good_bucket b \<Longrightarrow> good_bucket (rerate lmt b)"
  using capacity_pos rate_pos by (auto simp: good_bucket_def rerate_def min_float_def)

lemma good_fresh: "\<not> unlimited lmt \<Longrightarrow> good_bucket (fresh_bucket lmt now)"
  using capacity_pos rate_pos by (simp add: good_bucket_def fresh_bucket_def)

lemma good_refill: "good_bucket b \<Longrightarrow> good_bucket (refill now b)"
  by (auto simp: good_bucket_def refill_def Let_def min_float_def)

lemma good_apply: "0 \<le> ch_spend d \<Longrightarrow> good_bucket b \<Longrightarrow> good_bucket (apply_charge d b)"
  by (simp add: good_bucket_def apply_charge_def)

lemma spend_nonneg: "0 \<le> cost \<Longrightarrow> 0 \<le> ch_spend (fst (assess cost now b))"
  by (simp add: assess_def Let_def)

lemma good_reserve: "0 \<le> cost \<Longrightarrow> good_bucket b \<Longrightarrow> good_bucket (snd (reserve_one cost now b))"
  using good_refill [of b now] by (auto simp: reserve_one_def Let_def good_bucket_def)

lemma good_bucket_for:
  assumes "good_limiter l" "\<And>bs. set (order bs) = set bs" "\<not> unlimited lmt"
  shows "good_limiter (snd (bucket_for order k lmt now l))"
proof (cases "map_of (lm_buckets l) k")
  case None
  let ?l = "evict_if_needed order now l"
  note ev = evict_good [OF assms(1,2), of now]
  have absent: "map_of (lm_buckets ?l) k = None"
  proof -
    have "fst ` set (lm_buckets ?l) \<subseteq> fst ` set (lm_buckets l)"
      by (auto simp: evict_if_needed_def Let_def AList.delete_eq)
    with None show ?thesis by (auto simp: map_of_eq_None_iff)
  qed
  then have fresh: "k \<notin> fst ` set (lm_buckets ?l)" by (simp add: map_of_eq_None_iff)
  have below: "\<forall>(k, a) \<in> set (lm_buckets ?l). a < length (lm_heap ?l)" using ev(1) by (simp add: wf_limiter_def)
  show ?thesis
    using None assms(1,3) ev below fresh good_fresh [of lmt now]
    by (auto simp: bucket_for_def Let_def good_limiter_def wf_limiter_def tracked_def update_new [OF fresh]
        less_SucI)
next
  case (Some a)
  then show ?thesis
    using assms(1,3) good_put [of l "rerate lmt" a] good_rerate by (simp add: bucket_for_def)
qed

lemma good_assess_all:
  assumes "good_limiter l" "\<And>bs. set (order bs) = set bs" "0 \<le> cost" "assess_all order now cost reqs l = (ps, l')"
  shows "good_limiter l' \<and> list_all (\<lambda>(a, d). 0 \<le> ch_spend d) ps"
  using assms(1,4)
proof (induction reqs arbitrary: l ps)
  case (Cons r rs)
  show ?case
  proof (cases "skipped r")
    case False
    obtain a l1 where bf: "bucket_for order (q_key r) (q_limit r) now l = (a, l1)" by force
    obtain d b where as: "assess cost now (bucket_at l1 a) = (d, b)" by force
    have "b = refill now (bucket_at l1 a)" using assess_bucket [of cost now "bucket_at l1 a"] as by simp
    moreover have "good_limiter l1"
      using good_bucket_for [OF Cons.prems(1) assms(2), of "q_limit r" "q_key r" now] bf False
      by (simp add: skipped_def)
    ultimately have "good_limiter (put_bucket a b l1)"
      using good_put [of l1 "refill now" a] good_refill by simp
    moreover have "0 \<le> ch_spend d" using spend_nonneg [OF assms(3), of now "bucket_at l1 a"] as by simp
    moreover obtain ps' where "assess_all order now cost rs (put_bucket a b l1) = (ps', l')" "ps = (a, d) # ps'"
      using Cons.prems(2) False bf as by (auto split: prod.splits)
    ultimately show ?thesis using Cons.IH by simp
  qed (use Cons in simp)
qed simp

lemma good_apply_all:
  "good_limiter l \<Longrightarrow> list_all (\<lambda>(a, d). 0 \<le> ch_spend d) ps \<Longrightarrow> good_limiter (apply_all ps l)"
proof (induction ps arbitrary: l)
  case (Cons p ps)
  obtain a d where p: "p = (a, d)" by force
  have "good_limiter (put_bucket a (apply_charge d (bucket_at l a)) l)"
    using Cons.prems good_apply by (intro good_put) (auto simp: p)
  with Cons.IH Cons.prems show ?case by (simp add: apply_all_def p)
qed (simp add: apply_all_def)

lemma good_reserve_loop:
  assumes "good_limiter l" "\<And>bs. set (order bs) = set bs" "0 \<le> cost"
  shows "good_limiter (snd (reserve_loop order now cost reqs (r, l)))"
  using assms(1)
proof (induction reqs arbitrary: l r)
  case (Cons q qs)
  show ?case
  proof (cases "skipped q")
    case False
    obtain a l1 where bf: "bucket_for order (q_key q) (q_limit q) now l = (a, l1)" by force
    have "good_limiter l1"
      using good_bucket_for [OF Cons.prems(1) assms(2), of "q_limit q" "q_key q" now] bf False
      by (simp add: skipped_def)
    then have "good_limiter (put_bucket a (snd (reserve_one cost now (bucket_at l1 a))) l1)"
      using good_put [of l1 "\<lambda>b. snd (reserve_one cost now b)" a] good_reserve [OF assms(3)] by simp
    moreover obtain restore wait b where "reserve_one cost now (bucket_at l1 a) = ((restore, wait), b)"
      by (metis surj_pair)
    ultimately show ?thesis using Cons.IH False bf by simp
  qed (use Cons in simp)
qed simp

lemma good_restore:
  assumes "good_limiter l"
  shows "good_limiter (restore_one h l)"
proof (cases "map_of (lm_buckets l) (fst h)")
  case (Some a)
  let ?f = "\<lambda>b. b\<lparr>b_tokens := min_float (b_capacity b) (b_tokens b + snd h)\<rparr>"
  have "good_limiter (put_bucket a (?f (bucket_at l a)) l)"
    using assms by (rule good_put) (auto simp: good_bucket_def min_float_def)
  with Some show ?thesis by (simp add: restore_one_def Let_def)
qed (simp add: restore_one_def assms)

lemma good_restores: "good_limiter l \<Longrightarrow> good_limiter (fold restore_one hs l)"
  by (induction hs arbitrary: l) (simp_all add: good_restore)

lemma good_forget: "good_limiter l \<Longrightarrow> good_limiter (forget key l)"
  using wf_forget [of l key] length_delete_le [of key "lm_buckets l"]
  by (auto simp: good_limiter_def forget_def tracked_def)

lemma good_step:
  assumes "good_limiter l" "\<And>bs. set (order bs) = set bs"
  shows "good_limiter (limiter_step order op l)"
proof (cases op)
  case (OpAllow now key lmt cost)
  obtain a l1 where bf: "bucket_for order key lmt now l = (a, l1)" by force
  let ?f = "\<lambda>b. apply_charge (fst (assess (norm_cost cost) now b)) (refill now b)"
  have "good_limiter (put_bucket a (?f (bucket_at l1 a)) l1)" if "\<not> unlimited lmt"
  proof (rule good_put)
    show "good_limiter l1" using good_bucket_for [OF assms that, of key now] bf by simp
    show "good_bucket (?f b)" if "good_bucket b" for b
      using that by (intro good_apply spend_nonneg good_refill) (simp_all add: norm_cost_def)
  qed
  moreover obtain d where "assess (norm_cost cost) now (bucket_at l1 a) = (d, refill now (bucket_at l1 a))"
    using assess_bucket [of "norm_cost cost" now "bucket_at l1 a"] by (metis prod.collapse)
  ultimately show ?thesis using OpAllow bf assms(1) by (simp add: allow_def)
next
  case (OpAllowAll now reqs cost)
  obtain ps l1 where as: "assess_all order now (norm_cost cost) reqs l = (ps, l1)" by force
  have "good_limiter l1 \<and> list_all (\<lambda>(a, d). 0 \<le> ch_spend d) ps"
    by (rule good_assess_all [OF assms _ as]) (simp add: norm_cost_def)
  with OpAllowAll as good_apply_all show ?thesis by (simp add: allow_all_def)
next
  case (OpReserve now reqs cost)
  with good_reserve_loop [OF assms, of "norm_cost cost"] show ?thesis
    by (simp add: reserve_all_def norm_cost_def)
qed (simp_all add: cancel_def good_restores good_forget assms)

text \<open>
  The order of iteration is part of the operation: every call may see another one.
\<close>

definition fair_order :: "((string \<times> nat) list \<Rightarrow> (string \<times> nat) list) \<Rightarrow> bool" where
  "fair_order order \<longleftrightarrow> (\<forall>bs. set (order bs) = set bs)"

interpretation limiter_state: invariant_steps
  "\<lambda>(order, op). limiter_step order op" "\<lambda>(order, op). fair_order order" good_limiter
  by unfold_locales (auto simp: fair_order_def good_step)

text \<open>
  C37. The limiter stays sound and bounded. After any sequence of calls, whatever the order in which
  the map is iterated, it tracks no more keys than its maximum, distinct keys have distinct buckets,
  and no bucket holds more tokens than its capacity.
\<close>

theorem limiter_bounded:
  assumes "good_limiter l" "list_all (\<lambda>(order, op). fair_order order) calls"
  shows "good_limiter (run (\<lambda>(order, op). limiter_step order op) calls l) \<and>
    tracked (run (\<lambda>(order, op). limiter_step order op) calls l)
      \<le> lm_max_buckets (run (\<lambda>(order, op). limiter_step order op) calls l)"
  using limiter_state.run_inv [OF assms(2,1)] by (simp add: good_limiter_def)

theorem limiter_bounded_witness:
  "good_limiter (run (\<lambda>(order, op). limiter_step order op)
     [(rev, OpAllow 5 ''t1'' \<lparr>l_per_minute = 60, l_burst = 2\<rparr> 1), (\<lambda>bs. bs, OpForget ''t1'')] new_limiter)"
proof -
  have h: "good_limiter new_limiter" by (simp add: good_limiter_def new_limiter_def wf_limiter_def tracked_def)
  have f: "list_all (\<lambda>(order, op). fair_order order)
     [(rev, OpAllow 5 ''t1'' \<lparr>l_per_minute = 60, l_burst = 2\<rparr> 1), (\<lambda>bs. bs, OpForget ''t1'')]"
    by (simp add: fair_order_def)
  show ?thesis using limiter_bounded [OF h f] by blast
qed

definition sample_limit :: limit where
  "sample_limit = \<lparr>l_per_minute = 60, l_burst = 2\<rparr>"

definition sample_requests :: "request list" where
  "sample_requests = [\<lparr>q_key = ''t1'', q_limit = sample_limit\<rparr>, \<lparr>q_key = ''t1/p1'', q_limit = sample_limit\<rparr>]"

lemma sample_limit_values:
  "\<not> unlimited sample_limit" "limit_capacity sample_limit = 2" "per_second sample_limit = 1"
  by (simp_all add: sample_limit_def unlimited_def limit_capacity_def per_second_def)

lemma sample_requests_active:
  "active sample_requests = sample_requests" "active_keys sample_requests = [''t1'', ''t1/p1'']"
  by (simp_all add: sample_requests_def active_def active_keys_def skipped_def sample_limit_values)

lemma new_limiter_view:
  "wf_limiter new_limiter" "view new_limiter = (\<lambda>_. None)" "keys_of new_limiter = {}"
  by (simp_all add: new_limiter_def wf_limiter_def view_def keys_of_def fun_eq_iff)

lemma balance_new: "balance lmt now None = limit_capacity lmt"
  by (simp add: balance_def rated_def refill_def Let_def fresh_bucket_def)

theorem allow_all_atomic_witness:
  "fst (fst (allow_all (\<lambda>bs. bs) 7 sample_requests 1 new_limiter)) \<and>
   balance sample_limit 7 (view (snd (allow_all (\<lambda>bs. bs) 7 sample_requests 1 new_limiter)) ''t1/p1'') = 1"
proof -
  let ?res = "allow_all (\<lambda>bs. bs) 7 sample_requests 1 new_limiter"
  have h: "room new_limiter (set (active_keys sample_requests))" "distinct (active_keys sample_requests)"
    by (simp_all add: room_def sample_requests_active new_limiter_view) (simp add: new_limiter_def)
  have eq: "?res = ((fst (fst ?res), snd (fst ?res)), snd ?res)" by simp
  have n: "norm_cost 1 = 1" by (simp add: norm_cost_def)
  from allow_all_atomic [OF new_limiter_view(1) h eq] show ?thesis
    unfolding n sample_requests_active new_limiter_view
    by (simp add: sample_requests_def covers_def after_charge_def balance_new sample_limit_values)
qed

end
