(* ===== verification/Rate_Pace.thy ===== *)
theory Rate_Pace
  imports Rate_Limiter
begin

text \<open>
  What the limiter of \<open>internal/ratelimit/limiter.go\<close> promises over time: the amount sent on a key in
  a window, the accuracy of the wait it advertises, and that a cancelled reservation is undone.
\<close>

section \<open>The pace of a key\<close>

text \<open>
  A run of charges and reservations by any callers. A send leaves at once when \<open>AllowAll\<close> admits it,
  and after its delay when it was reserved.
\<close>

datatype pace_op = PAllow time "request list" int | PReserve time "request list" int

fun op_time :: "pace_op \<Rightarrow> time" where
  "op_time (PAllow now reqs cost) = now"
| "op_time (PReserve now reqs cost) = now"

fun op_requests :: "pace_op \<Rightarrow> request list" where
  "op_requests (PAllow now reqs cost) = reqs"
| "op_requests (PReserve now reqs cost) = reqs"

fun op_cost :: "pace_op \<Rightarrow> int" where
  "op_cost (PAllow now reqs cost) = norm_cost cost"
| "op_cost (PReserve now reqs cost) = norm_cost cost"

fun pace_step ::
  "((string \<times> nat) list \<Rightarrow> (string \<times> nat) list) \<Rightarrow> pace_op \<Rightarrow> limiter \<Rightarrow> limiter" where
  "pace_step order (PAllow now reqs cost) l = snd (allow_all order now reqs cost l)"
| "pace_step order (PReserve now reqs cost) l = snd (reserve_all order now reqs cost l)"

fun send_time ::
  "((string \<times> nat) list \<Rightarrow> (string \<times> nat) list) \<Rightarrow> pace_op \<Rightarrow> limiter \<Rightarrow> time option" where
  "send_time order (PAllow now reqs cost) l =
     (if fst (fst (allow_all order now reqs cost l)) then Some now else None)"
| "send_time order (PReserve now reqs cost) l =
     Some (now + rs_delay (fst (reserve_all order now reqs cost l)))"

definition sent_by ::
  "((string \<times> nat) list \<Rightarrow> (string \<times> nat) list) \<Rightarrow> string \<Rightarrow> time \<Rightarrow> pace_op \<times> limiter \<Rightarrow> int" where
  "sent_by order k T p =
     (case send_time order (fst p) (snd p) of
        None \<Rightarrow> 0
      | Some t \<Rightarrow> if t \<le> T \<and> k \<in> set (active_keys (op_requests (fst p))) then op_cost (fst p) else 0)"

definition paced_op :: "string \<Rightarrow> limit \<Rightarrow> pace_op \<Rightarrow> bool" where
  "paced_op k lmt op \<longleftrightarrow>
     distinct (active_keys (op_requests op)) \<and>
     list_all (\<lambda>r. q_key r = k \<longrightarrow> q_limit r = lmt \<and> of_int (op_cost op) \<le> limit_capacity lmt)
       (active (op_requests op))"

lemma norm_cost_pos [simp]: "0 < norm_cost cost" "0 \<le> norm_cost cost"
  by (simp_all add: norm_cost_def)

text \<open>
  One operation at its own time: it never adds to what the key may spend, and when it grants a send
  it takes the cost, leaving a debt no larger than the rate repays before the send leaves.
\<close>

definition charges_key ::
  "string \<Rightarrow> limit \<Rightarrow> time \<Rightarrow> int \<Rightarrow> string set \<Rightarrow> limiter \<Rightarrow> limiter \<Rightarrow> time option \<Rightarrow> bool" where
  "charges_key k lmt now c ks l l' st \<longleftrightarrow>
     wf_limiter l' \<and> keys_of l' = keys_of l \<union> ks \<and> lm_max_buckets l' = lm_max_buckets l \<and>
     balance lmt now (view l' k) \<le> balance lmt now (view l k) \<and>
     (\<forall>t. st = Some t \<and> k \<in> ks \<longrightarrow>
        balance lmt now (view l' k) = balance lmt now (view l k) - of_int c \<and>
        - balance lmt now (view l' k) \<le> per_second lmt * seconds (t - now + 1))"

lemma key_request:
  assumes "k \<in> set (active_keys reqs)"
  obtains r where "r \<in> set (active reqs)" "q_key r = k"
  using assms by (auto simp: active_keys_def)

lemma paced_after:
  assumes "paced_op k lmt op" "r \<in> set (active (op_requests op))" "q_key r = k"
  shows "after_charge (op_cost op) now m r = balance lmt now (m k) - of_int (op_cost op)" "q_limit r = lmt"
    "covers (op_cost op) now m r \<longleftrightarrow> of_int (op_cost op) \<le> balance lmt now (m k)"
  using assms by (auto simp: paced_op_def list_all_iff after_charge_def covers_def)

lemma allow_charges_key:
  assumes "wf_limiter l" "room l (set (active_keys reqs))" "paced_op k lmt (PAllow now reqs cost)"
    "\<not> unlimited lmt"
  shows "charges_key k lmt now (norm_cost cost) (set (active_keys reqs)) l
    (snd (allow_all order now reqs cost l)) (send_time order (PAllow now reqs cost) l)"
proof -
  let ?l = "snd (allow_all order now reqs cost l)" and ?c = "norm_cost cost"
  have dist: "distinct (active_keys reqs)" using assms(3) by (simp add: paced_op_def)
  note ref = allow_all_refines_abs [OF assms(1,2), of order now cost]
  note eff = abs_allow_all_effect [OF dist, where now = now and cost = cost and m = "view l"]
  have at_key: "balance lmt now (view ?l k) =
      (if fst (fst (allow_all order now reqs cost l)) then balance lmt now (view l k) - of_int ?c
       else balance lmt now (view l k)) \<and>
      (fst (fst (allow_all order now reqs cost l)) \<longrightarrow> of_int ?c \<le> balance lmt now (view l k))"
    if k: "k \<in> set (active_keys reqs)"
  proof -
    from k obtain r where r: "r \<in> set (active reqs)" "q_key r = k" by (rule key_request)
    note pa = paced_after [OF assms(3), of r, simplified, OF r]
    show ?thesis
      using eff(1) eff(2) [OF r(1)] r ref(1,2) pa
      by (auto simp: balance_spent balance_refilled)
  qed
  have other: "view ?l k = view l k" if "k \<notin> set (active_keys reqs)"
    using eff(3) [OF that] ref(2) by simp
  have pos: "0 \<le> per_second lmt * seconds 1"
    using rate_pos [OF assms(4)] by (simp add: seconds_def)
  have "balance lmt now (view ?l k) \<le> balance lmt now (view l k)"
    using at_key other by (cases "k \<in> set (active_keys reqs)") auto
  with at_key ref(3) keys_allow_all [OF assms(1,2), of order now cost] pos show ?thesis
    by (auto simp: charges_key_def split: if_splits)
qed

lemma reserve_charges_key:
  assumes "wf_limiter l" "room l (set (active_keys reqs))" "paced_op k lmt (PReserve now reqs cost)"
    "\<not> unlimited lmt"
  shows "charges_key k lmt now (norm_cost cost) (set (active_keys reqs)) l
    (snd (reserve_all order now reqs cost l)) (send_time order (PReserve now reqs cost) l)"
proof -
  let ?c = "norm_cost cost"
  obtain r' l' where res: "reserve_all order now reqs cost l = (r', l')" by force
  have dist: "distinct (active_keys reqs)" using assms(3) by (simp add: paced_op_def)
  note ref = reserve_refines [OF assms(1,2) res [unfolded reserve_all_def]]
  note eff = abs_reserve_at [OF dist, of now ?c _ "view l" r' "view l'"]
  have at: "(\<forall>q \<in> set (active reqs). view l' (q_key q) =
      Some ((refill now (rated (q_limit q) now (view l (q_key q))))\<lparr>b_tokens := after_charge ?c now (view l) q\<rparr>)) \<and>
    (\<forall>k. k \<notin> set (active_keys reqs) \<longrightarrow> view l' k = view l k) \<and>
    (\<forall>q \<in> set (active reqs). wait_for ?c now (view l) q \<le> rs_delay r')"
    using ref eff by blast
  have at_key: "balance lmt now (view l' k) = balance lmt now (view l k) - of_int ?c \<and>
      - balance lmt now (view l' k) \<le> per_second lmt * seconds (rs_delay r' + 1)"
    if k: "k \<in> set (active_keys reqs)"
  proof -
    from k obtain q where q: "q \<in> set (active reqs)" "q_key q = k" by (rule key_request)
    note pa = paced_after [OF assms(3), of q, simplified, OF q]
    have bal: "balance lmt now (view l' k) = after_charge ?c now (view l) q"
      using at q pa(2) by (auto simp: balance_spent)
    have "per_second lmt * seconds (wait_for ?c now (view l) q + 1) \<le> per_second lmt * seconds (rs_delay r' + 1)"
      using at q(1) rate_pos [OF assms(4)]
      by (intro mult_left_mono) (auto simp: seconds_def divide_right_mono)
    with wait_covers_debt [of q ?c now "view l"] bal pa(1,2) assms(4) show ?thesis by auto
  qed
  have "balance lmt now (view l' k) \<le> balance lmt now (view l k)"
    using at_key at by (cases "k \<in> set (active_keys reqs)") auto
  with at_key ref show ?thesis by (auto simp: charges_key_def res)
qed

lemma pace_effect:
  assumes "wf_limiter l" "room l (set (active_keys (op_requests op)))" "paced_op k lmt op" "\<not> unlimited lmt"
  shows "charges_key k lmt (op_time op) (op_cost op) (set (active_keys (op_requests op))) l
    (pace_step order op l) (send_time order op l)"
proof (cases op)
  case (PAllow now reqs cost)
  with assms allow_charges_key [of l reqs k lmt now cost order] show ?thesis by simp
next
  case (PReserve now reqs cost)
  with assms reserve_charges_key [of l reqs k lmt now cost order] show ?thesis by simp
qed

lemma pace_run_bound:
  assumes "wf_limiter l" "\<not> unlimited lmt" "list_all (paced_op k lmt) ops"
    "sorted (t # map op_time ops)"
    "card (keys_of l \<union> (\<Union>op \<in> set ops. set (active_keys (op_requests op)))) \<le> lm_max_buckets l"
  shows "of_int (sum_list (map (sent_by order k T) (trace (pace_step order) ops l)))
    \<le> max 0 (balance lmt t (view l k) + per_second lmt * seconds (T - t + 1))"
  using assms
proof (induction ops arbitrary: l t)
  case (Cons op ops)
  let ?now = "op_time op" and ?l = "pace_step order op l" and ?r = "per_second lmt" and ?c = "of_int (op_cost op)"
  let ?ks = "set (active_keys (op_requests op))"
  let ?bal = "balance lmt ?now (view l k)" and ?bal' = "balance lmt ?now (view ?l k)"
  have r: "0 < ?r" using rate_pos Cons.prems(2) by blast
  have "room l ?ks"
    unfolding room_def
    by (rule order_trans [OF card_mono Cons.prems(5)]) auto
  with Cons.prems pace_effect [of l op k lmt order] have eff: "charges_key k lmt ?now (op_cost op) ?ks l ?l (send_time order op l)"
    by simp
  have "keys_of ?l \<union> (\<Union>op \<in> set ops. set (active_keys (op_requests op))) =
      keys_of l \<union> (\<Union>op \<in> set (op # ops). set (active_keys (op_requests op)))"
    using eff by (auto simp: charges_key_def)
  then have IH: "of_int (sum_list (map (sent_by order k T) (trace (pace_step order) ops ?l)))
      \<le> max 0 (?bal' + ?r * seconds (T - ?now + 1))"
    using Cons.IH [of ?l ?now] Cons.prems eff by (auto simp: charges_key_def)
  have grow: "?bal + ?r * seconds (T - ?now + 1) \<le> balance lmt t (view l k) + ?r * seconds (T - t + 1)"
  proof -
    have "?r * seconds (T - t + 1) = ?r * seconds (?now - t) + ?r * seconds (T - ?now + 1)"
      by (simp add: seconds_def field_simps)
    with balance_grows [of t ?now lmt "view l k"] Cons.prems(2,4) show ?thesis by simp
  qed
  show ?case
  proof (cases "sent_by order k T (op, l) = 0")
    case True
    moreover from eff have "?bal' \<le> ?bal" by (simp add: charges_key_def)
    ultimately show ?thesis using IH grow by simp
  next
    case False
    then obtain s where s: "send_time order op l = Some s" "s \<le> T" "k \<in> ?ks"
      and sent: "sent_by order k T (op, l) = op_cost op"
      by (auto simp: sent_by_def split: option.splits if_splits)
    from eff s have spent: "?bal' = ?bal - ?c" "- ?bal' \<le> ?r * seconds (s - ?now + 1)"
      by (auto simp: charges_key_def)
    have "?r * seconds (s - ?now + 1) \<le> ?r * seconds (T - ?now + 1)"
      using s(2) r by (intro mult_left_mono) (auto simp: seconds_def divide_right_mono)
    with IH grow spent show ?thesis by (simp add: sent)
  qed
qed simp


section \<open>One bucket at a time\<close>

lemma put_bucket_twice:
  assumes "a < length (lm_heap l)"
  shows "put_bucket a (f (bucket_at (put_bucket a b l) a)) (put_bucket a b l) = put_bucket a (f b) l"
  using assms by (simp add: put_bucket_def bucket_at_def)

lemma bucket_for_address:
  assumes "wf_limiter l" "bucket_for order k lmt now l = (a, l')"
  shows "a < length (lm_heap l')"
  using assms address_bound [OF assms(1), of k]
  by (auto simp: bucket_for_def Let_def split: option.splits)

lemma to_duration_pos: "0 \<le> x \<Longrightarrow> 0 \<le> to_duration x"
  by (simp add: to_duration_nonneg)

lemma retry_nonneg: "0 < b_per_sec b \<Longrightarrow> 0 \<le> ch_retry_after (fst (assess cost now b))"
  by (auto simp: assess_def Let_def intro!: to_duration_pos)

lemma allow_as_allow_all:
  assumes "wf_limiter l" "key \<noteq> []" "room l {key}"
  shows "allow order now key lmt cost l = allow_all order now [\<lparr>q_key = key, q_limit = lmt\<rparr>] cost l"
proof (cases "unlimited lmt")
  case True
  then show ?thesis by (simp add: allow_def allow_all_def skipped_def apply_all_def)
next
  case False
  obtain a l1 where bf: "bucket_for order key lmt now l = (a, l1)" by force
  obtain d b where as: "assess (norm_cost cost) now (bucket_at l1 a) = (d, b)" by force
  have "b_per_sec (bucket_at l1 a) = per_second lmt"
    using bucket_for_view(4) [OF assms(1,3) _ _ bf] by simp
  then have "0 \<le> ch_retry_after d"
    using retry_nonneg [of "bucket_at l1 a" "norm_cost cost" now] rate_pos [OF False] as by simp
  moreover have "ch_allowed d \<Longrightarrow> ch_retry_after d = 0"
    using as by (auto simp: assess_def Let_def split: if_splits)
  moreover have "\<not> ch_allowed d \<Longrightarrow> apply_charge d b = b" by (simp add: apply_charge_def)
  ultimately show ?thesis
    using False assms(2) bf as put_bucket_twice [OF bucket_for_address [OF assms(1) bf], of "apply_charge d" b]
    by (auto simp: allow_def allow_all_def skipped_def apply_all_def longest_retry_def)
qed

lemma active_single:
  "key \<noteq> [] \<Longrightarrow> \<not> unlimited lmt \<Longrightarrow>
   active [\<lparr>q_key = key, q_limit = lmt\<rparr>] = [\<lparr>q_key = key, q_limit = lmt\<rparr>] \<and>
   active_keys [\<lparr>q_key = key, q_limit = lmt\<rparr>] = [key]"
  by (simp add: active_def skipped_def)

lemma allow_effect:
  assumes "wf_limiter l" "key \<noteq> []" "room l {key}" "\<not> unlimited lmt"
  shows "fst (fst (allow order now key lmt cost l)) =
      covers (norm_cost cost) now (view l) \<lparr>q_key = key, q_limit = lmt\<rparr>"
    and "\<not> fst (fst (allow order now key lmt cost l)) \<Longrightarrow>
      view (snd (allow order now key lmt cost l)) key = Some (refill now (rated lmt now (view l key)))"
    and "wf_limiter (snd (allow order now key lmt cost l))"
    and "room (snd (allow order now key lmt cost l)) {key}"
proof -
  let ?r = "\<lparr>q_key = key, q_limit = lmt\<rparr>"
  note one = active_single [OF assms(2,4)]
  note all = allow_as_allow_all [OF assms(1-3), of order now lmt cost]
  have rm: "room l (set (active_keys [?r]))" using assms(3) one by simp
  note ref = allow_all_refines_abs [OF assms(1) rm, of order now cost]
  have "distinct (active_keys [?r])" using one by simp
  note eff = abs_allow_all_effect [OF this, where now = now and cost = cost and m = "view l"]
  show "fst (fst (allow order now key lmt cost l)) = covers (norm_cost cost) now (view l) ?r"
    using ref(1) eff(1) one by (simp add: all)
  show "view (snd (allow order now key lmt cost l)) key = Some (refill now (rated lmt now (view l key)))"
    if "\<not> fst (fst (allow order now key lmt cost l))"
    using that eff(2) [of ?r] ref(1,2) eff(1) one by (auto simp: all)
  show "wf_limiter (snd (allow order now key lmt cost l))" using ref(3) by (simp add: all)
  show "room (snd (allow order now key lmt cost l)) {key}"
    using keys_allow_all [OF assms(1) rm, of order now cost] assms(3) one by (simp add: all room_def)
qed

lemma refused_retry:
  assumes "wf_limiter l" "key \<noteq> []" "room l {key}" "\<not> unlimited lmt"
    "allow order now key lmt cost l = ((False, d), l')"
  shows "d = to_duration ((of_int (norm_cost cost) - balance lmt now (view l key)) / per_second lmt)"
proof -
  obtain a l1 where bf: "bucket_for order key lmt now l = (a, l1)" by force
  have at: "bucket_at l1 a = rated lmt now (view l key)"
    using bucket_for_view(4) [OF assms(1,3) _ _ bf] by simp
  from assms(4,5) bf have "\<not> ch_allowed (fst (assess (norm_cost cost) now (bucket_at l1 a)))"
    "d = ch_retry_after (fst (assess (norm_cost cost) now (bucket_at l1 a)))"
    by (auto simp: allow_def split: prod.splits)
  then show ?thesis unfolding at by (auto simp: assess_def Let_def balance_def split: if_splits)
qed

lemma balance_later:
  assumes "now \<le> t" "\<And>b. ob = Some b \<Longrightarrow> b_refilled b \<le> now" "0 \<le> per_second lmt"
    "balance lmt now ob \<le> limit_capacity lmt"
  shows "balance lmt t (Some (refill now (rated lmt now ob))) =
    min (limit_capacity lmt) (balance lmt now ob + per_second lmt * seconds (t - now))"
proof -
  let ?b = "rated lmt now ob"
  have "b_refilled ?b \<le> now"
    using assms(2) by (cases ob) (auto simp: rated_def rerate_def fresh_bucket_def)
  then have r: "b_refilled (refill now ?b) = now" by (auto simp: refill_def Let_def)
  have "rated lmt t (Some (refill now ?b)) = refill now ?b" by (intro rated_same) simp_all
  moreover have "b_tokens (refill t (refill now ?b)) =
      min (limit_capacity lmt) (b_tokens (refill now ?b) + per_second lmt * seconds (t - now))"
    using r assms(1,4) by (cases "now = t") (auto simp: refill_def [of t] Let_def min_float_def balance_def mult.commute seconds_def)
  ultimately show ?thesis by (simp add: balance_def)
qed


section \<open>Cancelling a reservation\<close>

definition restore_for :: "int \<Rightarrow> time \<Rightarrow> (string \<Rightarrow> bucket option) \<Rightarrow> request \<Rightarrow> rat" where
  "restore_for cost now m q = fst (fst (reserve_one cost now (rated (q_limit q) now (m (q_key q)))))"

lemma abs_reserve_held:
  assumes "distinct (active_keys reqs)" "abs_reserve now cost reqs (r, m) = (r', m')"
  shows "rs_held r' = rs_held r @ map (\<lambda>q. (q_key q, restore_for cost now m q)) (active reqs)"
  using assms
proof (induction reqs arbitrary: r m)
  case (Cons q qs)
  show ?case
  proof (cases "skipped q")
    case False
    obtain w b where one: "reserve_one cost now (rated (q_limit q) now (m (q_key q))) = ((restore_for cost now m q, w), b)"
      by (metis prod.collapse restore_for_def)
    let ?r = "r\<lparr>rs_held := rs_held r @ [(q_key q, restore_for cost now m q)],
      rs_delay := (if w > rs_delay r then w else rs_delay r)\<rparr>"
    define m1 where "m1 = m(q_key q \<mapsto> b)"
    have rec: "abs_reserve now cost qs (?r, m1) = (r', m')"
      using Cons.prems(2) False one by (simp add: m1_def)
    have new: "q_key q \<notin> set (active_keys qs)" "distinct (active_keys qs)" using Cons.prems(1) False by simp_all
    have "restore_for cost now m1 x = restore_for cost now m x" if "x \<in> set (active qs)" for x
      using new(1) that by (auto simp: active_keys_def image_iff m1_def restore_for_def)
    then have "map (\<lambda>q. (q_key q, restore_for cost now m1 q)) (active qs) =
        map (\<lambda>q. (q_key q, restore_for cost now m q)) (active qs)" by simp
    with Cons.IH [OF new(2) rec] False show ?thesis by (simp add: active_def)
  qed (use Cons in \<open>auto simp: active_def\<close>)
qed (simp add: active_def)

definition topped_up :: "rat \<Rightarrow> bucket \<Rightarrow> bucket" where
  "topped_up x b = b\<lparr>b_tokens := min_float (b_capacity b) (b_tokens b + x)\<rparr>"

lemma restore_view:
  assumes "wf_limiter l" "distinct (map fst hs)"
  shows "wf_limiter (fold restore_one hs l) \<and>
    (\<forall>(k, x) \<in> set hs. view (fold restore_one hs l) k = map_option (topped_up x) (view l k)) \<and>
    (\<forall>k. k \<notin> fst ` set hs \<longrightarrow> view (fold restore_one hs l) k = view l k)"
  using assms
proof (induction hs arbitrary: l)
  case (Cons h hs)
  obtain k x where h: "h = (k, x)" by force
  have one: "wf_limiter (restore_one h l) \<and> view (restore_one h l) = (view l)(k := map_option (topped_up x) (view l k))"
  proof (cases "map_of (lm_buckets l) k")
    case None
    then show ?thesis using Cons.prems(1) by (auto simp: h restore_one_def view_def)
  next
    case (Some a)
    have "view l k = Some (bucket_at l a)" using Some by (simp add: view_def)
    with view_put [OF Cons.prems(1) Some] Some Cons.prems(1) show ?thesis
      by (simp add: h restore_one_def Let_def topped_up_def)
  qed
  define l1 where "l1 = restore_one h l"
  have k: "k \<notin> fst ` set hs" using Cons.prems(2) by (simp add: h)
  have at: "view l1 j = view l j" if "j \<noteq> k" for j using one that by (simp add: l1_def)
  have atk: "view l1 k = map_option (topped_up x) (view l k)" using one by (simp add: l1_def)
  have IH: "wf_limiter (fold restore_one hs l1) \<and>
    (\<forall>(k, x) \<in> set hs. view (fold restore_one hs l1) k = map_option (topped_up x) (view l1 k)) \<and>
    (\<forall>k. k \<notin> fst ` set hs \<longrightarrow> view (fold restore_one hs l1) k = view l1 k)"
    using Cons.IH [of l1] one Cons.prems(2) by (simp add: l1_def h)
  have step: "fold restore_one (h # hs) l = fold restore_one hs l1" by (simp add: l1_def)
  have "j \<noteq> k" if "(j, y) \<in> set hs" for j y using k that by force
  with IH k at atk show ?case unfolding step by (auto simp: h split: prod.splits)
qed simp

text \<open>
  Cancelling gives back what was taken. Reserving and cancelling at the same moment leaves what
  every key may spend as it was. The one exception is a cost larger than the bucket: it empties the
  bucket, and cancelling it leaves a bucket that was in debt at zero.
\<close>

theorem reserve_cancel:
  assumes "wf_limiter l" "room l (set (active_keys reqs))" "distinct (active_keys reqs)"
    "\<And>k. full_at_most (view l k)" "reserve_all order now reqs cost l = (r, l1)" "cancel r l1 = (r', l2)"
  shows "(\<forall>q \<in> set (active reqs).
      balance (q_limit q) now (view l2 (q_key q)) =
        (if of_int (norm_cost cost) \<le> limit_capacity (q_limit q) then balance (q_limit q) now (view l (q_key q))
         else max (balance (q_limit q) now (view l (q_key q))) 0)) \<and>
    (\<forall>k. k \<notin> set (active_keys reqs) \<longrightarrow> view l2 k = view l k)"
proof -
  let ?c = "norm_cost cost"
  note ref = reserve_refines [OF assms(1,2) assms(5) [unfolded reserve_all_def]]
  have abs: "abs_reserve now ?c reqs (\<lparr>rs_delay = 0, rs_held = []\<rparr>, view l) = (r, view l1)" using ref by blast
  note at = abs_reserve_at [OF assms(3) abs]
  have held: "rs_held r = map (\<lambda>q. (q_key q, restore_for ?c now (view l) q)) (active reqs)"
    using abs_reserve_held [OF assms(3) abs] by simp
  have dist: "distinct (map fst (rs_held r))"
    using assms(3) by (simp add: held active_keys_def comp_def)
  have l2: "l2 = fold restore_one (rs_held r) l1" using assms(6) by (simp add: cancel_def)
  note top = restore_view [OF conjunct1 [OF ref] dist, folded l2]
  have "balance (q_limit q) now (view l2 (q_key q)) =
        (if of_int ?c \<le> limit_capacity (q_limit q) then balance (q_limit q) now (view l (q_key q))
         else max (balance (q_limit q) now (view l (q_key q))) 0)" if q: "q \<in> set (active reqs)" for q
  proof -
    let ?b = "refill now (rated (q_limit q) now (view l (q_key q)))"
    let ?bal = "balance (q_limit q) now (view l (q_key q))"
    have "view l2 (q_key q) = map_option (topped_up (restore_for ?c now (view l) q)) (view l1 (q_key q))"
      using top q by (auto simp: held)
    also have "view l1 (q_key q) = Some (?b\<lparr>b_tokens := after_charge ?c now (view l) q\<rparr>)"
      using at q by blast
    finally have "view l2 (q_key q) = Some (?b\<lparr>b_tokens :=
        min_float (limit_capacity (q_limit q)) (after_charge ?c now (view l) q + restore_for ?c now (view l) q)\<rparr>)"
      by (simp add: topped_up_def)
    then have bal: "balance (q_limit q) now (view l2 (q_key q)) =
        min_float (limit_capacity (q_limit q)) (after_charge ?c now (view l) q + restore_for ?c now (view l) q)"
      by (simp add: balance_spent)
    have cap: "?bal \<le> limit_capacity (q_limit q)" "0 < limit_capacity (q_limit q)"
      using balance_capacity [OF assms(4)] capacity_pos [of "q_limit q"] q
      by (auto simp: active_def skipped_def)
    show ?thesis
    proof (cases "of_int ?c \<le> limit_capacity (q_limit q)")
      case True
      then have "after_charge ?c now (view l) q + restore_for ?c now (view l) q = ?bal"
        by (simp add: after_charge_def restore_for_def reserve_one_def Let_def)
      with bal True cap show ?thesis by (simp add: min_float_def)
    next
      case False
      then have "after_charge ?c now (view l) q + restore_for ?c now (view l) q = max ?bal 0"
        by (simp add: after_charge_def restore_for_def reserve_one_def Let_def balance_def max_float_def max_def)
      with bal False cap show ?thesis by (auto simp: min_float_def max_def)
    qed
  qed
  moreover have "view l2 k = view l k" if "k \<notin> set (active_keys reqs)" for k
    using top at that by (auto simp: held active_keys_def image_iff)
  ultimately show ?thesis by blast
qed

section \<open>The properties at concrete inputs\<close>

definition empty_bucket_limiter :: limiter where
  "empty_bucket_limiter =
     \<lparr>lm_buckets = [(''t1'', 0)],
      lm_heap = [\<lparr>b_tokens = 0, b_capacity = 2, b_per_sec = 1, b_refilled = 0, b_seen = 0\<rparr>],
      lm_max_buckets = 10, lm_idle_ttl = 15 * minute\<rparr>"

lemma empty_bucket_view:
  "wf_limiter empty_bucket_limiter" "room empty_bucket_limiter {''t1''}" "full_at_most (view empty_bucket_limiter k)"
  "view empty_bucket_limiter ''t1'' = Some \<lparr>b_tokens = 0, b_capacity = 2, b_per_sec = 1, b_refilled = 0, b_seen = 0\<rparr>"
  by (auto simp: empty_bucket_limiter_def wf_limiter_def room_def keys_of_def full_at_most_def view_def
      bucket_at_def split: if_splits)



theorem reserve_cancel_witness:
  "balance sample_limit 0 (view (snd (cancel
      (fst (reserve_all (\<lambda>bs. bs) 0 sample_requests 2 empty_bucket_limiter))
      (snd (reserve_all (\<lambda>bs. bs) 0 sample_requests 2 empty_bucket_limiter)))) ''t1'') =
   balance sample_limit 0 (view empty_bucket_limiter ''t1'')"
proof -
  let ?res = "reserve_all (\<lambda>bs. bs) 0 sample_requests 2 empty_bucket_limiter"
  let ?can = "cancel (fst ?res) (snd ?res)"
  have h: "room empty_bucket_limiter (set (active_keys sample_requests))" "distinct (active_keys sample_requests)"
    by (simp_all add: sample_requests_active room_def keys_of_def) (simp add: empty_bucket_limiter_def card_insert_if)
  have n: "norm_cost 2 = 2" by (simp add: norm_cost_def)
  from reserve_cancel [OF empty_bucket_view(1) h empty_bucket_view(3), of "\<lambda>bs. bs" 0 2 "fst ?res" "snd ?res" "fst ?can" "snd ?can"]
  show ?thesis
    unfolding n sample_requests_active by (simp add: sample_requests_def sample_limit_values)
qed

end
