(* ===== verification/Lease_Queue.thy ===== *)
theory Lease_Queue
  imports Run_Traces
begin

text \<open>
  The lease protocol shared by the two work queues of the gateway, the outbox and the webhook
  deliveries. A claim is one update that gives due rows a fresh token and a deadline; a row under an
  unexpired lease is not due. The interface states what the two tables promise about a claim, and
  the lemmas inside it what a worker may rely on.
\<close>

definition holders :: "('r \<Rightarrow> string option) \<Rightarrow> string \<Rightarrow> 'r list \<Rightarrow> 'r list" where
  "holders row_token tok rows = filter (\<lambda>r. row_token r = Some tok) rows"

locale lease_table =
  fixes row_id :: "'r \<Rightarrow> string"
    and row_token :: "'r \<Rightarrow> string option"
    and leased_until :: "time \<Rightarrow> 'r \<Rightarrow> bool"
    and due :: "time \<Rightarrow> 'r \<Rightarrow> bool"
    and claim :: "time \<Rightarrow> string \<Rightarrow> time \<Rightarrow> 'r list \<Rightarrow> 'r list"
  assumes claim_ids: "map row_id (claim now tok u rows) = map row_id rows"
    and claim_frame: "distinct (map row_id rows) \<Longrightarrow> r \<in> set rows \<Longrightarrow> \<not> due now r \<Longrightarrow>
      r \<in> set (claim now tok u rows)"
    and claim_taken: "distinct (map row_id rows) \<Longrightarrow> r \<in> set (claim now tok u rows) \<Longrightarrow> r \<notin> set rows \<Longrightarrow>
      row_token r = Some tok \<and> leased_until u r \<and> (\<exists>r0 \<in> set rows. row_id r0 = row_id r \<and> due now r0)"
    and lease_blocks: "leased_until u r \<Longrightarrow> now \<le> u \<Longrightarrow> \<not> due now r"
begin

lemma claim_distinct: "distinct (map row_id rows) \<Longrightarrow> distinct (map row_id (claim now tok u rows))"
  by (simp add: claim_ids)

lemma claim_keeps_lease:
  "distinct (map row_id rows) \<Longrightarrow> r \<in> set rows \<Longrightarrow> leased_until u r \<Longrightarrow> now \<le> u \<Longrightarrow>
   r \<in> set (claim now tok u' rows)"
  using claim_frame lease_blocks by blast

lemma claim_holders_due:
  assumes "distinct (map row_id rows)" "holders row_token tok rows = []"
    "r \<in> set (holders row_token tok (claim now tok u rows))"
  shows "leased_until u r \<and> (\<exists>r0 \<in> set rows. row_id r0 = row_id r \<and> due now r0)"
proof -
  from assms(2,3) have "r \<in> set (claim now tok u rows)" "r \<notin> set rows"
    by (auto simp: holders_def filter_empty_conv)
  with claim_taken [OF assms(1)] show ?thesis by blast
qed

text \<open>A later claim made before the deadline wins none of the rows already won.\<close>

lemma claims_disjoint:
  assumes "distinct (map row_id rows)" "holders row_token tok rows = []" "holders row_token tok' rows = []"
    "tok \<noteq> tok'" "now' \<le> u"
  shows "row_id ` set (holders row_token tok (claim now tok u rows)) \<inter>
    row_id ` set (holders row_token tok' (claim now' tok' u' (claim now tok u rows))) = {}"
proof -
  let ?rows = "claim now tok u rows" and ?rows' = "claim now' tok' u' (claim now tok u rows)"
  have "row_id r \<noteq> row_id r'"
    if r: "r \<in> set (holders row_token tok ?rows)" and r': "r' \<in> set (holders row_token tok' ?rows')" for r r'
  proof
    assume eq: "row_id r = row_id r'"
    have "leased_until u r" using claim_holders_due [OF assms(1,2) r] by blast
    with claim_keeps_lease [OF claim_distinct [OF assms(1)]] r assms(5) have "r \<in> set ?rows'"
      by (auto simp: holders_def)
    moreover have "r' \<in> set ?rows'" using r' by (simp add: holders_def)
    moreover have "distinct (map row_id ?rows')" using assms(1) by (simp add: claim_ids)
    ultimately have "r = r'" using same_id_same_row eq by metis
    with r r' assms(4) show False by (simp add: holders_def)
  qed
  then show ?thesis by blast
qed

end

end
