(* ===== verification/Outbox_Store.thy ===== *)
theory Outbox_Store
  imports Lease_Queue Quarantine
begin

text \<open>
  The outbox of \<open>internal/email\<close>: the queued messages and the idempotency keys
  (\<open>repositories/entities\<close>), the table operations (\<open>stores/postgres/outbox_store.go\<close> and its SQL),
  and the releaser that gives held messages back to the worker (\<open>usecases/release_held.go\<close>).

  An operation takes one Boolean per database round trip, true when it is carried out. A transaction
  that fails anywhere leaves the tables as they were. The claim is one update; on both engines it
  is atomic, by row locks or by the engine's single writer. Tokens and times are arguments.
\<close>

section \<open>Rows\<close>

datatype outbox_status =
    OutboxStatusPending | OutboxStatusDeferred | OutboxStatusFailed | OutboxStatusSending | OutboxStatusHeld

record outbox_email =
  oe_mail_id :: string
  oe_tenant_id :: string
  oe_request :: string
  oe_status :: outbox_status
  oe_retry_count :: int
  oe_next_retry_at :: time
  oe_last_error :: string
  oe_created_at :: time
  oe_updated_at :: time
  oe_claim_token :: string

record outbox_row =
  ob_id :: string
  ob_tenant_id :: string
  ob_request :: string
  ob_status :: outbox_status
  ob_retry_count :: int
  ob_next_retry_at :: time
  ob_last_error :: string
  ob_created_at :: time
  ob_updated_at :: time
  ob_claim_token :: "string option"
  ob_claimed_until :: "time option"

record idempotency_key =
  ik_tenant_id :: string
  ik_key :: string
  ik_request_hash :: string
  ik_message_id :: string
  ik_created_at :: time

text \<open>The two tables, and whether the wake-up channel of the queue worker holds a token.\<close>

record outbox_db =
  db_rows :: "outbox_row list"
  db_keys :: "idempotency_key list"
  db_wake :: bool

datatype outbox_error = OutboxUnavailable | OutboxDuplicateId | ErrIdempotencyKeyTaken

definition row_of :: "outbox_email \<Rightarrow> outbox_row" where
  "row_of e =
     \<lparr>ob_id = oe_mail_id e, ob_tenant_id = oe_tenant_id e, ob_request = oe_request e,
      ob_status = oe_status e, ob_retry_count = oe_retry_count e,
      ob_next_retry_at = oe_next_retry_at e, ob_last_error = oe_last_error e,
      ob_created_at = oe_created_at e, ob_updated_at = oe_updated_at e,
      ob_claim_token = None, ob_claimed_until = None\<rparr>"

definition email_of :: "string \<Rightarrow> outbox_row \<Rightarrow> outbox_email" where
  "email_of token r =
     \<lparr>oe_mail_id = ob_id r, oe_tenant_id = ob_tenant_id r, oe_request = ob_request r,
      oe_status = ob_status r, oe_retry_count = ob_retry_count r,
      oe_next_retry_at = ob_next_retry_at r, oe_last_error = ob_last_error r,
      oe_created_at = ob_created_at r, oe_updated_at = ob_updated_at r, oe_claim_token = token\<rparr>"

section \<open>Creating messages\<close>

definition outbox_insert :: "outbox_email \<Rightarrow> outbox_db \<Rightarrow> (outbox_error, outbox_db) result" where
  "outbox_insert e db =
     (if \<exists>r \<in> set (db_rows db). ob_id r = oe_mail_id e then Inl OutboxDuplicateId
      else Inr (db\<lparr>db_rows := db_rows db @ [row_of e]\<rparr>))"

definition outbox_create :: "bool \<Rightarrow> outbox_email \<Rightarrow> outbox_db \<Rightarrow> (outbox_error, outbox_db) result" where
  "outbox_create ok e db = (if \<not> ok then Inl OutboxUnavailable else outbox_insert e db)"

definition same_key :: "string \<Rightarrow> string \<Rightarrow> idempotency_key \<Rightarrow> bool" where
  "same_key tenant key k \<longleftrightarrow> ik_tenant_id k = tenant \<and> ik_key k = key"

text \<open>
  \<open>keys_ok\<close> is false when a statement up to the insertion of the key fails, \<open>queue_ok\<close> when the
  insertion of the message or the commit does.
\<close>

definition create_with_idempotency_key ::
  "bool \<Rightarrow> bool \<Rightarrow> outbox_email \<Rightarrow> idempotency_key \<Rightarrow> time \<Rightarrow> outbox_db \<Rightarrow> (outbox_error, outbox_db) result" where
  "create_with_idempotency_key keys_ok queue_ok e k live_since db =
     (if \<not> keys_ok then Inl OutboxUnavailable
      else
        let keys = delete_where
              (\<lambda>x. same_key (ik_tenant_id k) (ik_key k) x \<and> ik_created_at x < live_since) (db_keys db)
        in if \<exists>x \<in> set keys. same_key (ik_tenant_id k) (ik_key k) x then Inl ErrIdempotencyKeyTaken
           else if \<not> queue_ok then Inl OutboxUnavailable
           else outbox_insert e (db\<lparr>db_keys := keys @ [k]\<rparr>))"

definition get_idempotency_key ::
  "bool \<Rightarrow> string \<Rightarrow> string \<Rightarrow> time \<Rightarrow> outbox_db \<Rightarrow> (outbox_error, idempotency_key option) result" where
  "get_idempotency_key ok tenant key live_since db =
     (if \<not> ok then Inl OutboxUnavailable
      else Inr (find_row (\<lambda>k. same_key tenant key k \<and> ik_created_at k \<ge> live_since) (db_keys db)))"

definition prune_idempotency_keys :: "bool \<Rightarrow> time \<Rightarrow> outbox_db \<Rightarrow> (outbox_error, nat) result \<times> outbox_db" where
  "prune_idempotency_keys ok older_than db =
     (if \<not> ok then (Inl OutboxUnavailable, db)
      else (Inr (affected (\<lambda>k. ik_created_at k < older_than) (db_keys db)),
            db\<lparr>db_keys := delete_where (\<lambda>k. ik_created_at k < older_than) (db_keys db)\<rparr>))"

section \<open>Claiming\<close>

definition get_by_id :: "bool \<Rightarrow> string \<Rightarrow> outbox_db \<Rightarrow> (outbox_error, outbox_email option) result" where
  "get_by_id ok mid db =
     (if \<not> ok then Inl OutboxUnavailable
      else Inr (map_option (email_of []) (find_row (\<lambda>r. ob_id r = mid) (db_rows db))))"

definition claimable :: "time \<Rightarrow> outbox_row \<Rightarrow> bool" where
  "claimable now r \<longleftrightarrow>
     ob_next_retry_at r \<le> now \<and>
     (ob_status r = OutboxStatusPending \<or> ob_status r = OutboxStatusDeferred \<or>
      ob_status r = OutboxStatusSending \<and>
        (case ob_claimed_until r of None \<Rightarrow> True | Some u \<Rightarrow> u < now))"

definition claim_batch :: "time \<Rightarrow> nat \<Rightarrow> outbox_row list \<Rightarrow> string list" where
  "claim_batch now limit rows =
     map ob_id (take limit (sort_key ob_created_at (filter (claimable now) rows)))"

definition take_claim :: "string \<Rightarrow> time \<Rightarrow> time \<Rightarrow> outbox_row \<Rightarrow> outbox_row" where
  "take_claim token until now r =
     r\<lparr>ob_status := OutboxStatusSending, ob_claim_token := Some token,
       ob_claimed_until := Some until, ob_updated_at := now\<rparr>"

definition claim_rows :: "nat \<Rightarrow> time \<Rightarrow> string \<Rightarrow> time \<Rightarrow> outbox_row list \<Rightarrow> outbox_row list" where
  "claim_rows limit now token until rows =
     update_where (\<lambda>r. ob_id r \<in> set (claim_batch now limit rows)) (take_claim token until now) rows"

definition claim_pending ::
  "bool \<Rightarrow> bool \<Rightarrow> time \<Rightarrow> string \<Rightarrow> nat \<Rightarrow> duration \<Rightarrow> outbox_db
    \<Rightarrow> (outbox_error, outbox_email list) result \<times> outbox_db" where
  "claim_pending exec_ok read_ok now token limit lease db =
     (if \<not> exec_ok then (Inl OutboxUnavailable, db)
      else
        let rows = claim_rows limit now token (now + lease) (db_rows db);
            db' = db\<lparr>db_rows := rows\<rparr>
        in if claim_batch now limit (db_rows db) = [] then (Inr [], db')
           else if \<not> read_ok then (Inl OutboxUnavailable, db')
           else (Inr (map (email_of token) (sort_key ob_created_at (holders ob_claim_token token rows))), db'))"

definition renewable :: "string \<Rightarrow> string \<Rightarrow> outbox_row \<Rightarrow> bool" where
  "renewable mid token r \<longleftrightarrow>
     ob_id r = mid \<and> ob_claim_token r = Some token \<and> ob_status r = OutboxStatusSending"

definition renew_claim ::
  "bool \<Rightarrow> string \<Rightarrow> string \<Rightarrow> time \<Rightarrow> outbox_db \<Rightarrow> (outbox_error, bool) result \<times> outbox_db" where
  "renew_claim ok mid token until db =
     (if \<not> ok then (Inl OutboxUnavailable, db)
      else (Inr (affected (renewable mid token) (db_rows db) = 1),
            db\<lparr>db_rows := update_where (renewable mid token) (\<lambda>r. r\<lparr>ob_claimed_until := Some until\<rparr>) (db_rows db)\<rparr>))"

section \<open>Settling\<close>

definition settle_row :: "outbox_email \<Rightarrow> outbox_row \<Rightarrow> outbox_row" where
  "settle_row e r =
     r\<lparr>ob_status := oe_status e, ob_retry_count := oe_retry_count e,
       ob_next_retry_at := oe_next_retry_at e, ob_last_error := oe_last_error e,
       ob_updated_at := oe_updated_at e, ob_claim_token := None, ob_claimed_until := None\<rparr>"

definition outbox_update :: "bool \<Rightarrow> outbox_email \<Rightarrow> outbox_db \<Rightarrow> (outbox_error, unit) result \<times> outbox_db" where
  "outbox_update ok e db =
     (if \<not> ok then (Inl OutboxUnavailable, db)
      else (Inr (), db\<lparr>db_rows := update_where (\<lambda>r. ob_id r = oe_mail_id e) (settle_row e) (db_rows db)\<rparr>))"

definition outbox_delete :: "bool \<Rightarrow> string \<Rightarrow> outbox_db \<Rightarrow> (outbox_error, unit) result \<times> outbox_db" where
  "outbox_delete ok mid db =
     (if \<not> ok then (Inl OutboxUnavailable, db)
      else (Inr (), db\<lparr>db_rows := delete_where (\<lambda>r. ob_id r = mid) (db_rows db)\<rparr>))"

definition undelivered :: "outbox_row \<Rightarrow> bool" where
  "undelivered r \<longleftrightarrow> ob_status r \<in> {OutboxStatusPending, OutboxStatusDeferred, OutboxStatusSending}"

definition count_pending :: "bool \<Rightarrow> string \<Rightarrow> outbox_db \<Rightarrow> (outbox_error, nat) result" where
  "count_pending ok tenant db =
     (if \<not> ok then Inl OutboxUnavailable
      else Inr (length (filter (\<lambda>r. ob_tenant_id r = tenant \<and> undelivered r) (db_rows db))))"

definition outbox_prune_terminal :: "bool \<Rightarrow> time \<Rightarrow> outbox_db \<Rightarrow> (outbox_error, nat) result \<times> outbox_db" where
  "outbox_prune_terminal ok older_than db =
     (let p = (\<lambda>r. ob_status r = OutboxStatusFailed \<and> ob_updated_at r < older_than)
      in if \<not> ok then (Inl OutboxUnavailable, db)
         else (Inr (affected p (db_rows db)), db\<lparr>db_rows := delete_where p (db_rows db)\<rparr>))"

definition under_review :: "table \<Rightarrow> outbox_row \<Rightarrow> bool" where
  "under_review reviews r \<longleftrightarrow>
     (\<exists>m \<in> set reviews. fm_message_id m \<noteq> [] \<and> fm_message_id m = ob_id r \<and> fm_status m = StatusPending)"

definition outbox_prune_held :: "bool \<Rightarrow> time \<Rightarrow> table \<Rightarrow> outbox_db \<Rightarrow> (outbox_error, nat) result \<times> outbox_db" where
  "outbox_prune_held ok older_than reviews db =
     (let p = (\<lambda>r. ob_status r = OutboxStatusHeld \<and> ob_created_at r < older_than \<and> \<not> under_review reviews r)
      in if \<not> ok then (Inl OutboxUnavailable, db)
         else (Inr (affected p (db_rows db)), db\<lparr>db_rows := delete_where p (db_rows db)\<rparr>))"

definition outbox_stats :: "bool \<Rightarrow> outbox_db \<Rightarrow> (outbox_error, nat \<times> time option) result" where
  "outbox_stats ok db =
     (if \<not> ok then Inl OutboxUnavailable
      else
        let waiting = filter undelivered (db_rows db)
        in Inr (length waiting,
                if waiting = [] then None else Some (foldr min (map ob_created_at waiting) (ob_created_at (hd waiting)))))"

section \<open>Releasing held messages\<close>

definition release_held :: "bool \<Rightarrow> bool \<Rightarrow> bool \<Rightarrow> time \<Rightarrow> outbox_db releaser" where
  "release_held get_ok update_ok has_worker now tenant mid db =
     (case get_by_id get_ok mid db of
        Inl _ \<Rightarrow> (Some ''reading the held message'', db)
      | Inr None \<Rightarrow> (Some ''held message is no longer in the outbox'', db)
      | Inr (Some e) \<Rightarrow>
          if oe_tenant_id e \<noteq> tenant then (Some ''held message does not belong to this tenant'', db)
          else if oe_status e \<noteq> OutboxStatusHeld then (None, db)
          else
            (case outbox_update update_ok
                    (e\<lparr>oe_status := OutboxStatusPending, oe_next_retry_at := now, oe_updated_at := now\<rparr>) db of
               (Inl _, db') \<Rightarrow> (Some ''releasing the held message'', db')
             | (Inr _, db') \<Rightarrow> (None, if has_worker then db'\<lparr>db_wake := True\<rparr> else db')))"

definition discard_held :: "bool \<Rightarrow> bool \<Rightarrow> outbox_db releaser" where
  "discard_held get_ok delete_ok tenant mid db =
     (case get_by_id get_ok mid db of
        Inl _ \<Rightarrow> (Some ''reading the held message'', db)
      | Inr None \<Rightarrow> (None, db)
      | Inr (Some e) \<Rightarrow>
          if oe_tenant_id e \<noteq> tenant then (Some ''held message does not belong to this tenant'', db)
          else if oe_status e \<noteq> OutboxStatusHeld then (None, db)
          else
            (case outbox_delete delete_ok mid db of
               (Inl _, db') \<Rightarrow> (Some ''deleting the held message'', db')
             | (Inr _, db') \<Rightarrow> (None, db')))"

definition prune_held :: "bool \<Rightarrow> time \<Rightarrow> table \<Rightarrow> outbox_db \<Rightarrow> (nat \<times> bool) \<times> outbox_db" where
  "prune_held ok older_than reviews db =
     (case outbox_prune_held ok older_than reviews db of
        (Inl _, db') \<Rightarrow> ((0, True), db')
      | (Inr n, db') \<Rightarrow> ((n, False), db'))"

section \<open>The tables keep their shape\<close>

definition wf_outbox :: "outbox_db \<Rightarrow> bool" where
  "wf_outbox db \<longleftrightarrow> distinct (map ob_id (db_rows db)) \<and>
     distinct (map (\<lambda>k. (ik_tenant_id k, ik_key k)) (db_keys db))"

datatype outbox_op =
    OCreate bool outbox_email
  | OCreateKeyed bool bool outbox_email idempotency_key time
  | OClaim bool bool time string nat duration
  | ORenew bool string string time
  | OUpdate bool outbox_email
  | ODelete bool string
  | OPruneTerminal bool time
  | OPruneHeld bool time table
  | OPruneKeys bool time
  | ORelease bool bool bool time string string
  | ODiscard bool bool string string

definition committed :: "outbox_db \<Rightarrow> (outbox_error, outbox_db) result \<Rightarrow> outbox_db" where
  "committed db res = (case res of Inl _ \<Rightarrow> db | Inr db' \<Rightarrow> db')"

primrec outbox_step :: "outbox_op \<Rightarrow> outbox_db \<Rightarrow> outbox_db" where
  "outbox_step (OCreate ok e) db = committed db (outbox_create ok e db)"
| "outbox_step (OCreateKeyed kok qok e k ls) db = committed db (create_with_idempotency_key kok qok e k ls db)"
| "outbox_step (OClaim ex rd now tok limit lease) db = snd (claim_pending ex rd now tok limit lease db)"
| "outbox_step (ORenew ok mid tok until) db = snd (renew_claim ok mid tok until db)"
| "outbox_step (OUpdate ok e) db = snd (outbox_update ok e db)"
| "outbox_step (ODelete ok mid) db = snd (outbox_delete ok mid db)"
| "outbox_step (OPruneTerminal ok before) db = snd (outbox_prune_terminal ok before db)"
| "outbox_step (OPruneHeld ok before reviews) db = snd (outbox_prune_held ok before reviews db)"
| "outbox_step (OPruneKeys ok before) db = snd (prune_idempotency_keys ok before db)"
| "outbox_step (ORelease g u hw now tenant mid) db = snd (release_held g u hw now tenant mid db)"
| "outbox_step (ODiscard g d tenant mid) db = snd (discard_held g d tenant mid db)"

lemma ids_take_claim [simp]: "ob_id (take_claim tok u now r) = ob_id r"
  by (simp add: take_claim_def)

lemma ids_settle [simp]: "ob_id (settle_row e r) = ob_id r"
  by (simp add: settle_row_def)

lemma ids_claim_rows [simp]: "map ob_id (claim_rows limit now tok u rows) = map ob_id rows"
  by (simp add: claim_rows_def map_update_where)

lemma claim_batch_row: "i \<in> set (claim_batch now limit rows) \<Longrightarrow> \<exists>r \<in> set rows. ob_id r = i \<and> claimable now r"
  unfolding claim_batch_def by (fastforce dest: in_set_takeD)

definition leased_to :: "time \<Rightarrow> outbox_row \<Rightarrow> bool" where
  "leased_to u r \<longleftrightarrow> ob_status r = OutboxStatusSending \<and> ob_claimed_until r = Some u"

interpretation outbox_lease: lease_table ob_id ob_claim_token leased_to claimable "claim_rows limit"
proof
  fix now tok u rows r
  show "map ob_id (claim_rows limit now tok u rows) = map ob_id rows" by simp
  show "r \<in> set (claim_rows limit now tok u rows)"
    if "distinct (map ob_id rows)" "r \<in> set rows" "\<not> claimable now r"
  proof -
    have "ob_id r \<notin> set (claim_batch now limit rows)"
      using claim_batch_row same_id_same_row that by metis
    with that(2) show ?thesis unfolding claim_rows_def by (rule update_where_miss)
  qed
  show "ob_claim_token r = Some tok \<and> leased_to u r \<and> (\<exists>r0 \<in> set rows. ob_id r0 = ob_id r \<and> claimable now r0)"
    if "r \<in> set (claim_rows limit now tok u rows)" "r \<notin> set rows"
  proof -
    from that(1) obtain r0 where r0: "r0 \<in> set rows"
      "r = (if ob_id r0 \<in> set (claim_batch now limit rows) then take_claim tok u now r0 else r0)"
      by (auto simp: claim_rows_def set_update_where)
    with that(2) have "ob_id r0 \<in> set (claim_batch now limit rows)" "r = take_claim tok u now r0"
      by (auto split: if_splits)
    with claim_batch_row show ?thesis by (auto simp: take_claim_def leased_to_def)
  qed
  show "\<not> claimable now r" if "leased_to u r" "now \<le> u"
    using that by (simp add: leased_to_def claimable_def)
qed

lemma get_by_id_Some:
  "get_by_id ok mid db = Inr (Some e) \<Longrightarrow>
   \<exists>r \<in> set (db_rows db). ob_id r = mid \<and> e = email_of [] r"
  by (auto simp: get_by_id_def split: if_splits dest: find_row_Some)

lemma wf_filtered:
  "wf_outbox db \<Longrightarrow> wf_outbox (db\<lparr>db_rows := delete_where p (db_rows db)\<rparr>)"
  "wf_outbox db \<Longrightarrow> wf_outbox (db\<lparr>db_keys := delete_where q (db_keys db)\<rparr>)"
  by (simp_all add: wf_outbox_def distinct_delete_where)

lemma wf_insert: "outbox_insert e db = Inr db' \<Longrightarrow> wf_outbox db \<Longrightarrow> wf_outbox db'"
  by (force simp: outbox_insert_def wf_outbox_def row_of_def split: if_splits)

lemma wf_keyed:
  assumes "create_with_idempotency_key kok qok e k ls db = Inr db'" "wf_outbox db"
  shows "wf_outbox db'"
proof -
  let ?keys = "delete_where (\<lambda>x. same_key (ik_tenant_id k) (ik_key k) x \<and> ik_created_at x < ls) (db_keys db)"
  from assms(1) have ins: "outbox_insert e (db\<lparr>db_keys := ?keys @ [k]\<rparr>) = Inr db'"
    and free: "\<forall>x \<in> set ?keys. \<not> same_key (ik_tenant_id k) (ik_key k) x"
    by (auto simp: create_with_idempotency_key_def Let_def split: if_splits)
  from wf_filtered(2) [OF assms(2)] free have "wf_outbox (db\<lparr>db_keys := ?keys @ [k]\<rparr>)"
    by (auto simp: wf_outbox_def same_key_def)
  with wf_insert [OF ins] show ?thesis by blast
qed

lemma wf_updated:
  "(\<And>r. ob_id (f r) = ob_id r) \<Longrightarrow> wf_outbox (db\<lparr>db_rows := update_where p f (db_rows db)\<rparr>) = wf_outbox db"
  by (simp add: wf_outbox_def map_update_where)

lemma wf_wake [simp]: "wf_outbox (db\<lparr>db_wake := x\<rparr>) = wf_outbox db"
  by (simp add: wf_outbox_def)

lemma wf_outbox_update: "wf_outbox (snd (outbox_update ok e db)) = wf_outbox db"
  by (simp add: outbox_update_def wf_updated)

lemma wf_outbox_step: "wf_outbox db \<Longrightarrow> wf_outbox (outbox_step op db)"
proof (cases op)
  case (OClaim ex rd now tok limit lease)
  then show "wf_outbox db \<Longrightarrow> ?thesis"
    by (simp add: claim_pending_def Let_def wf_outbox_def)
next
  case (ORelease g u hw now tenant mid)
  then show "wf_outbox db \<Longrightarrow> ?thesis"
    using wf_outbox_update
    by (simp add: release_held_def split: sum.split option.split prod.split) (metis snd_conv)
qed (auto simp: committed_def outbox_create_def renew_claim_def outbox_delete_def outbox_prune_terminal_def
    outbox_prune_held_def prune_idempotency_keys_def discard_held_def Let_def wf_outbox_update wf_updated
    split: sum.split option.split prod.split if_splits intro: wf_filtered wf_insert wf_keyed)

section \<open>A claim is exclusive until its deadline\<close>

definition owned :: "string \<Rightarrow> string \<Rightarrow> time \<Rightarrow> outbox_db \<Rightarrow> bool" where
  "owned i tok u db \<longleftrightarrow> wf_outbox db \<and>
     (\<exists>r \<in> set (db_rows db). ob_id r = i \<and> ob_claim_token r = Some tok \<and>
        ob_status r = OutboxStatusSending \<and> (\<exists>u' \<ge> u. ob_claimed_until r = Some u'))"

text \<open>
  The operations another caller may run while a worker holds message \<open>i\<close> under \<open>tok\<close> until \<open>u\<close>:
  anything but settling or deleting that message, claiming after the deadline, or shortening the
  lease under the worker's own token.
\<close>

primrec leaves_alone :: "string \<Rightarrow> string \<Rightarrow> time \<Rightarrow> outbox_op \<Rightarrow> bool" where
  "leaves_alone i tok u (OCreate ok e) = True"
| "leaves_alone i tok u (OCreateKeyed kok qok e k ls) = True"
| "leaves_alone i tok u (OClaim ex rd now tok' limit lease) = (now \<le> u)"
| "leaves_alone i tok u (ORenew ok mid tok' until) = (mid = i \<and> tok' = tok \<longrightarrow> u \<le> until)"
| "leaves_alone i tok u (OUpdate ok e) = (oe_mail_id e \<noteq> i)"
| "leaves_alone i tok u (ODelete ok mid) = (mid \<noteq> i)"
| "leaves_alone i tok u (OPruneTerminal ok before) = True"
| "leaves_alone i tok u (OPruneHeld ok before reviews) = True"
| "leaves_alone i tok u (OPruneKeys ok before) = True"
| "leaves_alone i tok u (ORelease g up hw now tenant mid) = True"
| "leaves_alone i tok u (ODiscard g d tenant mid) = True"

lemma rows_create:
  "outbox_insert e db = Inr db' \<Longrightarrow> set (db_rows db') = insert (row_of e) (set (db_rows db)) \<and>
     oe_mail_id e \<notin> ob_id ` set (db_rows db)"
  by (auto simp: outbox_insert_def split: if_splits)

lemma rows_keyed:
  "create_with_idempotency_key kok qok e k ls db = Inr db' \<Longrightarrow>
     set (db_rows db') = insert (row_of e) (set (db_rows db)) \<and> oe_mail_id e \<notin> ob_id ` set (db_rows db)"
  by (auto simp: create_with_idempotency_key_def Let_def dest!: rows_create split: if_splits)

lemma rows_claim: "db_rows (snd (claim_pending ex rd now tok limit lease db)) =
   (if ex then claim_rows limit now tok (now + lease) (db_rows db) else db_rows db)"
  by (simp add: claim_pending_def Let_def)

lemma held_row_untouched:
  assumes "wf_outbox db" "r \<in> set (db_rows db)" "ob_status r \<noteq> OutboxStatusHeld"
  shows "r \<in> set (db_rows (snd (release_held g up hw now tenant mid db)))"
    and "r \<in> set (db_rows (snd (discard_held g d tenant mid db)))"
proof -
  have other: "ob_id r \<noteq> mid" if "get_by_id g mid db = Inr (Some e)" "oe_status e = OutboxStatusHeld" for e
  proof
    assume "ob_id r = mid"
    moreover from get_by_id_Some [OF that(1)] obtain x where x: "x \<in> set (db_rows db)" "ob_id x = mid" "e = email_of [] x"
      by blast
    ultimately have "x = r" using assms(1,2) same_id_same_row [of ob_id "db_rows db" x r] by (simp add: wf_outbox_def)
    with x that(2) assms(3) show False by (simp add: email_of_def)
  qed
  show "r \<in> set (db_rows (snd (release_held g up hw now tenant mid db)))"
  proof (cases "\<exists>e. get_by_id g mid db = Inr (Some e) \<and> oe_status e = OutboxStatusHeld")
    case True
    then obtain e where e: "get_by_id g mid db = Inr (Some e)" "oe_status e = OutboxStatusHeld" by blast
    have id: "oe_mail_id e = mid" using get_by_id_Some [OF e(1)] by (auto simp: email_of_def)
    have "r \<in> set (update_where (\<lambda>x. ob_id x = mid) f (db_rows db))" for f
      using assms(2) other [OF e] by (intro update_where_miss) simp
    with e id assms(2) show ?thesis by (simp add: release_held_def outbox_update_def)
  qed (use assms(2) in \<open>auto simp: release_held_def split: sum.split option.split\<close>)
  show "r \<in> set (db_rows (snd (discard_held g d tenant mid db)))"
    using assms(2) other
    by (auto simp: discard_held_def outbox_delete_def in_delete_where split: sum.split option.split)
qed

lemma owned_step:
  assumes "leaves_alone i tok u op" "owned i tok u db"
  shows "owned i tok u (outbox_step op db)"
proof -
  from assms(2) obtain r u' where wf: "wf_outbox db" and r: "r \<in> set (db_rows db)" "ob_id r = i"
    "ob_claim_token r = Some tok" "ob_status r = OutboxStatusSending" "ob_claimed_until r = Some u'" "u \<le> u'"
    by (auto simp: owned_def)
  have "r \<in> set (db_rows (outbox_step op db)) \<or>
    (\<exists>v \<ge> u. r\<lparr>ob_claimed_until := Some v\<rparr> \<in> set (db_rows (outbox_step op db)))"
  proof (cases op)
    case (OCreate ok e)
    with r(1) show ?thesis
      by (auto simp: outbox_create_def committed_def split: sum.split dest: rows_create)
  next
    case (OCreateKeyed kok qok e k ls)
    with r(1) show ?thesis by (auto simp: committed_def split: sum.split dest: rows_keyed)
  next
    case (OClaim ex rd now tok' limit lease)
    have "leased_to u' r" using r by (simp add: leased_to_def)
    moreover have "now \<le> u'" using OClaim assms(1) r(6) by simp
    ultimately have "r \<in> set (claim_rows limit now tok' (now + lease) (db_rows db))"
      using outbox_lease.claim_keeps_lease wf r(1) by (simp add: wf_outbox_def)
    with OClaim r(1) show ?thesis by (simp add: rows_claim)
  next
    case (ORenew ok mid tok' until)
    show ?thesis
    proof (cases "ok \<and> renewable mid tok' r")
      case True
      then have "u \<le> until" using ORenew assms(1) r by (auto simp: renewable_def)
      moreover have "r\<lparr>ob_claimed_until := Some until\<rparr> \<in>
          set (update_where (renewable mid tok') (\<lambda>r. r\<lparr>ob_claimed_until := Some until\<rparr>) (db_rows db))"
        using update_where_hit [OF r(1), of "renewable mid tok'"] True by blast
      ultimately show ?thesis using ORenew True by (auto simp: renew_claim_def)
    next
      case False
      with r(1) ORenew show ?thesis by (auto simp: renew_claim_def update_where_miss)
    qed
  next
    case (OUpdate ok e)
    with r assms(1) show ?thesis by (simp add: outbox_update_def update_where_miss)
  qed (use r assms(1) held_row_untouched [OF wf r(1)] in \<open>auto simp: outbox_delete_def outbox_prune_terminal_def
      outbox_prune_held_def prune_idempotency_keys_def in_delete_where Let_def\<close>)
  then have "\<exists>x \<in> set (db_rows (outbox_step op db)). ob_id x = i \<and> ob_claim_token x = Some tok \<and>
      ob_status x = OutboxStatusSending \<and> (\<exists>v \<ge> u. ob_claimed_until x = Some v)"
  proof
    assume "\<exists>v \<ge> u. r\<lparr>ob_claimed_until := Some v\<rparr> \<in> set (db_rows (outbox_step op db))"
    then obtain v where "u \<le> v" "r\<lparr>ob_claimed_until := Some v\<rparr> \<in> set (db_rows (outbox_step op db))" by blast
    with r show ?thesis by (intro bexI [of _ "r\<lparr>ob_claimed_until := Some v\<rparr>"]) simp_all
  qed (use r in blast)
  with wf_outbox_step [OF wf] show ?thesis by (simp add: owned_def)
qed

interpretation claim_held: invariant_steps outbox_step "leaves_alone i tok u" "owned i tok u"
  by unfold_locales (rule owned_step)

lemma claim_returns:
  assumes "fst (claim_pending ex rd now tok limit lease db) = Inr es" "e \<in> set es"
  shows "ex \<and> (\<exists>r \<in> set (db_rows (snd (claim_pending ex rd now tok limit lease db))).
    ob_claim_token r = Some tok \<and> e = email_of tok r)"
  using assms by (auto simp: claim_pending_def Let_def holders_def split: if_splits)

lemma claim_returns_id:
  assumes "fst (claim_pending ex rd now tok limit lease db) = Inr es" "i \<in> oe_mail_id ` set es"
  shows "\<exists>r \<in> set (db_rows (snd (claim_pending ex rd now tok limit lease db))).
    ob_claim_token r = Some tok \<and> ob_id r = i"
proof -
  from assms(2) obtain e where e: "e \<in> set es" "i = oe_mail_id e" by auto
  from claim_returns [OF assms(1) e(1)] obtain r where
    "r \<in> set (db_rows (snd (claim_pending ex rd now tok limit lease db)))" "ob_claim_token r = Some tok" "e = email_of tok r"
    by blast
  with e(2) show ?thesis by (auto simp: email_of_def)
qed

lemma claim_gives_ownership:
  assumes "wf_outbox db" "holders ob_claim_token tok (db_rows db) = []"
    "claim_pending ex rd now tok limit lease db = (Inr es, db1)" "e \<in> set es"
  shows "owned (oe_mail_id e) tok (now + lease) db1"
proof -
  from claim_returns [of ex rd now tok limit lease db es e] assms(3,4)
  obtain r where r: "ex" "r \<in> set (db_rows db1)" "ob_claim_token r = Some tok" "e = email_of tok r" by auto
  have rows: "db_rows db1 = claim_rows limit now tok (now + lease) (db_rows db)"
    using rows_claim [of ex rd now tok limit lease db] r(1) assms(3) by simp
  have "leased_to (now + lease) r"
    using outbox_lease.claim_holders_due [of "db_rows db" tok r limit now "now + lease"] assms(1,2) r rows
    by (simp add: wf_outbox_def holders_def)
  moreover have "wf_outbox db1" using wf_outbox_step [OF assms(1), of "OClaim ex rd now tok limit lease"] assms(3) by simp
  ultimately show ?thesis using r by (auto simp: owned_def leased_to_def email_of_def)
qed

lemma owned_not_won:
  assumes "owned i tok u db" "now \<le> u" "tok' \<noteq> tok"
    "fst (claim_pending ex rd now tok' limit lease db) = Inr es"
  shows "i \<notin> oe_mail_id ` set es"
proof
  assume "i \<in> oe_mail_id ` set es"
  with claim_returns_id [OF assms(4)] obtain x where x: "x \<in> set (db_rows (snd (claim_pending ex rd now tok' limit lease db)))"
    "ob_claim_token x = Some tok'" "ob_id x = i" by blast
  have "owned i tok u (snd (claim_pending ex rd now tok' limit lease db))"
    using owned_step [of i tok u "OClaim ex rd now tok' limit lease" db] assms(1,2) by simp
  with x same_id_same_row [of ob_id] assms(3) show False
    unfolding owned_def wf_outbox_def by (metis option.inject)
qed

text \<open>
  C1. No two workers hold the same message. A message a worker claimed is in no other worker's
  batch before its lease ends, whatever else happens to the outbox in between: creations, claims,
  renewals, reviews, prunes, in any order and with any of them failing. Only settling the message
  itself gives it up.
\<close>

theorem claim_exclusive:
  assumes "wf_outbox db" "holders ob_claim_token tok (db_rows db) = []"
    "claim_pending ex rd now tok limit lease db = (Inr es, db1)" "i \<in> oe_mail_id ` set es"
    "list_all (leaves_alone i tok (now + lease)) ops"
    "(OClaim ex' rd' now' tok' limit' lease', db2) \<in> set (trace outbox_step ops db1)" "tok' \<noteq> tok"
    "fst (claim_pending ex' rd' now' tok' limit' lease' db2) = Inr es'"
  shows "i \<notin> oe_mail_id ` set es'"
proof -
  from assms(4) obtain e where e: "e \<in> set es" "i = oe_mail_id e" by auto
  have "owned i tok (now + lease) db1"
    using claim_gives_ownership [OF assms(1-3) e(1)] e(2) by simp
  then have "owned i tok (now + lease) db2"
    by (rule claim_held.trace_inv [OF assms(5) _ assms(6)])
  moreover have "now' \<le> now + lease"
  proof -
    have "OClaim ex' rd' now' tok' limit' lease' \<in> set ops"
      using assms(6) by (rule trace_op)
    with assms(5) show ?thesis by (auto simp: list_all_iff dest: bspec)
  qed
  ultimately show ?thesis using assms(7,8) by (rule owned_not_won)
qed

section \<open>A lost claim stays lost\<close>

definition not_holding :: "string \<Rightarrow> string \<Rightarrow> outbox_db \<Rightarrow> bool" where
  "not_holding i tok db \<longleftrightarrow> (\<forall>r \<in> set (db_rows db). ob_id r = i \<longrightarrow> ob_claim_token r \<noteq> Some tok)"

primrec claims_under :: "string \<Rightarrow> outbox_op \<Rightarrow> bool" where
  "claims_under tok (OCreate ok e) = False"
| "claims_under tok (OCreateKeyed kok qok e k ls) = False"
| "claims_under tok (OClaim ex rd now tok' limit lease) = (tok' = tok)"
| "claims_under tok (ORenew ok mid tok' until) = False"
| "claims_under tok (OUpdate ok e) = False"
| "claims_under tok (ODelete ok mid) = False"
| "claims_under tok (OPruneTerminal ok before) = False"
| "claims_under tok (OPruneHeld ok before reviews) = False"
| "claims_under tok (OPruneKeys ok before) = False"
| "claims_under tok (ORelease g up hw now tenant mid) = False"
| "claims_under tok (ODiscard g d tenant mid) = False"

lemma not_holding_update:
  assumes "not_holding i tok db" "\<And>r. ob_id (f r) = ob_id r" "\<And>r. ob_claim_token (f r) = Some tok \<Longrightarrow> ob_claim_token r = Some tok"
    "db_rows db' = update_where p f (db_rows db)"
  shows "not_holding i tok db'"
  using assms by (auto simp: not_holding_def set_update_where)

lemma not_holding_subset:
  "not_holding i tok db \<Longrightarrow> set (db_rows db') \<subseteq> set (db_rows db) \<Longrightarrow> not_holding i tok db'"
  by (auto simp: not_holding_def)

lemma not_holding_insert:
  "not_holding i tok db \<Longrightarrow> set (db_rows db') = insert (row_of e) (set (db_rows db)) \<Longrightarrow> not_holding i tok db'"
  by (auto simp: not_holding_def row_of_def)

lemma settle_token [simp]: "ob_claim_token (settle_row e r) = None"
  by (simp add: settle_row_def)

lemma not_holding_outbox_update:
  "not_holding i tok db \<Longrightarrow> not_holding i tok (snd (outbox_update ok e db))"
  by (cases ok) (auto simp: outbox_update_def intro: not_holding_update [where f = "settle_row e"])

lemma not_holding_wake [simp]: "not_holding i tok (db\<lparr>db_wake := x\<rparr>) = not_holding i tok db"
  by (simp add: not_holding_def)

lemma not_holding_release:
  "not_holding i tok db \<Longrightarrow> not_holding i tok (snd (release_held g up hw now tenant mid db))"
  using not_holding_outbox_update
  by (simp add: release_held_def split: sum.split option.split prod.split) (metis snd_conv)

lemma not_holding_step:
  assumes "\<not> claims_under tok op" "not_holding i tok db"
  shows "not_holding i tok (outbox_step op db)"
proof (cases op)
  case (OClaim ex rd now tok' limit lease)
  show ?thesis
  proof (cases ex)
    case True
    with OClaim assms show ?thesis
      by (auto intro!: not_holding_update [OF assms(2), where f = "take_claim tok' (now + lease) now"]
          simp: rows_claim claim_rows_def take_claim_def)
  qed (use OClaim assms(2) in \<open>simp add: claim_pending_def\<close>)
next
  case (ORenew ok mid tok' until)
  with assms(2) show ?thesis
    by (cases ok) (auto simp: renew_claim_def
        intro!: not_holding_update [OF assms(2), where f = "\<lambda>r. r\<lparr>ob_claimed_until := Some until\<rparr>"])
next
  case (OCreate ok e)
  with assms(2) show ?thesis
    by (auto simp: outbox_create_def committed_def split: sum.split dest!: rows_create intro: not_holding_insert)
next
  case (OCreateKeyed kok qok e k ls)
  with assms(2) show ?thesis
    by (auto simp: committed_def split: sum.split dest!: rows_keyed intro: not_holding_insert)
next
  case (ODiscard g d tenant mid)
  with assms(2) show ?thesis
    by (auto simp: discard_held_def outbox_delete_def in_delete_where intro!: not_holding_subset [OF assms(2)]
        split: sum.split option.split)
qed (use assms(2) in \<open>auto simp: outbox_delete_def outbox_prune_terminal_def outbox_prune_held_def
    prune_idempotency_keys_def in_delete_where Let_def not_holding_outbox_update not_holding_release
    intro!: not_holding_subset [OF assms(2)]\<close>)

interpretation claim_lost: invariant_steps outbox_step "\<lambda>op. \<not> claims_under tok op" "not_holding i tok"
  by unfold_locales (rule not_holding_step)

text \<open>
  A worker that lost its claim learns it. Once another worker's claim has taken a message over,
  every renewal under the old token reports false, whatever happens in between, because tokens are
  never used twice.
\<close>

theorem lost_claim_not_renewed:
  assumes "wf_outbox db" "claim_pending ex rd now tok' limit lease db = (Inr es, db1)" "i \<in> oe_mail_id ` set es"
    "tok \<noteq> tok'" "list_all (\<lambda>op. \<not> claims_under tok op) ops"
    "(ORenew True i tok until, db2) \<in> set (trace outbox_step ops db1)"
  shows "fst (renew_claim True i tok until db2) = Inr False"
proof -
  from assms(2,3) claim_returns_id [of ex rd now tok' limit lease db es i]
  obtain x where x: "x \<in> set (db_rows db1)" "ob_claim_token x = Some tok'" "ob_id x = i" by auto
  have "wf_outbox db1" using wf_outbox_step [OF assms(1), of "OClaim ex rd now tok' limit lease"] assms(2) by simp
  then have "y = x" if "y \<in> set (db_rows db1)" "ob_id y = i" for y
    using same_id_same_row [of ob_id "db_rows db1" y x] that x by (simp add: wf_outbox_def)
  then have "not_holding i tok db1" unfolding not_holding_def using x(2) assms(4) by (metis option.inject)
  then have "not_holding i tok db2" by (rule claim_lost.trace_inv [OF assms(5) _ assms(6)])
  then have "affected (renewable i tok) (db_rows db2) = 0"
    by (auto simp: affected_0_iff renewable_def not_holding_def)
  then show ?thesis by (simp add: renew_claim_def)
qed

section \<open>Idempotency keys\<close>

definition live_key :: "time \<Rightarrow> outbox_db \<Rightarrow> string \<times> string \<Rightarrow> bool" where
  "live_key since db tk \<longleftrightarrow> (\<exists>x \<in> set (db_keys db). same_key (fst tk) (snd tk) x \<and> since \<le> ik_created_at x)"

primrec accepts_key :: "string \<times> string \<Rightarrow> outbox_op \<Rightarrow> outbox_db \<Rightarrow> bool" where
  "accepts_key tk (OCreate ok e) db = False"
| "accepts_key tk (OCreateKeyed kok qok e k ls) db =
     (same_key (fst tk) (snd tk) k \<and>
      (case create_with_idempotency_key kok qok e k ls db of Inl _ \<Rightarrow> False | Inr _ \<Rightarrow> True))"
| "accepts_key tk (OClaim ex rd now tok' limit lease) db = False"
| "accepts_key tk (ORenew ok mid tok' until) db = False"
| "accepts_key tk (OUpdate ok e) db = False"
| "accepts_key tk (ODelete ok mid) db = False"
| "accepts_key tk (OPruneTerminal ok before) db = False"
| "accepts_key tk (OPruneHeld ok before reviews) db = False"
| "accepts_key tk (OPruneKeys ok before) db = False"
| "accepts_key tk (ORelease g up hw now tenant mid) db = False"
| "accepts_key tk (ODiscard g d tenant mid) db = False"

text \<open>The operations that reach past the window that starts at \<open>since\<close>.\<close>

primrec outside_window :: "time \<Rightarrow> string \<times> string \<Rightarrow> outbox_op \<Rightarrow> bool" where
  "outside_window since tk (OCreate ok e) = False"
| "outside_window since tk (OCreateKeyed kok qok e k ls) =
     (same_key (fst tk) (snd tk) k \<and> (since < ls \<or> ik_created_at k < since))"
| "outside_window since tk (OClaim ex rd now tok' limit lease) = False"
| "outside_window since tk (ORenew ok mid tok' until) = False"
| "outside_window since tk (OUpdate ok e) = False"
| "outside_window since tk (ODelete ok mid) = False"
| "outside_window since tk (OPruneTerminal ok before) = False"
| "outside_window since tk (OPruneHeld ok before reviews) = False"
| "outside_window since tk (OPruneKeys ok before) = (since < before)"
| "outside_window since tk (ORelease g up hw now tenant mid) = False"
| "outside_window since tk (ODiscard g d tenant mid) = False"

lemma keyed_Inr:
  assumes "create_with_idempotency_key kok qok e k ls db = Inr db'"
  shows "set (db_keys db') = insert k {x \<in> set (db_keys db). \<not> same_key (ik_tenant_id k) (ik_key k) x}"
    and "\<And>x. x \<in> set (db_keys db) \<Longrightarrow> same_key (ik_tenant_id k) (ik_key k) x \<Longrightarrow> ik_created_at x < ls"
    and "row_of e \<in> set (db_rows db')"
proof -
  let ?keys = "delete_where (\<lambda>x. same_key (ik_tenant_id k) (ik_key k) x \<and> ik_created_at x < ls) (db_keys db)"
  from assms have ins: "outbox_insert e (db\<lparr>db_keys := ?keys @ [k]\<rparr>) = Inr db'"
    and free: "\<forall>x \<in> set ?keys. \<not> same_key (ik_tenant_id k) (ik_key k) x"
    by (auto simp: create_with_idempotency_key_def Let_def split: if_splits)
  show expired: "ik_created_at x < ls" if "x \<in> set (db_keys db)" "same_key (ik_tenant_id k) (ik_key k) x" for x
  proof (rule ccontr)
    assume "\<not> ik_created_at x < ls"
    with that(1) have "x \<in> set ?keys" by (simp add: in_delete_where)
    with free that(2) show False by blast
  qed
  have "db_keys db' = ?keys @ [k]" using ins by (auto simp: outbox_insert_def split: if_splits)
  then show "set (db_keys db') = insert k {x \<in> set (db_keys db). \<not> same_key (ik_tenant_id k) (ik_key k) x}"
    using expired by (auto simp: in_delete_where)
  show "row_of e \<in> set (db_rows db')" using ins by (auto simp: outbox_insert_def split: if_splits)
qed

lemma keys_insert: "outbox_insert e db = Inr db' \<Longrightarrow> db_keys db' = db_keys db"
  by (auto simp: outbox_insert_def split: if_splits)

definition key_op :: "outbox_op \<Rightarrow> bool" where
  "key_op op = (case op of OCreateKeyed kok qok e k ls \<Rightarrow> True | OPruneKeys ok before \<Rightarrow> True | _ \<Rightarrow> False)"

lemma keys_step:
  assumes "\<not> key_op op"
  shows "db_keys (outbox_step op db) = db_keys db"
  using assms
  by (cases op) (auto simp: key_op_def committed_def outbox_create_def claim_pending_def renew_claim_def outbox_update_def
      outbox_delete_def outbox_prune_terminal_def outbox_prune_held_def release_held_def discard_held_def Let_def
      split: sum.split option.split dest: keys_insert)

lemma keyed_step:
  "outbox_step (OCreateKeyed kok qok e k ls) db =
     (case create_with_idempotency_key kok qok e k ls db of Inl _ \<Rightarrow> db | Inr db' \<Rightarrow> db')"
  by (simp add: committed_def)

lemma key_survives:
  assumes "x \<in> set (db_keys db)" "since \<le> ik_created_at x" "\<not> outside_window since (ik_tenant_id x, ik_key x) op"
  shows "x \<in> set (db_keys (outbox_step op db))"
proof (cases op)
  case (OCreateKeyed kok qok e k ls)
  show ?thesis
  proof (cases "create_with_idempotency_key kok qok e k ls db")
    case (Inr db')
    have "\<not> same_key (ik_tenant_id k) (ik_key k) x"
      using keyed_Inr(2) [OF Inr assms(1)] assms(2,3) OCreateKeyed by (auto simp: same_key_def)
    with keyed_Inr(1) [OF Inr] assms(1) OCreateKeyed Inr show ?thesis by (simp add: committed_def)
  qed (use assms(1) OCreateKeyed in \<open>simp add: committed_def\<close>)
next
  case (OPruneKeys ok before)
  with assms show ?thesis by (auto simp: prune_idempotency_keys_def in_delete_where)
qed (use assms(1) keys_step [of op db] in \<open>simp_all add: key_op_def\<close>)

interpretation key_once: single_use outbox_step wf_outbox "\<lambda>db tk. \<not> live_key since db tk" accepts_key
  "outside_window since"
proof
  fix op and db :: outbox_db and tk
  show "wf_outbox (outbox_step op db)" if "wf_outbox db" using that by (rule wf_outbox_step)
  show "\<not> live_key since db tk" if out: "\<not> outside_window since tk op" and acc: "accepts_key tk op db"
  proof -
    from acc obtain kok qok e k ls db' where op: "op = OCreateKeyed kok qok e k ls" "same_key (fst tk) (snd tk) k"
      and res: "create_with_idempotency_key kok qok e k ls db = Inr db'"
      by (cases op) (auto split: sum.splits)
    have "ik_created_at x < since" if "x \<in> set (db_keys db)" "same_key (fst tk) (snd tk) x" for x
      using keyed_Inr(2) [OF res that(1)] that(2) op out by (simp add: same_key_def)
    then show ?thesis unfolding live_key_def by (meson not_le)
  qed
  show "\<not> \<not> live_key since (outbox_step op db) tk"
    if out: "\<not> outside_window since tk op" and acc: "accepts_key tk op db"
  proof -
    from acc obtain kok qok e k ls db' where op: "op = OCreateKeyed kok qok e k ls" "same_key (fst tk) (snd tk) k"
      and res: "create_with_idempotency_key kok qok e k ls db = Inr db'"
      by (cases op) (auto split: sum.splits)
    with out keyed_Inr(1) [OF res] show ?thesis by (simp add: live_key_def committed_def)
  qed
  show "\<not> \<not> live_key since (outbox_step op db) tk"
    if out: "\<not> outside_window since tk op" and live: "\<not> \<not> live_key since db tk"
  proof -
    from live obtain x where x: "x \<in> set (db_keys db)" "same_key (fst tk) (snd tk) x" "since \<le> ik_created_at x"
      by (auto simp: live_key_def)
    then have "(ik_tenant_id x, ik_key x) = tk" by (simp add: same_key_def prod_eq_iff)
    with key_survives [OF x(1,3)] out x show ?thesis by (auto simp: live_key_def)
  qed
qed

text \<open>
  C15. One message per idempotency key. Within the window in which a key is live, at most one of the
  requests that carry it is queued, whatever their order and whatever else happens to the outbox.
\<close>

theorem idempotency_key_once:
  assumes "wf_outbox db" "list_all (\<lambda>op. \<not> outside_window since (tenant, key) op) ops"
  shows "length (filter (\<lambda>(op, t). accepts_key (tenant, key) op t) (trace outbox_step ops db)) \<le> 1"
  using assms by (rule key_once.at_most_one_win)

interpretation key_kept: invariant_steps outbox_step
  "\<lambda>op. \<not> outside_window (ik_created_at k) (ik_tenant_id k, ik_key k) op"
  "\<lambda>db. wf_outbox db \<and> k \<in> set (db_keys db)"
  by unfold_locales (auto intro: wf_outbox_step key_survives)

text \<open>
  C30. A repeated request is answered with its message. When a keyed request is accepted, its
  message and its key are both stored, and until the key expires a lookup returns that key with the
  message it was first used for, through any later operations on the outbox.
\<close>

theorem idempotent_replay:
  assumes "wf_outbox db" "create_with_idempotency_key True True e k ls db = Inr db1"
    "list_all (\<lambda>op. \<not> outside_window (ik_created_at k) (ik_tenant_id k, ik_key k) op) ops"
    "since \<le> ik_created_at k"
  shows "row_of e \<in> set (db_rows db1) \<and>
    get_idempotency_key True (ik_tenant_id k) (ik_key k) since (run outbox_step ops db1) = Inr (Some k)"
proof -
  let ?db = "run outbox_step ops db1"
  have "wf_outbox db1 \<and> k \<in> set (db_keys db1)"
    using wf_keyed [OF assms(2,1)] keyed_Inr(1) [OF assms(2)] by simp
  then have db: "wf_outbox ?db \<and> k \<in> set (db_keys ?db)"
    by (rule key_kept.run_inv [OF assms(3)])
  have "find_row (\<lambda>x. same_key (ik_tenant_id k) (ik_key k) x \<and> ik_created_at x \<ge> since) (db_keys ?db) = Some k"
    by (rule find_row_unique [where g = "\<lambda>x. (ik_tenant_id x, ik_key x)"])
      (use db assms(4) in \<open>auto simp: wf_outbox_def same_key_def\<close>)
  with keyed_Inr(3) [OF assms(2)] show ?thesis by (simp add: get_idempotency_key_def)
qed

section \<open>What a claim returns\<close>

lemma claim_batch_distinct: "distinct (map ob_id rows) \<Longrightarrow> distinct (claim_batch now limit rows)"
proof -
  assume d: "distinct (map ob_id rows)"
  then have "distinct (map ob_id (sort_key ob_created_at (filter (claimable now) rows)))"
    by (simp add: distinct_map inj_on_def)
  then show ?thesis unfolding claim_batch_def by (metis distinct_take take_map)
qed

lemma claim_batch_length: "length (claim_batch now limit rows) \<le> limit"
  by (simp add: claim_batch_def)

lemma claim_batch_all:
  "length (filter (claimable now) rows) \<le> limit \<Longrightarrow> r \<in> set rows \<Longrightarrow> claimable now r \<Longrightarrow>
   ob_id r \<in> set (claim_batch now limit rows)"
  by (simp add: claim_batch_def)

lemma holders_after_claim:
  assumes "distinct (map ob_id rows)" "holders ob_claim_token tok rows = []"
  shows "ob_id ` set (holders ob_claim_token tok (claim_rows limit now tok u rows)) = set (claim_batch now limit rows)"
proof -
  let ?B = "set (claim_batch now limit rows)"
  have none: "ob_claim_token r \<noteq> Some tok" if "r \<in> set rows" for r
    using assms(2) that by (auto simp: holders_def filter_empty_conv)
  have "ob_id ` set (holders ob_claim_token tok (claim_rows limit now tok u rows)) = ob_id ` {r \<in> set rows. ob_id r \<in> ?B}"
    using none by (force simp: holders_def claim_rows_def set_update_where take_claim_def image_iff split: if_splits)
  also have "\<dots> = ?B" using claim_batch_row by (auto simp: image_iff) metis
  finally show ?thesis .
qed

text \<open>
  A claim takes what is due. The messages it returns are distinct, no more than the limit and
  oldest first; each was due, so that none was held for review, failed, scheduled for later or under
  another worker's unexpired lease; and when the limit covers them every due message is returned.
\<close>

theorem claim_sound:
  assumes "wf_outbox db" "holders ob_claim_token tok (db_rows db) = []"
    "claim_pending ex rd now tok limit lease db = (Inr es, db')"
  shows "distinct (map oe_mail_id es) \<and> length es \<le> limit \<and> sorted (map oe_created_at es) \<and>
    (\<forall>e \<in> set es. oe_claim_token e = tok \<and>
       (\<exists>r \<in> set (db_rows db). ob_id r = oe_mail_id e \<and> claimable now r \<and> ob_status r \<noteq> OutboxStatusHeld)) \<and>
    (length (filter (claimable now) (db_rows db)) \<le> limit \<longrightarrow>
       (\<forall>r \<in> set (db_rows db). claimable now r \<longrightarrow> ob_id r \<in> oe_mail_id ` set es))"
proof (cases "claim_batch now limit (db_rows db) = []")
  case True
  then have "es = []" using assms(3) by (auto simp: claim_pending_def Let_def split: if_splits)
  moreover have "\<not> claimable now r" if "length (filter (claimable now) (db_rows db)) \<le> limit" "r \<in> set (db_rows db)" for r
    using claim_batch_all [OF that] True by auto
  ultimately show ?thesis by auto
next
  case False
  let ?rows = "claim_rows limit now tok (now + lease) (db_rows db)"
  let ?h = "holders ob_claim_token tok ?rows"
  have d: "distinct (map ob_id (db_rows db))" using assms(1) by (simp add: wf_outbox_def)
  have es: "es = map (email_of tok) (sort_key ob_created_at ?h)"
    using assms(3) False by (auto simp: claim_pending_def Let_def split: if_splits)
  have ids: "ob_id ` set ?h = set (claim_batch now limit (db_rows db))"
    by (rule holders_after_claim [OF d assms(2)])
  have dh: "distinct (map ob_id ?h)"
    using d by (simp add: holders_def distinct_map_filter)
  have "length ?h = card (ob_id ` set ?h)" using distinct_card [OF dh] by simp
  also have "\<dots> = length (claim_batch now limit (db_rows db))"
    unfolding ids using distinct_card [OF claim_batch_distinct [OF d]] .
  finally have len: "length ?h \<le> limit" using claim_batch_length by simp
  have eids: "oe_mail_id ` set es = set (claim_batch now limit (db_rows db))"
    unfolding ids [symmetric] by (auto simp: es email_of_def image_iff)
  show ?thesis
  proof (intro conjI ballI impI)
    show "distinct (map oe_mail_id es)"
      using dh by (simp add: es comp_def email_of_def distinct_map inj_on_def)
    show "length es \<le> limit" using len by (simp add: es)
    show "sorted (map oe_created_at es)"
      using sorted_sort_key [of ob_created_at ?h] by (simp add: es comp_def email_of_def)
    show "oe_claim_token e = tok" if "e \<in> set es" for e using that by (auto simp: es email_of_def)
    show "\<exists>r \<in> set (db_rows db). ob_id r = oe_mail_id e \<and> claimable now r \<and> ob_status r \<noteq> OutboxStatusHeld"
      if e: "e \<in> set es" for e
    proof -
      from e eids have "oe_mail_id e \<in> set (claim_batch now limit (db_rows db))" by blast
      from claim_batch_row [OF this] show ?thesis by (auto simp: claimable_def)
    qed
    show "ob_id r \<in> oe_mail_id ` set es"
      if "length (filter (claimable now) (db_rows db)) \<le> limit" "r \<in> set (db_rows db)" "claimable now r" for r
      unfolding eids using claim_batch_all that by blast
  qed
qed

section \<open>The outbox as the reviewer's outbound pipeline\<close>

definition outbox_queued :: "string \<Rightarrow> string \<Rightarrow> outbox_db \<Rightarrow> bool" where
  "outbox_queued tenant mid db \<longleftrightarrow> (\<exists>r \<in> set (db_rows db). ob_id r = mid \<and> ob_tenant_id r = tenant)"

definition outbox_held :: "string \<Rightarrow> outbox_db \<Rightarrow> bool" where
  "outbox_held mid db \<longleftrightarrow> (\<exists>r. find_row (\<lambda>r. ob_id r = mid) (db_rows db) = Some r \<and> ob_status r = OutboxStatusHeld)"

lemma find_row_update:
  "(\<And>r. P (f r) = P r) \<Longrightarrow> find_row P (update_where P f rows) = map_option f (find_row P rows)"
  by (induction rows) (auto simp: find_row_def update_where_def)

lemma find_row_delete: "find_row P (delete_where P rows) = None"
  by (simp add: find_row_None in_delete_where)

lemma release_held_row:
  assumes "release_held g up hw now tenant mid db = (None, db')"
  shows "\<exists>r. find_row (\<lambda>r. ob_id r = mid) (db_rows db) = Some r \<and> ob_tenant_id r = tenant \<and>
    (if ob_status r = OutboxStatusHeld
     then find_row (\<lambda>r. ob_id r = mid) (db_rows db') =
            Some (r\<lparr>ob_status := OutboxStatusPending, ob_next_retry_at := now, ob_updated_at := now,
                    ob_claim_token := None, ob_claimed_until := None\<rparr>)
     else db' = db)"
proof -
  from assms obtain r where g: "g" and r: "find_row (\<lambda>r. ob_id r = mid) (db_rows db) = Some r"
    by (auto simp: release_held_def get_by_id_def split: sum.splits option.splits if_splits)
  have mid: "ob_id r = mid" using find_row_Some [OF r] by simp
  show ?thesis
  proof (cases "ob_status r = OutboxStatusHeld")
    case True
    let ?e = "(email_of [] r)\<lparr>oe_status := OutboxStatusPending, oe_next_retry_at := now, oe_updated_at := now\<rparr>"
    from assms g r True have "ob_tenant_id r = tenant" "up"
      and rows: "db_rows db' = update_where (\<lambda>x. ob_id x = oe_mail_id ?e) (settle_row ?e) (db_rows db)"
      by (auto simp: release_held_def get_by_id_def email_of_def outbox_update_def split: if_splits)
    moreover have "oe_mail_id ?e = mid" using mid by (simp add: email_of_def)
    ultimately show ?thesis
      using r True by (auto simp: find_row_update settle_row_def email_of_def)
  qed (use assms g r in \<open>auto simp: release_held_def get_by_id_def email_of_def split: if_splits\<close>)
qed

lemma release_held_after:
  assumes "release_held g up hw now tenant mid db = (None, db')"
  shows "\<exists>r. find_row (\<lambda>r. ob_id r = mid) (db_rows db') = Some r \<and> ob_tenant_id r = tenant \<and>
    ob_status r \<noteq> OutboxStatusHeld"
proof -
  from release_held_row [OF assms] obtain r where r: "find_row (\<lambda>r. ob_id r = mid) (db_rows db) = Some r"
    "ob_tenant_id r = tenant" and after: "if ob_status r = OutboxStatusHeld
     then find_row (\<lambda>r. ob_id r = mid) (db_rows db') =
            Some (r\<lparr>ob_status := OutboxStatusPending, ob_next_retry_at := now, ob_updated_at := now,
                    ob_claim_token := None, ob_claimed_until := None\<rparr>)
     else db' = db" by blast
  show ?thesis by (cases "ob_status r = OutboxStatusHeld") (use r after in simp_all)
qed

lemma release_held_failed: "release_held g up hw now tenant mid db = (Some e, db') \<Longrightarrow> db' = db"
  by (auto simp: release_held_def outbox_update_def split: sum.splits option.splits if_splits)

interpretation held_mail: outbound_pipeline "release_held g up hw now" "discard_held g d" outbox_queued outbox_held
proof
  fix t p db db' e
  show "outbox_queued t p db' \<and> \<not> outbox_held p db'" if "release_held g up hw now t p db = (None, db')"
    using release_held_after [OF that] find_row_Some by (fastforce simp: outbox_queued_def outbox_held_def)
  show "db' = db" if "release_held g up hw now t p db = (Some e, db')" using that by (rule release_held_failed)
  show "release_held g up hw now t p db' = (None, db')" if rel: "release_held g up hw now t p db = (None, db')"
  proof -
    have "g" using rel by (auto simp: release_held_def get_by_id_def split: sum.splits option.splits if_splits)
    with release_held_row [OF rel] rel show ?thesis
      by (auto simp: release_held_def get_by_id_def email_of_def split: if_splits)
  qed
  show "\<not> outbox_held p db'" if "discard_held g d t p db = (None, db')"
    using that
    by (auto simp: discard_held_def get_by_id_def outbox_held_def outbox_delete_def email_of_def find_row_delete
        split: sum.splits option.splits if_splits)
qed

text \<open>
  C16. A released message is sent. When a reviewer's release of a held outbound message succeeds
  against the outbox, the message that was held there is pending and due from that moment, under
  nobody's lease, so that the next claim may take it.
\<close>

theorem released_mail_is_due:
  assumes "wf_table (w_rows w)" "rv_release_outbound rv = Some (release_held g up hw now)"
    "review_release rv ex rd now tenant qid b note w = (Inr r, w')"
    "fm_action r = ActionHold" "fm_direction r = DirectionOutbound"
    "outbox_held (fm_payload_ref r) (w_outbox w)" "now \<le> t"
  shows "\<exists>row \<in> set (db_rows (w_outbox w')). ob_id row = fm_payload_ref r \<and> ob_tenant_id row = tenant \<and>
    ob_status row = OutboxStatusPending \<and> ob_claim_token row = None \<and> claimable t row"
proof -
  note rel = release_Inr [OF assms(3)]
  obtain m where "reviewable tenant qid m" "r = decide StatusReleased b now note m"
    using q_review_Inr [OF assms(1) rel(1)] by blast
  then have "fm_tenant_id r = tenant" by (simp add: reviewable_def)
  then have "release_held g up hw now tenant (fm_payload_ref r) (w_outbox w) = (None, w_outbox w')"
    using rel(2,3) assms(2,4,5) by (auto simp: deliver_def split: if_splits prod.splits)
  from release_held_row [OF this] assms(6) obtain row where row: "ob_tenant_id row = tenant"
    "find_row (\<lambda>r'. ob_id r' = fm_payload_ref r) (db_rows (w_outbox w')) =
      Some (row\<lparr>ob_status := OutboxStatusPending, ob_next_retry_at := now, ob_updated_at := now,
              ob_claim_token := None, ob_claimed_until := None\<rparr>)"
    by (auto simp: outbox_held_def split: if_splits)
  from find_row_Some [OF row(2)] row(1) assms(7) show ?thesis
    by (intro bexI [OF _ conjunct1 [OF find_row_Some [OF row(2)]]]) (simp add: claimable_def)
qed

section \<open>The properties at concrete inputs\<close>

definition sample_mail :: outbox_email where
  "sample_mail =
     \<lparr>oe_mail_id = ''m1'', oe_tenant_id = ''t1'', oe_request = ''{}'', oe_status = OutboxStatusPending,
      oe_retry_count = 0, oe_next_retry_at = 1, oe_last_error = [], oe_created_at = 1,
      oe_updated_at = 1, oe_claim_token = []\<rparr>"

definition sample_db :: outbox_db where
  "sample_db = \<lparr>db_rows = [row_of sample_mail], db_keys = [], db_wake = False\<rparr>"

definition sample_claimed :: outbox_row where
  "sample_claimed = take_claim ''w1'' 105 5 (row_of sample_mail)"

lemma sample_db_facts: "wf_outbox sample_db" "holders ob_claim_token tok (db_rows sample_db) = []"
  by (simp_all add: sample_db_def wf_outbox_def holders_def row_of_def)

lemma sample_claim:
  "claim_pending True True 5 ''w1'' 10 100 sample_db =
     (Inr [email_of ''w1'' sample_claimed], sample_db\<lparr>db_rows := [sample_claimed]\<rparr>)"
  by (simp add: claim_pending_def Let_def claim_rows_def claim_batch_def claimable_def update_where_def
      holders_def take_claim_def sample_claimed_def sample_db_def row_of_def sample_mail_def)

lemma sample_claimed_id: "oe_mail_id (email_of ''w1'' sample_claimed) = ''m1''"
  by (simp add: email_of_def sample_claimed_def take_claim_def row_of_def sample_mail_def)

theorem claim_exclusive_witness:
  "claim_pending True True 5 ''w1'' 10 100 sample_db =
     (Inr [email_of ''w1'' sample_claimed], sample_db\<lparr>db_rows := [sample_claimed]\<rparr>) \<and>
   fst (claim_pending True True 50 ''w2'' 10 100 (sample_db\<lparr>db_rows := [sample_claimed]\<rparr>)) = Inr [] \<and>
   ''m1'' \<notin> oe_mail_id ` set ([] :: outbox_email list)"
proof -
  have two: "fst (claim_pending True True 50 ''w2'' 10 100 (sample_db\<lparr>db_rows := [sample_claimed]\<rparr>)) = Inr []"
    by (simp add: claim_pending_def Let_def claim_batch_def claimable_def sample_claimed_def take_claim_def
        row_of_def sample_mail_def)
  have "''m1'' \<notin> oe_mail_id ` set ([] :: outbox_email list)"
    by (rule claim_exclusive [OF sample_db_facts sample_claim, where ops = "[OClaim True True 50 ''w2'' 10 100]" and tok' = "''w2''"])
      (use two sample_claimed_id in simp_all)
  with two sample_claim show ?thesis by blast
qed

theorem lost_claim_not_renewed_witness:
  "fst (renew_claim True ''m1'' ''w0'' 500 (sample_db\<lparr>db_rows := [sample_claimed]\<rparr>)) = Inr False"
  by (rule lost_claim_not_renewed [OF sample_db_facts(1) sample_claim, where ops = "[ORenew True ''m1'' ''w0'' 500]"])
    (use sample_claimed_id in simp_all)

definition sample_key :: idempotency_key where
  "sample_key = \<lparr>ik_tenant_id = ''t1'', ik_key = ''k'', ik_request_hash = ''h'', ik_message_id = ''m2'', ik_created_at = 10\<rparr>"

definition keyed_mail :: outbox_email where
  "keyed_mail = sample_mail\<lparr>oe_mail_id := ''m2''\<rparr>"

theorem idempotency_key_once_witness:
  "length (filter (\<lambda>(op, t). accepts_key (''t1'', ''k'') op t)
     (trace outbox_step [OCreateKeyed True True keyed_mail sample_key 3,
                         OCreateKeyed True True (keyed_mail\<lparr>oe_mail_id := ''m3''\<rparr>) sample_key 4] sample_db)) \<le> 1"
  by (rule idempotency_key_once [where since = 5]) (simp_all add: sample_db_facts sample_key_def same_key_def)

lemma sample_keyed:
  "create_with_idempotency_key True True keyed_mail sample_key 3 sample_db =
     Inr (sample_db\<lparr>db_keys := [sample_key], db_rows := [row_of sample_mail, row_of keyed_mail]\<rparr>)"
  by (simp add: create_with_idempotency_key_def Let_def outbox_insert_def sample_db_def delete_where_def
      row_of_def keyed_mail_def sample_mail_def)

theorem idempotent_replay_witness:
  "get_idempotency_key True ''t1'' ''k'' 7
     (run outbox_step [OClaim True True 20 ''w1'' 5 100, OPruneKeys True 9]
       (sample_db\<lparr>db_keys := [sample_key], db_rows := [row_of sample_mail, row_of keyed_mail]\<rparr>)) = Inr (Some sample_key)"
proof -
  have k: "ik_tenant_id sample_key = ''t1''" "ik_key sample_key = ''k''" "ik_created_at sample_key = 10"
    by (simp_all add: sample_key_def)
  have h: "list_all (\<lambda>op. \<not> outside_window (ik_created_at sample_key) (ik_tenant_id sample_key, ik_key sample_key) op)
    [OClaim True True 20 ''w1'' 5 100, OPruneKeys True 9]" "7 \<le> ik_created_at sample_key"
    by (simp_all add: k)
  from idempotent_replay [OF sample_db_facts(1) sample_keyed h] show ?thesis unfolding k by blast
qed

theorem claim_sound_witness:
  "claim_pending True True 5 ''w1'' 10 100 sample_db =
     (Inr [email_of ''w1'' sample_claimed], sample_db\<lparr>db_rows := [sample_claimed]\<rparr>) \<and>
   (\<exists>r \<in> set (db_rows sample_db). ob_id r = ''m1'' \<and> claimable 5 r)"
  using claim_sound [OF sample_db_facts sample_claim] sample_claim sample_claimed_id by auto

definition held_db :: outbox_db where
  "held_db = sample_db\<lparr>db_rows := [row_of (sample_mail\<lparr>oe_status := OutboxStatusHeld\<rparr>)]\<rparr>"

definition held_world :: "(outbox_db, unit) review_world" where
  "held_world = \<lparr>w_rows = [sample_held], w_outbox = held_db, w_inbound = (), w_notes = []\<rparr>"

definition held_reviewer :: "(outbox_db, unit) reviewer" where
  "held_reviewer =
     \<lparr>rv_release_outbound = Some (release_held True True True 5), rv_discard_outbound = Some (discard_held True True),
      rv_release_inbound = None, rv_notifier = False\<rparr>"

theorem released_mail_is_due_witness:
  "\<exists>row \<in> set (db_rows (w_outbox (snd (review_release held_reviewer True True 5 ''t1'' ''q1'' ''ann'' [] held_world)))).
     ob_id row = ''m1'' \<and> claimable 6 row"
proof -
  let ?res = "review_release held_reviewer True True 5 ''t1'' ''q1'' ''ann'' [] held_world"
  have wf: "wf_table (w_rows held_world)" by (simp add: held_world_def wf_table_def)
  have del: "fst (deliver held_reviewer sample_released (held_world\<lparr>w_rows := [sample_released]\<rparr>)) = None"
    by (simp add: deliver_def held_reviewer_def held_world_def sample_released_def decide_def sample_held_def
        release_held_def get_by_id_def find_row_def held_db_def sample_db_def row_of_def sample_mail_def email_of_def
        outbox_update_def)
  have "fst ?res = Inr sample_released"
    using sample_review del
    by (auto simp: review_release_def held_world_def split: prod.splits option.splits)
  then have eq: "?res = (Inr sample_released, snd ?res)" by (metis prod.collapse)
  have rv: "rv_release_outbound held_reviewer = Some (release_held True True True 5)" by (simp add: held_reviewer_def)
  have m: "fm_action sample_released = ActionHold" "fm_direction sample_released = DirectionOutbound"
    "fm_payload_ref sample_released = ''m1''"
    by (simp_all add: sample_released_def sample_held_def)
  have held: "outbox_held (fm_payload_ref sample_released) (w_outbox held_world)"
    by (simp add: m outbox_held_def held_world_def held_db_def find_row_def row_of_def sample_mail_def)
  have "(5::int) \<le> 6" by simp
  from released_mail_is_due [OF wf rv eq m(1,2) held this] show ?thesis unfolding m by blast
qed

end
