(* ===== verification/Bounce_Class.thy ===== *)
theory Bounce_Class
  imports Go_Prelude
begin

text \<open>
  The classifier of delivery errors, \<open>pkg/emailutil/bounce.go\<close>, and the event types of
  \<open>api/panmail/v1/event.pb.go\<close>.

  Each regular expression of the source is a scanner here. \<open>^\<close> is the start of the text and \<open>$\<close> its
  end; \<open>\d\<close> and \<open>\s\<close> are Go's ASCII classes. A match of a whole-code pattern may start where the
  text starts or behind a byte that is neither a digit nor a dot, which the scanners carry as a
  Boolean. \<open>ReplaceAllString\<close> on the address pattern removes every maximal run of address bytes that
  has an @ with a byte on either side of it within the run.
\<close>

section \<open>Event types and verdicts\<close>

datatype email_event_type =
    EventUnspecified | EventSent | EventDelivered | EventOpened | EventClicked | EventBounced
  | EventHardBounce | EventSoftBounce | EventSpamReport | EventUnsubscribed | EventDropped
  | EventRejected | EventPending | EventDeferred | EventComplained

record classification =
  cl_type :: email_event_type
  cl_recipient_at_fault :: bool
  cl_retryable :: bool

section \<open>The patterns\<close>

definition recipient_hard_bounce_patterns :: "string list" where
  "recipient_hard_bounce_patterns =
     [''user unknown'', ''no such user'', ''no such recipient'',
      ''mailbox not found'', ''mailbox unavailable'', ''invalid recipient'',
      ''recipient address rejected'', ''address rejected'', ''account disabled'',
      ''user doesn'' @ CHR 0x27 # ''t exist'', ''user does not exist'', ''unknown recipient'',
      ''recipient not found'', ''does not exist'']"

definition complaint_patterns :: "string list" where
  "complaint_patterns =
     [''feedback loop'', ''spam complaint'', ''abuse complaint'', ''complained'',
      ''marked as spam'', ''reported as spam'']"

definition content_rejection_patterns :: "string list" where
  "content_rejection_patterns =
     [''spam'', ''unacceptable content'', ''policy violation'', ''content rejected'',
      ''message rejected'', ''virus'', ''malware'', ''phishing'']"

definition unsubscribe_patterns :: "string list" where
  "unsubscribe_patterns = [''unsubscribed'', ''opted out'']"

definition transient_patterns :: "string list" where
  "transient_patterns =
     [''mailbox full'', ''quota exceeded'', ''storage full'', ''over quota'',
      ''connection timed out'', ''connection refused'', ''connection reset'',
      ''i/o timeout'', ''no route to host'', ''network is unreachable'',
      ''server busy'', ''try again later'', ''greylist'', ''greylisted'',
      ''rate limit'', ''too many messages'', ''too many connections'',
      ''temporary failure'', ''temporarily deferred'', ''deferred'',
      ''context deadline exceeded'', ''eof'']"

definition infrastructure_patterns :: "string list" where
  "infrastructure_patterns =
     [''authentication failed'', ''authentication credentials'', ''auth failed'',
      ''invalid credentials'', ''username and password not accepted'',
      ''relay access denied'', ''relaying denied'', ''relay denied'',
      ''not authorized to send'', ''sender address rejected'',
      ''blacklisted'', ''blocklisted'',
      ''certificate'', ''x509'', ''tls'', ''ssl'',
      ''unable to look up host'', ''no such host'', ''dns'',
      ''connection closed by remote host'']"

definition recipient_hard_bounce_codes :: "string list" where
  "recipient_hard_bounce_codes = [''5.1.1'', ''5.1.2'', ''5.1.3'', ''5.1.6'', ''5.1.10'']"

definition infrastructure_codes :: "string list" where
  "infrastructure_codes = [''5.7.0'', ''5.7.8'', ''5.7.9'']"

definition contains_any :: "string \<Rightarrow> string list \<Rightarrow> bool" where
  "contains_any s patterns \<longleftrightarrow> list_ex (contains_str s) patterns"

section \<open>The scanners\<close>

definition is_digit :: "char \<Rightarrow> bool" where
  "is_digit c \<longleftrightarrow> 48 \<le> (of_char c :: nat) \<and> (of_char c :: nat) \<le> 57"

definition code_char :: "char \<Rightarrow> bool" where
  "code_char c \<longleftrightarrow> is_digit c \<or> c = CHR ''.''"

definition ends_code :: "string \<Rightarrow> bool" where
  "ends_code s = (case s of [] \<Rightarrow> True | c # _ \<Rightarrow> \<not> code_char c)"

fun scan_codes :: "(string \<Rightarrow> bool) \<Rightarrow> bool \<Rightarrow> string \<Rightarrow> bool" where
  "scan_codes here bound [] = False"
| "scan_codes here bound (c # s) = (bound \<and> here (c # s) \<or> scan_codes here (\<not> code_char c) s)"

definition enhanced_code_pattern :: "string list \<Rightarrow> string \<Rightarrow> bool" where
  "enhanced_code_pattern codes s =
     scan_codes (\<lambda>t. list_ex (\<lambda>c. prefix c t \<and> ends_code (drop (length c) t)) codes) True s"

definition digit_group :: "string \<Rightarrow> string option" where
  "digit_group s =
     (let n = length (takeWhile is_digit s) in if 1 \<le> n \<and> n \<le> 3 then Some (drop n s) else None)"

definition transient_code_at :: "string \<Rightarrow> bool" where
  "transient_code_at s =
     (prefix ''4.'' s \<and>
      (case digit_group (drop 2 s) of
         None \<Rightarrow> False
       | Some t \<Rightarrow> prefix ''.'' t \<and>
           (case digit_group (drop 1 t) of None \<Rightarrow> False | Some u \<Rightarrow> ends_code u)))"

definition transient_codes :: "string \<Rightarrow> bool" where
  "transient_codes s = scan_codes transient_code_at True s"

definition reply_boundary :: "char \<Rightarrow> bool" where
  "reply_boundary c \<longleftrightarrow> (of_char c :: nat) \<in> {9, 10, 12, 13, 32} \<or> c = CHR '':''"

definition reply_code_at :: "string \<Rightarrow> bool" where
  "reply_code_at s =
     (case s of
        a # b # c # t \<Rightarrow>
          a \<in> set ''2345'' \<and> is_digit b \<and> is_digit c \<and>
          (case t of [] \<Rightarrow> True | d # _ \<Rightarrow> d \<in> set '' -'')
      | _ \<Rightarrow> False)"

text \<open>The text from the first basic reply code on, if there is one.\<close>

fun find_reply :: "bool \<Rightarrow> string \<Rightarrow> string option" where
  "find_reply bound [] = None"
| "find_reply bound (c # s) =
     (if bound \<and> reply_code_at (c # s) then Some (c # s) else find_reply (reply_boundary c) s)"

definition address_char :: "char \<Rightarrow> bool" where
  "address_char c \<longleftrightarrow>
     (of_char c :: nat) \<notin> {9, 10, 12, 13, 32} \<union> {60, 62, 40, 41, 91, 93, 34, 39, 44, 59, 58}"

definition is_address :: "string \<Rightarrow> bool" where
  "is_address run \<longleftrightarrow> CHR ''@'' \<in> set (butlast (drop 1 run))"

function strip_addresses :: "string \<Rightarrow> string" where
  "strip_addresses [] = []"
| "strip_addresses (c # s) =
     (if address_char c
      then (let run = c # takeWhile address_char s
            in (if is_address run then [] else run) @ strip_addresses (dropWhile address_char s))
      else c # strip_addresses s)"
  by pat_completeness auto
termination
  by (relation "measure length") (auto simp: less_Suc_eq_le length_dropWhile_le)

section \<open>ClassifyError\<close>

definition reply_part :: "string \<Rightarrow> string \<times> string" where
  "reply_part text = (case find_reply True text of None \<Rightarrow> (text, []) | Some r \<Rightarrow> (r, take 3 r))"

definition verdict :: "email_event_type \<Rightarrow> bool \<Rightarrow> bool \<Rightarrow> classification" where
  "verdict t fault retry = \<lparr>cl_type = t, cl_recipient_at_fault = fault, cl_retryable = retry\<rparr>"

definition classify_error :: "string \<Rightarrow> classification" where
  "classify_error err_str =
     (if err_str = [] then verdict EventUnspecified False False
      else
        let text = strip_addresses (to_lower err_str);
            (reply, code) = reply_part text
        in if contains_any text infrastructure_patterns \<or> enhanced_code_pattern infrastructure_codes text
           then verdict EventRejected False True
           else if prefix ''4'' code \<or> transient_codes reply \<or> contains_any reply transient_patterns
           then verdict EventSoftBounce False True
           else if contains_any reply unsubscribe_patterns then verdict EventUnsubscribed True False
           else if contains_any reply complaint_patterns then verdict EventSpamReport True False
           else if contains_any reply content_rejection_patterns then verdict EventRejected False False
           else if enhanced_code_pattern recipient_hard_bounce_codes reply \<or>
                   contains_any reply recipient_hard_bounce_patterns
           then verdict EventHardBounce True False
           else verdict EventBounced False True)"

section \<open>Whole codes only\<close>

lemma scan_codes_iff:
  "scan_codes here bound s \<longleftrightarrow>
     (\<exists>pre c post. s = pre @ c # post \<and> here (c # post) \<and>
        (pre = [] \<and> bound \<or> pre \<noteq> [] \<and> \<not> code_char (last pre)))"
proof (induction s arbitrary: bound)
  case (Cons a s)
  have "(\<exists>pre c post. a # s = pre @ c # post \<and> here (c # post) \<and>
          (pre = [] \<and> bound \<or> pre \<noteq> [] \<and> \<not> code_char (last pre))) \<longleftrightarrow>
        bound \<and> here (a # s) \<or>
        (\<exists>pre c post. s = pre @ c # post \<and> here (c # post) \<and>
          (pre = [] \<and> \<not> code_char a \<or> pre \<noteq> [] \<and> \<not> code_char (last pre)))"
    (is "?L \<longleftrightarrow> ?R")
  proof
    assume ?L
    then obtain pre c post where *: "a # s = pre @ c # post" "here (c # post)"
      "pre = [] \<and> bound \<or> pre \<noteq> [] \<and> \<not> code_char (last pre)" by blast
    show ?R
    proof (cases pre)
      case (Cons x xs)
      with * show ?thesis by (intro disjI2 exI [of _ xs] exI [of _ c] exI [of _ post]) (auto split: if_splits)
    qed (use * in auto)
  next
    assume ?R
    then show ?L
    proof
      assume "\<exists>pre c post. s = pre @ c # post \<and> here (c # post) \<and>
          (pre = [] \<and> \<not> code_char a \<or> pre \<noteq> [] \<and> \<not> code_char (last pre))"
      then obtain pre c post where "s = pre @ c # post" "here (c # post)"
        "pre = [] \<and> \<not> code_char a \<or> pre \<noteq> [] \<and> \<not> code_char (last pre)" by blast
      then show ?L by (intro exI [of _ "a # pre"] exI [of _ c] exI [of _ post]) (auto split: if_splits)
    qed (auto intro: exI [of _ "[]"])
  qed
  with Cons.IH [of "\<not> code_char a"] show ?case by simp
qed simp

definition detached :: "(char \<Rightarrow> bool) \<Rightarrow> string \<Rightarrow> string \<Rightarrow> bool" where
  "detached inside pre post \<longleftrightarrow> (pre = [] \<or> \<not> inside (last pre)) \<and> (post = [] \<or> \<not> inside (hd post))"

lemma ends_code_hd: "ends_code s \<longleftrightarrow> s = [] \<or> \<not> code_char (hd s)"
  by (cases s) (simp_all add: ends_code_def)

text \<open>
  An enhanced status code is matched whole. The pattern built from a list of codes matches a
  text exactly when one of the codes stands in it with no digit and no dot on either side, so no
  code is read out of an address, a port or a longer code.
\<close>

theorem codes_match_whole:
  assumes "[] \<notin> set codes"
  shows "enhanced_code_pattern codes s \<longleftrightarrow>
    (\<exists>pre c post. s = pre @ c @ post \<and> c \<in> set codes \<and> detached code_char pre post)"
    (is "_ \<longleftrightarrow> ?R")
proof
  assume "enhanced_code_pattern codes s"
  then obtain pre x rest where p: "s = pre @ x # rest" "pre = [] \<or> \<not> code_char (last pre)"
    "\<exists>c \<in> set codes. prefix c (x # rest) \<and> ends_code (drop (length c) (x # rest))"
    unfolding enhanced_code_pattern_def scan_codes_iff list_ex_iff by auto
  then obtain c where "c \<in> set codes" "prefix c (x # rest)" "ends_code (drop (length c) (x # rest))" by blast
  with p(1,2) show ?R
    by (intro exI [of _ pre] exI [of _ c] exI [of _ "drop (length c) (x # rest)"])
      (auto simp: detached_def ends_code_hd prefix_def)
next
  assume ?R
  then obtain pre c post where *: "s = pre @ c @ post" "c \<in> set codes" "detached code_char pre post"
    by blast
  with assms obtain x xs where c: "c = x # xs" by (cases c) auto
  have "\<exists>c \<in> set codes. prefix c (x # xs @ post) \<and> ends_code (drop (length c) (x # xs @ post))"
    using * by (intro bexI [of _ c]) (simp_all add: c detached_def ends_code_hd)
  with * show "enhanced_code_pattern codes s"
    unfolding enhanced_code_pattern_def scan_codes_iff list_ex_iff
    by (rule_tac x = pre in exI, rule_tac x = x in exI, rule_tac x = "xs @ post" in exI)
      (auto simp: c detached_def)
qed

section \<open>The address does not decide\<close>

lemma address_char_lower [simp]: "address_char (to_lower_char c) = address_char c"
  by (auto simp: address_char_def to_lower_char_def Let_def)

lemma at_sign: "c = CHR ''@'' \<longleftrightarrow> (of_char c :: nat) = 64"
  using of_char_eq_iff [of c "CHR ''@''", where ?'a = nat] by simp

lemma at_lower [simp]: "to_lower_char c = CHR ''@'' \<longleftrightarrow> c = CHR ''@''"
  unfolding at_sign by (auto simp: to_lower_char_def Let_def)

lemma is_address_lower [simp]: "is_address (to_lower run) = is_address run"
proof -
  have "CHR ''@'' \<in> to_lower_char ` A \<longleftrightarrow> CHR ''@'' \<in> A" for A
    by (metis (no_types, lifting) at_lower image_iff)
  then show ?thesis by (simp add: is_address_def to_lower_def drop_map map_butlast [symmetric])
qed

lemma to_lower_append [simp]: "to_lower (xs @ ys) = to_lower xs @ to_lower ys"
  by (simp add: to_lower_def)

lemma strip_append:
  "pre = [] \<or> \<not> address_char (last pre) \<Longrightarrow> strip_addresses (pre @ s) = strip_addresses pre @ strip_addresses s"
proof (induction pre rule: strip_addresses.induct)
  case (2 c t)
  show ?case
  proof (cases "address_char c")
    case True
    with 2(3) have "t \<noteq> []" "\<not> address_char (last t)" by (auto split: if_splits)
    then have last: "last t \<in> set t" by simp
    have "takeWhile address_char (t @ s) = takeWhile address_char t"
      "dropWhile address_char (t @ s) = dropWhile address_char t @ s"
      using last \<open>\<not> address_char (last t)\<close> by (meson takeWhile_append1 dropWhile_append1)+
    moreover have "dropWhile address_char t = [] \<or> \<not> address_char (last (dropWhile address_char t))"
      by (metis \<open>\<not> address_char (last t)\<close> last_append dropWhile_eq_self_iff takeWhile_dropWhile_id)
    ultimately show ?thesis using 2(1) [OF True refl] True by (simp add: Let_def)
  next
    case False
    with 2(2,3) show ?thesis by (auto split: if_splits)
  qed
qed simp

lemma strip_run:
  assumes "list_all address_char a" "is_address a" "post = [] \<or> \<not> address_char (hd post)"
  shows "strip_addresses (a @ post) = strip_addresses post"
proof -
  from assms(2) obtain c s where a: "a = c # s" by (cases a) (auto simp: is_address_def)
  have "takeWhile address_char (s @ post) = s" "dropWhile address_char (s @ post) = post"
    using assms(1,3) by (cases post; simp add: a list_all_iff)+
  with assms(1,2) show ?thesis by (simp add: a Let_def)
qed

lemma strip_embedded:
  assumes "list_all address_char a" "is_address a" "detached address_char pre post"
  shows "strip_addresses (to_lower (pre @ a @ post)) = strip_addresses (to_lower pre) @ strip_addresses (to_lower post)"
proof -
  have "strip_addresses (to_lower a @ to_lower post) = strip_addresses (to_lower post)"
    using assms is_address_lower [of a]
    by (intro strip_run) (auto simp: detached_def list_all_iff to_lower_def hd_map)
  moreover have "to_lower pre = [] \<or> \<not> address_char (last (to_lower pre))"
    using assms(3) by (auto simp: detached_def to_lower_def last_map)
  ultimately show ?thesis by (simp add: strip_append)
qed

text \<open>
  C22. The verdict does not depend on whose address the error names. Replacing an address in an
  error by any other, where it stands between bytes that cannot belong to an address, leaves the
  classification as it was.
\<close>

theorem verdict_ignores_address:
  assumes "list_all address_char a" "is_address a" "list_all address_char b" "is_address b"
    "detached address_char pre post"
  shows "classify_error (pre @ a @ post) = classify_error (pre @ b @ post)"
proof -
  have "a \<noteq> []" "b \<noteq> []" using assms(2,4) by (auto simp: is_address_def)
  with strip_embedded [OF assms(1,2,5)] strip_embedded [OF assms(3,4,5)] show ?thesis
    by (simp add: classify_error_def del: to_lower_append)
qed

section \<open>Who is blamed, and what is final\<close>

lemma verdict_sel [simp]:
  "cl_type (verdict t f r) = t" "cl_recipient_at_fault (verdict t f r) = f" "cl_retryable (verdict t f r) = r"
  by (simp_all add: verdict_def)

lemmas verdict_cases = classify_error_def Let_def case_prod_beta

text \<open>
  Three verdicts blame the recipient, and a verdict that blames is never retried. The comment in
  \<open>queue_worker.go\<close> counts two of them and leaves out the spam report.
\<close>

lemma fault_types:
  "cl_recipient_at_fault (classify_error e) \<longleftrightarrow>
     cl_type (classify_error e) \<in> {EventHardBounce, EventUnsubscribed, EventSpamReport}"
  by (simp add: verdict_cases)

lemma fault_is_final: "cl_recipient_at_fault (classify_error e) \<Longrightarrow> \<not> cl_retryable (classify_error e)"
  by (simp add: verdict_cases split: if_splits)

lemma final_types:
  "\<not> cl_retryable (classify_error e) \<Longrightarrow> e \<noteq> [] \<Longrightarrow>
   cl_type (classify_error e) \<in> {EventHardBounce, EventUnsubscribed, EventSpamReport, EventRejected}"
  by (simp add: verdict_cases split: if_splits)

lemma bounced_retryable:
  "cl_type (classify_error e) \<in> {EventBounced, EventSoftBounce} \<Longrightarrow> cl_retryable (classify_error e)"
  by (simp add: verdict_cases split: if_splits)

lemma never_delivered: "cl_type (classify_error e) \<noteq> EventDelivered" "cl_type (classify_error e) \<noteq> EventDeferred"
  by (simp_all add: verdict_cases)

text \<open>
  A temporary answer blames nobody. When the server's reply has a code of class 4, basic or
  enhanced, the message may be retried and no verdict is passed on the recipient, whatever else the
  reply says.
\<close>

lemma temporary_reply_blames_nobody:
  assumes "e \<noteq> []" "reply_part (strip_addresses (to_lower e)) = (reply, code)"
    "prefix ''4'' code \<or> transient_codes reply"
  shows "cl_retryable (classify_error e) \<and> \<not> cl_recipient_at_fault (classify_error e) \<and>
    cl_type (classify_error e) \<in> {EventRejected, EventSoftBounce}"
  using assms by (auto simp: verdict_cases)

section \<open>Instances\<close>

definition sample_refusal :: string where
  "sample_refusal = ''smtp rcpt to <''"

definition sample_unknown :: string where
  "sample_unknown = ''>: 550 5.1.1 user unknown''"

theorem codes_match_whole_witness:
  "enhanced_code_pattern recipient_hard_bounce_codes ''550 5.1.1 user unknown'' \<and>
   \<not> enhanced_code_pattern recipient_hard_bounce_codes ''dial tcp 185.1.1.20:587''"
proof
  have ne: "[] \<notin> set recipient_hard_bounce_codes" by (simp add: recipient_hard_bounce_codes_def)
  show "enhanced_code_pattern recipient_hard_bounce_codes ''550 5.1.1 user unknown''"
    unfolding codes_match_whole [OF ne]
    by (rule exI [of _ "''550 ''"], rule exI [of _ "''5.1.1''"], rule exI [of _ "'' user unknown''"])
      (simp add: recipient_hard_bounce_codes_def detached_def code_char_def is_digit_def)
  show "\<not> enhanced_code_pattern recipient_hard_bounce_codes ''dial tcp 185.1.1.20:587''"
    by code_simp
qed

theorem verdict_ignores_address_witness:
  "classify_error (sample_refusal @ ''complaints@dnsimple.com'' @ sample_unknown) =
     classify_error (sample_refusal @ ''bob@example.com'' @ sample_unknown) \<and>
   cl_type (classify_error (sample_refusal @ ''bob@example.com'' @ sample_unknown)) = EventHardBounce"
proof
  show "classify_error (sample_refusal @ ''complaints@dnsimple.com'' @ sample_unknown) =
     classify_error (sample_refusal @ ''bob@example.com'' @ sample_unknown)"
    by (rule verdict_ignores_address) code_simp+
  show "cl_type (classify_error (sample_refusal @ ''bob@example.com'' @ sample_unknown)) = EventHardBounce"
    by code_simp
qed

end
