(* ===== verification/Suppression_List.thy ===== *)
theory Suppression_List
  imports Run_Traces
begin

text \<open>
  The suppression list of \<open>internal/suppression\<close>: the table (\<open>repositories/stores/postgres/store.go\<close>
  and its SQL, with the \<open>UNIQUE(tenant_id, email)\<close> of the schema) and the use cases that write and
  read it, and the keys the send path looks addresses up under (\<open>internal/email/usecases/recipients.go\<close>
  and \<open>suppressionsFor\<close>).

  The address parser and \<open>NormalizeAddress\<close> belong to the package gsmail. They are the arguments
  \<open>parse\<close>, which gives the address inside a mailbox or \<open>None\<close> for an error, and \<open>norm_addr\<close>.
  Identifiers and the clock are arguments, and every database round trip has a Boolean that is true
  when it is carried out.
\<close>

section \<open>The table\<close>

record suppression =
  sp_id :: string
  sp_tenant_id :: string
  sp_email :: string
  sp_reason :: string
  sp_created_at :: time

type_synonym parser = "string \<Rightarrow> string option"

datatype sup_error = SupUnavailable | SupConflict | ErrEmptyAddress | TooManyEntries nat

definition same_mailbox :: "string \<Rightarrow> string \<Rightarrow> suppression \<Rightarrow> bool" where
  "same_mailbox tenant email s \<longleftrightarrow> sp_tenant_id s = tenant \<and> sp_email s = email"

definition sup_conflicts :: "suppression \<Rightarrow> suppression list \<Rightarrow> bool" where
  "sup_conflicts s rows \<longleftrightarrow>
     (\<exists>x \<in> set rows. sp_id x = sp_id s \<or> same_mailbox (sp_tenant_id s) (sp_email s) x)"

definition sup_create :: "bool \<Rightarrow> suppression \<Rightarrow> suppression list \<Rightarrow> (sup_error, suppression list) result" where
  "sup_create ok s rows =
     (if \<not> ok then Inl SupUnavailable
      else if sup_conflicts s rows then Inl SupConflict
      else Inr (rows @ [s]))"

text \<open>
  One bounded \<open>INSERT ... ON CONFLICT DO NOTHING\<close>: a row that conflicts with a stored one or with an
  earlier row of the statement is skipped. The driver may fail to report how many rows it wrote.
\<close>

fun insert_ignoring :: "suppression list \<Rightarrow> suppression list \<Rightarrow> nat \<times> suppression list" where
  "insert_ignoring [] rows = (0, rows)"
| "insert_ignoring (s # ss) rows =
     (if sup_conflicts s rows then insert_ignoring ss rows
      else let (n, rows') = insert_ignoring ss (rows @ [s]) in (Suc n, rows'))"

definition insert_chunk ::
  "bool \<Rightarrow> bool \<Rightarrow> suppression list \<Rightarrow> suppression list \<Rightarrow> (sup_error, nat) result \<times> suppression list" where
  "insert_chunk ok counted ss rows =
     (if \<not> ok then (Inl SupUnavailable, rows)
      else let (n, rows') = insert_ignoring ss rows in (Inr (if counted then n else 0), rows'))"

definition max_rows_per_insert :: nat where "max_rows_per_insert = 500"

text \<open>
  The loop of \<open>CreateMany\<close>. The list of outcomes has one pair per chunk; a chunk without one fails.
\<close>

function create_chunks ::
  "(bool \<times> bool) list \<Rightarrow> nat \<Rightarrow> suppression list \<Rightarrow> suppression list
    \<Rightarrow> (sup_error \<times> nat, nat) result \<times> suppression list" where
  "create_chunks outs inserted ss rows =
     (if ss = [] then (Inr inserted, rows)
      else
        let (ok, counted) = (case outs of [] \<Rightarrow> (False, False) | b # _ \<Rightarrow> b)
        in case insert_chunk ok counted (take max_rows_per_insert ss) rows of
             (Inl e, rows') \<Rightarrow> (Inl (e, inserted), rows')
           | (Inr n, rows') \<Rightarrow>
               create_chunks (tl outs) (inserted + n) (drop max_rows_per_insert ss) rows')"
  by pat_completeness auto
termination
  by (relation "measure (\<lambda>(_, _, ss, _). length ss)") (auto simp: max_rows_per_insert_def)

declare create_chunks.simps [simp del]

definition create_many ::
  "(bool \<times> bool) list \<Rightarrow> suppression list \<Rightarrow> suppression list
    \<Rightarrow> (sup_error \<times> nat, nat) result \<times> suppression list" where
  "create_many outs ss rows = create_chunks outs 0 ss rows"

definition sup_delete ::
  "bool \<Rightarrow> string \<Rightarrow> string \<Rightarrow> suppression list \<Rightarrow> (sup_error, unit) result \<times> suppression list" where
  "sup_delete ok tenant email rows =
     (if \<not> ok then (Inl SupUnavailable, rows)
      else (Inr (), delete_where (same_mailbox tenant email) rows))"

definition get_by_email ::
  "bool \<Rightarrow> string \<Rightarrow> string \<Rightarrow> suppression list \<Rightarrow> (sup_error, suppression option) result" where
  "get_by_email ok tenant email rows =
     (if \<not> ok then Inl SupUnavailable else Inr (find_row (same_mailbox tenant email) rows))"

text \<open>A page, newest first, and the offset of the next page when this one is full.\<close>

definition sup_list ::
  "bool \<Rightarrow> string \<Rightarrow> nat \<Rightarrow> nat \<Rightarrow> suppression list
    \<Rightarrow> (sup_error, suppression list \<times> nat option) result" where
  "sup_list ok tenant page_size offset rows =
     (if \<not> ok then Inl SupUnavailable
      else
        let size = (if page_size = 0 then 20 else page_size);
            mine = rev (sort_key sp_created_at (filter (\<lambda>s. sp_tenant_id s = tenant) rows));
            res = take size (drop offset mine)
        in Inr (res, if length res = size then Some (offset + size) else None))"

section \<open>Looking up many addresses\<close>

definition lower_trim :: "string \<Rightarrow> string" where
  "lower_trim s = to_lower (trim_space s)"

definition mailbox_key :: "string \<Rightarrow> string option" where
  "mailbox_key a = (if lower_trim a = [] then None else Some (lower_trim a))"

definition max_emails_per_lookup :: nat where "max_emails_per_lookup = 500"

type_synonym found_map = "(string \<times> suppression) list"

definition append_suppressed ::
  "bool \<Rightarrow> string \<Rightarrow> string list \<Rightarrow> suppression list \<Rightarrow> found_map \<Rightarrow> (sup_error, found_map) result" where
  "append_suppressed ok tenant emails rows found =
     (if \<not> ok then Inl SupUnavailable
      else Inr (fold (\<lambda>s m. AList.update (lower_trim (sp_email s)) s m)
             (filter (\<lambda>s. sp_tenant_id s = tenant \<and> sp_email s \<in> set emails) rows) found))"

function lookup_chunks ::
  "bool list \<Rightarrow> string \<Rightarrow> string list \<Rightarrow> suppression list \<Rightarrow> found_map \<Rightarrow> (sup_error, found_map) result" where
  "lookup_chunks oks tenant emails rows found =
     (if emails = [] then Inr found
      else
        case append_suppressed (case oks of [] \<Rightarrow> False | b # _ \<Rightarrow> b) tenant
               (take max_emails_per_lookup emails) rows found of
          Inl e \<Rightarrow> Inl e
        | Inr m \<Rightarrow> lookup_chunks (tl oks) tenant (drop max_emails_per_lookup emails) rows m)"
  by pat_completeness auto
termination
  by (relation "measure (\<lambda>(_, _, es, _). length es)") (auto simp: max_emails_per_lookup_def)

declare lookup_chunks.simps [simp del]

definition get_by_emails ::
  "bool list \<Rightarrow> string \<Rightarrow> string list \<Rightarrow> suppression list \<Rightarrow> (sup_error, found_map) result" where
  "get_by_emails oks tenant emails rows =
     (let unique = map lower_trim (uniq_by mailbox_key [] emails)
      in lookup_chunks oks tenant unique rows [])"

text \<open>The map from address to reason that the send path keeps.\<close>

definition suppressions_for ::
  "bool list \<Rightarrow> string \<Rightarrow> string list \<Rightarrow> suppression list \<Rightarrow> (sup_error, (string \<times> string) list) result" where
  "suppressions_for oks tenant normalised rows =
     (case get_by_emails oks tenant normalised rows of
        Inl e \<Rightarrow> Inl e
      | Inr found \<Rightarrow> Inr (map (\<lambda>(a, s). (a, sp_reason s)) found))"

section \<open>The use cases\<close>

definition suppression_key :: "(string \<Rightarrow> string) \<Rightarrow> string \<Rightarrow> string" where
  "suppression_key norm_addr email = (if trim_space email = [] then [] else norm_addr email)"

definition sup_add ::
  "(string \<Rightarrow> string) \<Rightarrow> bool \<Rightarrow> string \<Rightarrow> time \<Rightarrow> string \<Rightarrow> string \<Rightarrow> string \<Rightarrow> suppression list
    \<Rightarrow> (sup_error, suppression) result \<times> suppression list" where
  "sup_add norm_addr ok new_id now tenant email reason rows =
     (let key = suppression_key norm_addr email;
          s = \<lparr>sp_id = new_id, sp_tenant_id = tenant, sp_email = key, sp_reason = reason, sp_created_at = now\<rparr>
      in if key = [] then (Inl ErrEmptyAddress, rows)
         else case sup_create ok s rows of
                Inl e \<Rightarrow> (Inl e, rows)
              | Inr rows' \<Rightarrow> (Inr s, rows'))"

definition sup_remove ::
  "(string \<Rightarrow> string) \<Rightarrow> bool \<Rightarrow> string \<Rightarrow> string \<Rightarrow> suppression list
    \<Rightarrow> (sup_error, unit) result \<times> suppression list" where
  "sup_remove norm_addr ok tenant email rows =
     (let key = suppression_key norm_addr email
      in if key = [] then (Inl ErrEmptyAddress, rows) else sup_delete ok tenant key rows)"

definition sup_check ::
  "(string \<Rightarrow> string) \<Rightarrow> bool \<Rightarrow> string \<Rightarrow> string \<Rightarrow> suppression list \<Rightarrow> (sup_error, bool \<times> string) result" where
  "sup_check norm_addr ok tenant email rows =
     (let key = suppression_key norm_addr email
      in if key = [] then Inr (False, [])
         else case get_by_email ok tenant key rows of
                Inl e \<Rightarrow> Inl e
              | Inr None \<Rightarrow> Inr (False, [])
              | Inr (Some s) \<Rightarrow> Inr (True, sp_reason s))"

section \<open>Importing a list\<close>

record import_result =
  ir_imported :: nat
  ir_already :: nat
  ir_invalid :: nat
  ir_samples :: "string list"

definition max_import_entries :: nat where "max_import_entries = 10000"
definition max_invalid_samples :: nat where "max_invalid_samples = 20"

definition import_reason :: "string \<Rightarrow> string" where
  "import_reason r = (if trim_space r = [] then ''Imported from a suppression list'' else trim_space r)"

text \<open>
  The loop over the submitted entries, a nil pointer being \<open>None\<close>. \<open>ids\<close> are the identifiers the
  entries would be given.
\<close>

fun import_loop ::
  "parser \<Rightarrow> (string \<Rightarrow> string) \<Rightarrow> string \<Rightarrow> time \<Rightarrow> ((string \<times> string) option \<times> string) list
    \<Rightarrow> string list \<Rightarrow> import_result \<Rightarrow> import_result \<times> suppression list" where
  "import_loop parse norm_addr tenant now [] seen res = (res, [])"
| "import_loop parse norm_addr tenant now ((None, new_id) # es) seen res =
     import_loop parse norm_addr tenant now es seen (res\<lparr>ir_invalid := Suc (ir_invalid res)\<rparr>)"
| "import_loop parse norm_addr tenant now ((Some (email, reason), new_id) # es) seen res =
     (if trim_space email = []
      then import_loop parse norm_addr tenant now es seen (res\<lparr>ir_invalid := Suc (ir_invalid res)\<rparr>)
      else case parse email of
        None \<Rightarrow>
          import_loop parse norm_addr tenant now es seen
            (res\<lparr>ir_invalid := Suc (ir_invalid res),
                 ir_samples := (if length (ir_samples res) < max_invalid_samples
                                then ir_samples res @ [email] else ir_samples res)\<rparr>)
      | Some address \<Rightarrow>
          let key = suppression_key norm_addr address
          in if key = []
             then import_loop parse norm_addr tenant now es seen (res\<lparr>ir_invalid := Suc (ir_invalid res)\<rparr>)
             else if key \<in> set seen
             then import_loop parse norm_addr tenant now es seen (res\<lparr>ir_already := Suc (ir_already res)\<rparr>)
             else
               let (res', sups) = import_loop parse norm_addr tenant now es (key # seen) res
               in (res', \<lparr>sp_id = new_id, sp_tenant_id = tenant, sp_email = key,
                          sp_reason = import_reason reason, sp_created_at = now\<rparr> # sups))"

definition sup_import ::
  "parser \<Rightarrow> (string \<Rightarrow> string) \<Rightarrow> (bool \<times> bool) list \<Rightarrow> time \<Rightarrow> string
    \<Rightarrow> ((string \<times> string) option \<times> string) list \<Rightarrow> suppression list
    \<Rightarrow> (sup_error option \<times> import_result) \<times> suppression list" where
  "sup_import parse norm_addr outs now tenant entries rows =
     (let empty = \<lparr>ir_imported = 0, ir_already = 0, ir_invalid = 0, ir_samples = []\<rparr>
      in if length entries > max_import_entries then ((Some (TooManyEntries (length entries)), empty), rows)
         else
           let (res, sups) = import_loop parse norm_addr tenant now entries [] empty
           in case create_many outs sups rows of
                (Inl (e, _), rows') \<Rightarrow> ((Some e, res), rows')
              | (Inr n, rows') \<Rightarrow>
                  ((None, res\<lparr>ir_imported := n, ir_already := ir_already res + (length sups - n)\<rparr>), rows'))"

section \<open>The keys of the send path\<close>

definition key_from_parsed :: "string \<Rightarrow> string option \<Rightarrow> string" where
  "key_from_parsed lowered parsed =
     (case parsed of Some address \<Rightarrow> lower_trim address | None \<Rightarrow> lowered)"

definition suppression_key_of :: "parser \<Rightarrow> string \<Rightarrow> string" where
  "suppression_key_of parse address = key_from_parsed (lower_trim address) (parse address)"

text \<open>
  \<open>uniqueRecipients\<close> keeps the first spelling of every recipient, lower-cased and trimmed;
  \<open>resolveRecipients\<close> also validates, and carries the lookup key beside each address.
\<close>

definition unique_recipients :: "string list list \<Rightarrow> string list" where
  "unique_recipients groups =
     map lower_trim (uniq_by mailbox_key [] (concat groups))"

datatype recipient_error = EmptyRecipient | InvalidRecipient string

fun resolve_loop ::
  "parser \<Rightarrow> string list \<Rightarrow> string list \<Rightarrow> (recipient_error, (string \<times> string) list) result" where
  "resolve_loop parse seen [] = Inr []"
| "resolve_loop parse seen (a # as) =
     (if trim_space a = [] then Inl EmptyRecipient
      else case parse a of
        None \<Rightarrow> Inl (InvalidRecipient a)
      | Some p \<Rightarrow>
          let key = to_lower (trim_space a)
          in if key \<in> set seen then resolve_loop parse seen as
             else case resolve_loop parse (key # seen) as of
                    Inl e \<Rightarrow> Inl e
                  | Inr rs \<Rightarrow> Inr ((key, key_from_parsed key (Some p)) # rs))"

definition resolve_recipients ::
  "parser \<Rightarrow> string list list \<Rightarrow> (recipient_error, (string \<times> string) list) result" where
  "resolve_recipients parse groups = resolve_loop parse [] (concat groups)"

section \<open>The table keeps one row per mailbox\<close>

definition wf_sups :: "suppression list \<Rightarrow> bool" where
  "wf_sups rows \<longleftrightarrow> distinct (map (\<lambda>s. (sp_tenant_id s, sp_email s)) rows)"

lemma wf_sups_snoc: "wf_sups rows \<Longrightarrow> \<not> sup_conflicts s rows \<Longrightarrow> wf_sups (rows @ [s])"
  by (auto simp: wf_sups_def sup_conflicts_def same_mailbox_def)

lemma wf_sups_create: "sup_create ok s rows = Inr rows' \<Longrightarrow> wf_sups rows \<Longrightarrow> wf_sups rows'"
  by (auto simp: sup_create_def wf_sups_snoc split: if_splits)

lemma insert_ignoring_props:
  "insert_ignoring ss rows = (n, rows') \<Longrightarrow>
   n \<le> length ss \<and> set rows \<subseteq> set rows' \<and> (wf_sups rows \<longrightarrow> wf_sups rows') \<and>
   length rows' = length rows + n"
proof (induction ss arbitrary: rows n)
  case (Cons s ss)
  show ?case
  proof (cases "sup_conflicts s rows")
    case True
    with Cons.IH [of rows n] Cons.prems show ?thesis by auto
  next
    case False
    then obtain m where m: "insert_ignoring ss (rows @ [s]) = (m, rows')" "n = Suc m"
      using Cons.prems by (auto split: prod.splits)
    with Cons.IH [OF m(1)] False wf_sups_snoc show ?thesis by auto
  qed
qed simp

definition fresh_ids :: "suppression list \<Rightarrow> suppression list \<Rightarrow> bool" where
  "fresh_ids ss rows \<longleftrightarrow> distinct (map sp_id ss) \<and> sp_id ` set ss \<inter> sp_id ` set rows = {}"

lemma insert_ignoring_rows: "insert_ignoring ss rows = (n, rows') \<Longrightarrow> set rows' \<subseteq> set rows \<union> set ss"
proof (induction ss arbitrary: rows n)
  case (Cons s ss)
  show ?case
  proof (cases "sup_conflicts s rows")
    case True
    with Cons.prems Cons.IH [of rows n] show ?thesis by auto
  next
    case False
    with Cons.prems obtain m where "insert_ignoring ss (rows @ [s]) = (m, rows')" by (auto split: prod.splits)
    from Cons.IH [OF this] show ?thesis by auto
  qed
qed simp

lemmas insert_ignoring_ids = image_mono [OF insert_ignoring_rows, where f = sp_id, unfolded image_Un]

lemma insert_ignoring_mailbox:
  "insert_ignoring ss rows = (n, rows') \<Longrightarrow> fresh_ids ss rows \<Longrightarrow> s \<in> set ss \<Longrightarrow>
   \<exists>x \<in> set rows'. same_mailbox (sp_tenant_id s) (sp_email s) x"
proof (induction ss arbitrary: rows n)
  case (Cons a ss)
  show ?case
  proof (cases "sup_conflicts a rows")
    case True
    with Cons.prems have ins: "insert_ignoring ss rows = (n, rows')" and fresh: "fresh_ids ss rows"
      by (simp_all add: fresh_ids_def)
    have "sp_id a \<notin> sp_id ` set rows" using Cons.prems(2) by (simp add: fresh_ids_def)
    with True have "\<exists>x \<in> set rows. same_mailbox (sp_tenant_id a) (sp_email a) x"
      unfolding sup_conflicts_def by (metis imageI)
    with insert_ignoring_props [OF ins] Cons.IH [OF ins fresh] Cons.prems(3) show ?thesis by auto
  next
    case False
    then obtain m where m: "insert_ignoring ss (rows @ [a]) = (m, rows')"
      using Cons.prems by (auto split: prod.splits)
    have "a \<in> set rows'" using insert_ignoring_props [OF m] by auto
    moreover have "fresh_ids ss (rows @ [a])" using Cons.prems(2) by (auto simp: fresh_ids_def)
    ultimately show ?thesis using Cons.IH [OF m] Cons.prems(3) by (auto simp: same_mailbox_def)
  qed
qed simp

lemma fresh_ids_split:
  assumes "fresh_ids (xs @ ys) rows" "sp_id ` set rows1 \<subseteq> sp_id ` set rows \<union> sp_id ` set xs"
  shows "fresh_ids xs rows \<and> fresh_ids ys rows1"
proof -
  have "sp_id ` set ys \<inter> sp_id ` set xs = {}" "sp_id ` set ys \<inter> sp_id ` set rows = {}"
    "sp_id ` set xs \<inter> sp_id ` set rows = {}"
    using assms(1) by (auto simp: fresh_ids_def)
  with assms(2) have "sp_id ` set ys \<inter> sp_id ` set rows1 = {}" by blast
  with assms(1) show ?thesis by (auto simp: fresh_ids_def)
qed

text \<open>One round of the loop that goes on to succeed.\<close>

lemma create_chunks_round:
  assumes "create_chunks outs k ss rows = (Inr n, rows')" "ss \<noteq> []"
  obtains j m rows1 where
    "insert_ignoring (take max_rows_per_insert ss) rows = (j, rows1)" "m \<le> j"
    "create_chunks (tl outs) (k + m) (drop max_rows_per_insert ss) rows1 = (Inr n, rows')"
proof -
  obtain ok counted where out: "(case outs of [] \<Rightarrow> (False, False) | b # _ \<Rightarrow> b) = (ok, counted)"
    by (metis surj_pair)
  obtain r rows1 where ins: "insert_chunk ok counted (take max_rows_per_insert ss) rows = (r, rows1)"
    by (metis surj_pair)
  with assms out obtain m where m: "r = Inr m"
    "create_chunks (tl outs) (k + m) (drop max_rows_per_insert ss) rows1 = (Inr n, rows')"
    by (cases r) (simp_all add: create_chunks.simps [of outs k ss rows])
  moreover obtain j where "insert_ignoring (take max_rows_per_insert ss) rows = (j, rows1)" "m \<le> j"
    using ins m(1) by (auto simp: insert_chunk_def split: if_splits prod.splits)
  ultimately show ?thesis using that by blast
qed

lemma create_chunks_props:
  "create_chunks outs k ss rows = (Inr n, rows') \<Longrightarrow>
   n \<le> k + length ss \<and> set rows \<subseteq> set rows' \<and> (wf_sups rows \<longrightarrow> wf_sups rows')"
proof (induction "length ss" arbitrary: outs k ss rows rule: less_induct)
  case less
  show ?case
  proof (cases "ss = []")
    case True
    with less.prems show ?thesis by (simp add: create_chunks.simps)
  next
    case False
    with less.prems obtain j m rows1 where
      ins: "insert_ignoring (take max_rows_per_insert ss) rows = (j, rows1)" "m \<le> j" and
      rest: "create_chunks (tl outs) (k + m) (drop max_rows_per_insert ss) rows1 = (Inr n, rows')"
      by (rule create_chunks_round)
    have "length (drop max_rows_per_insert ss) < length ss"
      using False by (simp add: max_rows_per_insert_def)
    from less.hyps [OF this rest] insert_ignoring_props [OF ins(1)] ins(2) show ?thesis by auto
  qed
qed

lemma create_chunks_mailbox:
  "create_chunks outs k ss rows = (Inr n, rows') \<Longrightarrow> fresh_ids ss rows \<Longrightarrow> s \<in> set ss \<Longrightarrow>
   \<exists>x \<in> set rows'. same_mailbox (sp_tenant_id s) (sp_email s) x"
proof (induction "length ss" arbitrary: outs k ss rows rule: less_induct)
  case less
  let ?now = "take max_rows_per_insert ss" and ?later = "drop max_rows_per_insert ss"
  from less.prems(3) have ne: "ss \<noteq> []" by auto
  with less.prems obtain j m rows1 where
    ins: "insert_ignoring ?now rows = (j, rows1)" and
    rest: "create_chunks (tl outs) (k + m) ?later rows1 = (Inr n, rows')"
    using create_chunks_round [OF less.prems(1) ne] by blast
  have fresh: "fresh_ids ?now rows \<and> fresh_ids ?later rows1"
    using fresh_ids_split [OF _ insert_ignoring_ids [OF ins], of ?later] less.prems(2) by simp
  show ?case
  proof (cases "s \<in> set ?now")
    case True
    from insert_ignoring_mailbox [OF ins _ True] fresh create_chunks_props [OF rest] show ?thesis by blast
  next
    case False
    with less.prems(3) have "s \<in> set ?later" by (metis Un_iff append_take_drop_id set_append)
    moreover have "length ?later < length ss" using ne by (simp add: max_rows_per_insert_def)
    ultimately show ?thesis using less.hyps [OF _ rest] fresh by blast
  qed
qed

text \<open>The mailbox an entry names, and one round of the import loop in terms of it.\<close>

definition entry_key :: "parser \<Rightarrow> (string \<Rightarrow> string) \<Rightarrow> (string \<times> string) option \<Rightarrow> string option" where
  "entry_key parse norm_addr entry =
     (case entry of
        None \<Rightarrow> None
      | Some (email, reason) \<Rightarrow>
          if trim_space email = [] then None
          else case parse email of
                 None \<Rightarrow> None
               | Some address \<Rightarrow>
                   if suppression_key norm_addr address = [] then None
                   else Some (suppression_key norm_addr address))"

lemma entry_key_cases:
  obtains (nil) "entry = None" "entry_key parse norm_addr entry = None"
  | (empty) email reason where "entry = Some (email, reason)" "trim_space email = []"
      "entry_key parse norm_addr entry = None"
  | (bad) email reason where "entry = Some (email, reason)" "trim_space email \<noteq> []" "parse email = None"
      "entry_key parse norm_addr entry = None"
  | (good) email reason address where "entry = Some (email, reason)" "trim_space email \<noteq> []"
      "parse email = Some address"
      "entry_key parse norm_addr entry =
        (if suppression_key norm_addr address = [] then None else Some (suppression_key norm_addr address))"
proof (cases entry)
  case None
  with nil show ?thesis by (simp add: entry_key_def)
next
  case (Some er)
  then obtain email reason where e: "entry = Some (email, reason)" by (cases er) simp
  show ?thesis
  proof (cases "trim_space email = []")
    case True
    with e empty show ?thesis by (simp add: entry_key_def)
  next
    case False
    with e bad good show ?thesis by (cases "parse email") (simp_all add: entry_key_def)
  qed
qed

lemma import_round:
  assumes "import_loop parse norm_addr tenant now ((entry, new_id) # es) seen res = (res', sups)"
  obtains (skip) res1 where
      "import_loop parse norm_addr tenant now es seen res1 = (res', sups)"
      "ir_imported res1 = ir_imported res"
      "ir_already res1 + ir_invalid res1 = Suc (ir_already res + ir_invalid res)"
      "\<forall>key. entry_key parse norm_addr entry = Some key \<longrightarrow> key \<in> set seen"
    | (take) key ss s where
      "import_loop parse norm_addr tenant now es (key # seen) res = (res', ss)" "sups = s # ss"
      "entry_key parse norm_addr entry = Some key" "sp_id s = new_id" "sp_tenant_id s = tenant" "sp_email s = key"
proof (rule entry_key_cases [of entry parse norm_addr])
  assume "entry = None" "entry_key parse norm_addr entry = None"
  with assms show ?thesis by (auto intro: skip)
next
  fix email reason
  assume "entry = Some (email, reason)" "trim_space email = []" "entry_key parse norm_addr entry = None"
  with assms show ?thesis by (auto intro: skip)
next
  fix email reason
  assume "entry = Some (email, reason)" "trim_space email \<noteq> []" "parse email = None"
    "entry_key parse norm_addr entry = None"
  with assms show ?thesis by (auto intro: skip)
next
  fix email reason address
  assume good: "entry = Some (email, reason)" "trim_space email \<noteq> []" "parse email = Some address"
    "entry_key parse norm_addr entry =
      (if suppression_key norm_addr address = [] then None else Some (suppression_key norm_addr address))"
  show ?thesis
  proof (cases "suppression_key norm_addr address = [] \<or> suppression_key norm_addr address \<in> set seen")
    case True
    with assms good show ?thesis
      by (cases "suppression_key norm_addr address = []") (auto simp: Let_def intro: skip)
  next
    case False
    obtain r ss where "import_loop parse norm_addr tenant now es (suppression_key norm_addr address # seen) res = (r, ss)"
      by (metis surj_pair)
    with assms good False show ?thesis by (auto simp: Let_def intro: take)
  qed
qed

lemma import_loop_counts:
  "import_loop parse norm_addr tenant now es seen res = (res', sups) \<Longrightarrow>
   ir_imported res' = ir_imported res \<and>
   ir_already res' + ir_invalid res' + length sups = ir_already res + ir_invalid res + length es"
proof (induction es arbitrary: seen res sups)
  case (Cons e es)
  obtain entry new_id where e: "e = (entry, new_id)" by (metis surj_pair)
  from Cons.prems [unfolded e] show ?case
  proof (cases rule: import_round)
    case (skip res1)
    with Cons.IH [OF skip(1)] e show ?thesis by simp
  next
    case (take key ss s)
    with Cons.IH [OF take(1)] e show ?thesis by simp
  qed
qed simp

lemma import_loop_ids:
  "import_loop parse norm_addr tenant now es seen res = (res', sups) \<Longrightarrow>
   sp_id ` set sups \<subseteq> snd ` set es \<and> (distinct (map snd es) \<longrightarrow> distinct (map sp_id sups))"
proof (induction es arbitrary: seen res sups)
  case (Cons e es)
  obtain entry new_id where e: "e = (entry, new_id)" by (metis surj_pair)
  from Cons.prems [unfolded e] show ?case
  proof (cases rule: import_round)
    case (skip res1)
    with Cons.IH [OF skip(1)] e show ?thesis by auto
  next
    case (take key ss s)
    with Cons.IH [OF take(1)] e show ?thesis by auto
  qed
qed simp

lemma import_loop_covers:
  "import_loop parse norm_addr tenant now es seen res = (res', sups) \<Longrightarrow> (entry, new_id) \<in> set es \<Longrightarrow>
   entry_key parse norm_addr entry = Some key \<Longrightarrow>
   key \<in> set seen \<or> (\<exists>s \<in> set sups. sp_tenant_id s = tenant \<and> sp_email s = key)"
proof (induction es arbitrary: seen res sups)
  case (Cons e es)
  obtain entry' new_id' where e: "e = (entry', new_id')" by (metis surj_pair)
  from Cons.prems(1) [unfolded e] show ?case
  proof (cases rule: import_round)
    case (skip res1)
    with Cons.IH [OF skip(1)] Cons.prems(2,3) e show ?thesis by auto
  next
    case (take key' ss s)
    with Cons.IH [OF take(1)] Cons.prems(2,3) e show ?thesis by auto
  qed
qed simp

section \<open>What a lookup finds\<close>

definition on_list :: "string \<Rightarrow> string \<Rightarrow> suppression list \<Rightarrow> bool" where
  "on_list tenant key rows \<longleftrightarrow> (\<exists>s \<in> set rows. same_mailbox tenant key s)"

definition norm_sups :: "suppression list \<Rightarrow> bool" where
  "norm_sups rows \<longleftrightarrow> (\<forall>s \<in> set rows. sp_email s \<noteq> [] \<and> lower_trim (sp_email s) = sp_email s)"

lemma lower_trim_idem [simp]: "lower_trim (lower_trim s) = lower_trim s"
  by (simp add: lower_trim_def)

lemma fold_update_keys:
  "fst ` set (fold (\<lambda>s m. AList.update (g s) s m) xs m) = g ` set xs \<union> fst ` set m"
  by (induction xs arbitrary: m) (auto simp: dom_update)

lemma append_suppressed_keys:
  "append_suppressed ok tenant emails rows f = Inr m \<Longrightarrow>
   fst ` set m = fst ` set f \<union> (\<lambda>s. lower_trim (sp_email s)) ` {s \<in> set rows. sp_tenant_id s = tenant \<and> sp_email s \<in> set emails}"
proof -
  assume "append_suppressed ok tenant emails rows f = Inr m"
  then have "m = fold (\<lambda>s m. AList.update (lower_trim (sp_email s)) s m)
      (filter (\<lambda>s. sp_tenant_id s = tenant \<and> sp_email s \<in> set emails) rows) f"
    by (simp add: append_suppressed_def split: if_splits)
  then show ?thesis by (simp add: fold_update_keys Un_commute)
qed

lemma lookup_chunks_keys:
  "lookup_chunks oks tenant emails rows f = Inr m \<Longrightarrow>
   fst ` set m = fst ` set f \<union> (\<lambda>s. lower_trim (sp_email s)) ` {s \<in> set rows. sp_tenant_id s = tenant \<and> sp_email s \<in> set emails}"
proof (induction "length emails" arbitrary: oks emails f rule: less_induct)
  case less
  show ?case
  proof (cases "emails = []")
    case True
    with less.prems show ?thesis by (simp add: lookup_chunks.simps)
  next
    case False
    let ?now = "take max_emails_per_lookup emails" and ?later = "drop max_emails_per_lookup emails"
    from less.prems False obtain f1 where
      f1: "append_suppressed (case oks of [] \<Rightarrow> False | b # _ \<Rightarrow> b) tenant ?now rows f = Inr f1"
        "lookup_chunks (tl oks) tenant ?later rows f1 = Inr m"
      by (auto simp: lookup_chunks.simps [of oks] split: sum.splits)
    have "length ?later < length emails" using False by (simp add: max_emails_per_lookup_def)
    moreover have "set emails = set ?now \<union> set ?later" by (metis append_take_drop_id set_append)
    ultimately show ?thesis using less.hyps [OF _ f1(2)] append_suppressed_keys [OF f1(1)] by auto
  qed
qed

lemma unique_keys:
  "set (map lower_trim (uniq_by mailbox_key seen xs)) = {k \<in> lower_trim ` set xs. k \<noteq> [] \<and> k \<notin> set seen}"
proof (induction xs arbitrary: seen)
  case (Cons x xs)
  show ?case
  proof (cases "lower_trim x = [] \<or> lower_trim x \<in> set seen")
    case True
    with Cons.IH [of seen] show ?thesis by (auto simp: mailbox_key_def)
  next
    case False
    with Cons.IH [of "lower_trim x # seen"] show ?thesis by (auto simp: mailbox_key_def)
  qed
qed simp

lemma suppressions_for_exact:
  assumes "suppressions_for oks tenant ks rows = Inr m" "norm_sups rows" "k \<in> set ks" "lower_trim k = k"
  shows "map_of m k \<noteq> None \<longleftrightarrow> on_list tenant k rows"
proof -
  let ?unique = "map lower_trim (uniq_by mailbox_key [] ks)"
  from assms(1) obtain f where f: "lookup_chunks oks tenant ?unique rows [] = Inr f"
    "m = map (\<lambda>(a, s). (a, sp_reason s)) f"
    by (auto simp: suppressions_for_def get_by_emails_def split: sum.splits)
  have "map_of m k \<noteq> None \<longleftrightarrow> k \<in> fst ` set f"
    unfolding f(2) by (auto simp: map_of_eq_None_iff image_image case_prod_beta)
  also have "\<dots> \<longleftrightarrow> on_list tenant k rows"
    using assms(2-4) unfolding lookup_chunks_keys [OF f(1)] unique_keys on_list_def same_mailbox_def norm_sups_def
    by force
  finally show ?thesis .
qed

text \<open>
  The package gsmail reduces a mailbox to the address the send path derives from its parser, as the
  comments of both packages say.
\<close>

definition agrees :: "parser \<Rightarrow> (string \<Rightarrow> string) \<Rightarrow> bool" where
  "agrees parse norm_addr \<longleftrightarrow> (\<forall>a. trim_space a \<noteq> [] \<longrightarrow> norm_addr a = suppression_key_of parse a)"

lemma key_lower [simp]: "lower_trim (suppression_key_of parse a) = suppression_key_of parse a"
  by (simp add: suppression_key_of_def key_from_parsed_def split: option.split)

lemma resolve_round:
  assumes "resolve_loop parse seen (x # as) = Inr rs"
  obtains (again) "lower_trim x \<in> set seen" "resolve_loop parse seen as = Inr rs" "lower_trim x \<noteq> []"
  | (new) rs' where "lower_trim x \<notin> set seen" "resolve_loop parse (lower_trim x # seen) as = Inr rs'"
      "rs = (lower_trim x, suppression_key_of parse x) # rs'" "lower_trim x \<noteq> []"
  using assms
  by (auto simp: Let_def lower_trim_def suppression_key_of_def split: if_splits option.splits sum.splits)

lemma resolve_loop_keys:
  "resolve_loop parse seen as = Inr rs \<Longrightarrow> (a, k) \<in> set rs \<Longrightarrow>
   \<exists>x \<in> set as. a = lower_trim x \<and> k = suppression_key_of parse x"
proof (induction as arbitrary: seen rs)
  case (Cons x as)
  from Cons.prems(1) show ?case
    by (cases rule: resolve_round) (use Cons.IH Cons.prems(2) in auto)
qed simp

lemma resolve_loop_unique:
  "resolve_loop parse seen as = Inr rs \<Longrightarrow> map fst rs = map lower_trim (uniq_by mailbox_key seen as)"
proof (induction as arbitrary: seen rs)
  case (Cons x as)
  from Cons.prems show ?case
    by (cases rule: resolve_round) (use Cons.IH in \<open>auto simp: mailbox_key_def\<close>)
qed simp

text \<open>
  C10. A suppression holds for every spelling of the mailbox. After an address was added, the lookup
  of admission reports a recipient of any later message as suppressed exactly when its mailbox is
  the one just added, whatever its case and display name, or was on the tenant's list before.
\<close>

theorem suppression_reaches_spellings:
  assumes "agrees parse norm_addr" "norm_sups rows"
    "sup_add norm_addr True new_id now tenant email reason rows = (Inr s, rows')"
    "resolve_recipients parse groups = Inr rs" "suppressions_for oks tenant (map snd rs) rows' = Inr m"
    "(a, k) \<in> set rs"
  shows "map_of m k \<noteq> None \<longleftrightarrow> k = suppression_key_of parse email \<or> on_list tenant k rows"
proof -
  let ?key = "suppression_key norm_addr email"
  from assms(3) have add: "?key \<noteq> []" "rows' = rows @ [s]" "same_mailbox tenant ?key s" "sp_email s = ?key"
    by (auto simp: sup_add_def sup_create_def same_mailbox_def Let_def split: if_splits sum.splits)
  then have key: "?key = suppression_key_of parse email"
    using assms(1) by (simp add: suppression_key_def agrees_def split: if_splits)
  have "norm_sups rows'" using assms(2) add key by (auto simp: norm_sups_def)
  moreover have "lower_trim k = k" using resolve_loop_keys assms(4,6) by (fastforce simp: resolve_recipients_def)
  ultimately have "map_of m k \<noteq> None \<longleftrightarrow> on_list tenant k rows'"
    using suppressions_for_exact [OF assms(5)] assms(6) by force
  with add key show ?thesis by (auto simp: on_list_def same_mailbox_def)
qed

text \<open>
  An import accounts for every entry and suppresses every valid one. When it succeeds, the three
  counts add up to the number of entries sent, nothing already stored is lost, and each entry whose
  address parses to a mailbox is on the tenant's list.
\<close>

theorem import_accounts:
  assumes "sup_import parse norm_addr outs now tenant entries rows = ((None, res), rows')"
    "distinct (map snd entries)" "snd ` set entries \<inter> sp_id ` set rows = {}"
  shows "ir_imported res + ir_already res + ir_invalid res = length entries \<and> set rows \<subseteq> set rows' \<and>
    (\<forall>entry new_id key. (entry, new_id) \<in> set entries \<and> entry_key parse norm_addr entry = Some key \<longrightarrow>
       on_list tenant key rows')"
proof -
  let ?empty = "\<lparr>ir_imported = 0, ir_already = 0, ir_invalid = 0, ir_samples = []\<rparr>"
  obtain r0 sups where loop: "import_loop parse norm_addr tenant now entries [] ?empty = (r0, sups)"
    by (metis surj_pair)
  with assms(1) obtain n where n: "create_many outs sups rows = (Inr n, rows')"
    "res = r0\<lparr>ir_imported := n, ir_already := ir_already r0 + (length sups - n)\<rparr>"
    by (auto simp: sup_import_def Let_def split: if_splits sum.splits prod.splits)
  note props = create_chunks_props [OF n(1) [unfolded create_many_def]]
  have "fresh_ids sups rows"
    using import_loop_ids [OF loop] assms(2,3) unfolding fresh_ids_def by blast
  note stored = create_chunks_mailbox [OF n(1) [unfolded create_many_def] this]
  have "on_list tenant key rows'" if "(entry, new_id) \<in> set entries" "entry_key parse norm_addr entry = Some key"
    for entry new_id key
    using import_loop_covers [OF loop that] stored by (auto simp: on_list_def)
  with props import_loop_counts [OF loop] n(2) show ?thesis by auto
qed


text \<open>
  Admission and delivery name the same recipients in the same order: what the first resolves is the
  list the second derives from the stored request.
\<close>

lemma resolved_addresses: "resolve_recipients parse groups = Inr rs \<Longrightarrow> map fst rs = unique_recipients groups"
  by (simp add: resolve_recipients_def unique_recipients_def resolve_loop_unique)

lemma unique_recipients_props:
  "distinct (unique_recipients groups)" "r \<in> set (unique_recipients groups) \<Longrightarrow> lower_trim r = r \<and> r \<noteq> []"
proof -
  have "map mailbox_key (uniq_by mailbox_key [] (concat groups)) = map Some (unique_recipients groups)"
    using uniq_by_keys_fresh [of _ mailbox_key] by (fastforce simp: unique_recipients_def mailbox_key_def split: if_splits)
  then show "distinct (unique_recipients groups)"
    using uniq_by_distinct [of mailbox_key "[]" "concat groups"] by (metis distinct_map)
  show "lower_trim r = r \<and> r \<noteq> []" if "r \<in> set (unique_recipients groups)"
    using that unfolding unique_recipients_def unique_keys by auto
qed

section \<open>Instances\<close>

definition sample_parse :: parser where
  "sample_parse a =
     (case index_of (CHR ''<'') a of
        None \<Rightarrow> if CHR ''@'' \<in> set a then Some a else None
      | Some i \<Rightarrow> Some (takeWhile (\<lambda>c. c \<noteq> CHR ''>'') (drop (Suc i) a)))"

definition sample_sups :: "suppression list" where
  "sample_sups =
     [\<lparr>sp_id = ''s1'', sp_tenant_id = ''t1'', sp_email = ''old@x.org'', sp_reason = ''bounce'', sp_created_at = 1\<rparr>]"

definition sample_groups :: "string list list" where
  "sample_groups = [[''Bob <Bob@X.org>''], [''ann@x.org'', ''OLD@x.org'']]"

lemma sample_agrees: "agrees sample_parse (suppression_key_of sample_parse)"
  by (simp add: agrees_def)

theorem suppression_reaches_spellings_witness:
  "map_of [(''old@x.org'', ''bounce''), (''bob@x.org'', ''asked'')] ''bob@x.org'' \<noteq> None \<and>
   (map_of [(''old@x.org'', ''bounce''), (''bob@x.org'', ''asked'')] ''ann@x.org'' \<noteq> None \<longleftrightarrow>
      ''ann@x.org'' = ''bob@x.org'' \<or> on_list ''t1'' ''ann@x.org'' sample_sups)"
proof -
  let ?rs = "[(''bob <bob@x.org>'', ''bob@x.org''), (''ann@x.org'', ''ann@x.org''), (''old@x.org'', ''old@x.org'')]"
  let ?s = "\<lparr>sp_id = ''s2'', sp_tenant_id = ''t1'', sp_email = ''bob@x.org'', sp_reason = ''asked'', sp_created_at = 5\<rparr>"
  have norm: "norm_sups sample_sups" by code_simp
  have add: "sup_add (suppression_key_of sample_parse) True ''s2'' 5 ''t1'' ''BOB@x.org'' ''asked'' sample_sups =
      (Inr ?s, sample_sups @ [?s])" by code_simp
  have res: "resolve_recipients sample_parse sample_groups = Inr ?rs" by code_simp
  have look: "suppressions_for [True] ''t1'' (map snd ?rs) (sample_sups @ [?s]) =
      Inr [(''old@x.org'', ''bounce''), (''bob@x.org'', ''asked'')]" by code_simp
  have key: "suppression_key_of sample_parse ''BOB@x.org'' = ''bob@x.org''" by code_simp
  note found = suppression_reaches_spellings [OF sample_agrees norm add res look, unfolded key]
  from found [of "''bob <bob@x.org>''" "''bob@x.org''"] found [of "''ann@x.org''" "''ann@x.org''"]
  show ?thesis by simp
qed

theorem import_accounts_witness:
  "let out = sup_import sample_parse (suppression_key_of sample_parse) [(True, True)] 9 ''t1''
       [(Some (''OLD@x.org'', ''''), ''i1''), (None, ''i2''), (Some (''New <n@x.org>'', ''''), ''i3''),
        (Some (''nonsense'', ''''), ''i4''), (Some (''N@x.org'', ''''), ''i5'')] sample_sups
   in ir_imported (snd (fst out)) = 1 \<and> ir_already (snd (fst out)) = 2 \<and> ir_invalid (snd (fst out)) = 2 \<and>
      on_list ''t1'' ''n@x.org'' (snd out)"
proof -
  let ?es = "[(Some (''OLD@x.org'', ''''), ''i1''), (None, ''i2''), (Some (''New <n@x.org>'', ''''), ''i3''),
        (Some (''nonsense'', ''''), ''i4''), (Some (''N@x.org'', ''''), ''i5'')]"
  let ?res = "\<lparr>ir_imported = 1, ir_already = 2, ir_invalid = 2, ir_samples = [''nonsense'']\<rparr>"
  let ?new = "\<lparr>sp_id = ''i3'', sp_tenant_id = ''t1'', sp_email = ''n@x.org'',
      sp_reason = ''Imported from a suppression list'', sp_created_at = 9\<rparr>"
  have run: "sup_import sample_parse (suppression_key_of sample_parse) [(True, True)] 9 ''t1'' ?es sample_sups =
      ((None, ?res), sample_sups @ [?new])" by code_simp
  have "on_list ''t1'' ''n@x.org'' (sample_sups @ [?new])"
  proof -
    have fresh: "distinct (map snd ?es)" "snd ` set ?es \<inter> sp_id ` set sample_sups = {}" by code_simp+
    have "(Some (''New <n@x.org>'', ''''), ''i3'') \<in> set ?es" by simp
    moreover have "entry_key sample_parse (suppression_key_of sample_parse) (Some (''New <n@x.org>'', '''')) =
        Some ''n@x.org''" by code_simp
    ultimately show ?thesis using import_accounts [OF run fresh] by blast
  qed
  with run show ?thesis by simp
qed

end
