(* ===== verification/Allowed_Senders.thy ===== *)
theory Allowed_Senders
  imports Suppression_List
begin

text \<open>
  Which From addresses a provider may send as: \<open>internal/email_provider/senders/senders.go\<close>. The
  address parser of gsmail is the argument \<open>parse\<close>. The two regular expressions are predicates on the
  labels of a domain and on the bytes of a local part.
\<close>

section \<open>Entries\<close>

datatype sender_match = Refused | Unrestricted | ByDomain | ByAddress

definition match_allowed :: "sender_match \<Rightarrow> bool" where
  "match_allowed m \<longleftrightarrow> m \<noteq> Refused"

definition is_lower :: "char \<Rightarrow> bool" where
  "is_lower c \<longleftrightarrow> 97 \<le> (of_char c :: nat) \<and> (of_char c :: nat) \<le> 122"

definition is_alnum :: "char \<Rightarrow> bool" where
  "is_alnum c \<longleftrightarrow> is_lower c \<or> 48 \<le> (of_char c :: nat) \<and> (of_char c :: nat) \<le> 57"

definition label_char :: "char \<Rightarrow> bool" where
  "label_char c \<longleftrightarrow> is_alnum c \<or> c = CHR ''-''"

definition domain_label :: "string \<Rightarrow> bool" where
  "domain_label l \<longleftrightarrow> l \<noteq> [] \<and> length l \<le> 63 \<and> is_alnum (hd l) \<and> is_alnum (last l) \<and> list_all label_char l"

definition top_label :: "string \<Rightarrow> bool" where
  "top_label l \<longleftrightarrow> 2 \<le> length l \<and> length l \<le> 63 \<and> is_lower (hd l) \<and> is_alnum (last l) \<and> list_all label_char l"

definition domain_pattern :: "string \<Rightarrow> bool" where
  "domain_pattern d \<longleftrightarrow>
     (let ls = split_on (CHR ''.'') d
      in 2 \<le> length ls \<and> list_all domain_label (butlast ls) \<and> top_label (last ls))"

definition local_char :: "char \<Rightarrow> bool" where
  "local_char c \<longleftrightarrow> is_alnum c \<or> c \<in> set ''.!#$%&+/=?^_{|}~-'' \<or> (of_char c :: nat) \<in> {39, 96}"

definition local_pattern :: "string \<Rightarrow> bool" where
  "local_pattern l \<longleftrightarrow> 1 \<le> length l \<and> length l \<le> 64 \<and> list_all local_char l"

abbreviation (input) at_sign_char :: char where "at_sign_char \<equiv> CHR ''@''"
abbreviation (input) star :: char where "star \<equiv> CHR ''*''"

definition sender_domain :: "string \<Rightarrow> string" where
  "sender_domain a = (case last_index at_sign_char a of None \<Rightarrow> a | Some i \<Rightarrow> drop (Suc i) a)"

section \<open>Normalize\<close>

datatype entry_error = LoneWildcard | WildcardPlace | EmptyPart | InvalidDomain | InvalidLocal

text \<open>The bare address of a display-name form, and \<open>*@\<close> in front of a bare domain.\<close>

definition bare_entry :: "parser \<Rightarrow> string \<Rightarrow> string" where
  "bare_entry parse s =
     (if CHR ''<'' \<in> set s then (case parse s of Some a \<Rightarrow> to_lower a | None \<Rightarrow> s) else s)"

definition check_entry :: "string \<Rightarrow> (entry_error, string) result" where
  "check_entry s =
     (case last_index at_sign_char s of
        None \<Rightarrow> Inl EmptyPart
      | Some i \<Rightarrow>
          let local_part = take i s; domain = drop (Suc i) s
          in if local_part = [] \<or> domain = [] then Inl EmptyPart
             else if (local_part \<noteq> [star] \<and> star \<in> set local_part) \<or> star \<in> set domain then Inl WildcardPlace
             else if \<not> domain_pattern domain then Inl InvalidDomain
             else if local_part \<noteq> [star] \<and> \<not> local_pattern local_part then Inl InvalidLocal
             else Inr (local_part @ at_sign_char # domain))"

definition normalize_entry :: "parser \<Rightarrow> string \<Rightarrow> (entry_error, string) result" where
  "normalize_entry parse raw =
     (let s0 = lower_trim raw
      in if s0 = [] then Inr []
         else
           let s = bare_entry parse s0
           in if s \<in> {''*'', ''*@'', ''*@*''} then Inl LoneWildcard
              else if prefix ''@'' s then check_entry (star # s)
              else if at_sign_char \<notin> set s
              then if star \<in> set s then Inl WildcardPlace else check_entry (''*@'' @ s)
              else check_entry s)"

fun normalize_loop :: "parser \<Rightarrow> string list \<Rightarrow> string list \<Rightarrow> (entry_error, string list) result" where
  "normalize_loop parse seen [] = Inr []"
| "normalize_loop parse seen (raw # rest) =
     (case normalize_entry parse raw of
        Inl e \<Rightarrow> Inl e
      | Inr entry \<Rightarrow>
          if entry = [] \<or> entry \<in> set seen then normalize_loop parse seen rest
          else (case normalize_loop parse (entry # seen) rest of
                  Inl e \<Rightarrow> Inl e
                | Inr out \<Rightarrow> Inr (entry # out)))"

definition normalize_senders :: "parser \<Rightarrow> string list \<Rightarrow> (entry_error, string list) result" where
  "normalize_senders parse entries = normalize_loop parse [] entries"

section \<open>Reading a stored list\<close>

definition canonical_entry :: "string \<Rightarrow> string option" where
  "canonical_entry raw =
     (let s = lower_trim raw
      in if s = [] then None
         else if at_sign_char \<in> set s then Some s
         else Some (''*@'' @ trim_by (\<lambda>c. c = CHR ''.'') s))"

definition canonical :: "string list \<Rightarrow> string list" where
  "canonical stored = map (the \<circ> canonical_entry) (uniq_by canonical_entry [] stored)"

definition sender_address :: "parser \<Rightarrow> string \<Rightarrow> string option" where
  "sender_address parse from =
     (let t = trim_space from; addr = (case parse t of Some a \<Rightarrow> a | None \<Rightarrow> t)
      in case last_index at_sign_char addr of
           None \<Rightarrow> None
         | Some i \<Rightarrow> if i = 0 \<or> Suc i = length addr then None else Some (to_lower addr))"

fun match_entries :: "string \<Rightarrow> string \<Rightarrow> sender_match \<Rightarrow> string list \<Rightarrow> sender_match" where
  "match_entries address domain_entry m [] = m"
| "match_entries address domain_entry m (e # es) =
     (if e = address then ByAddress
      else if e = domain_entry then match_entries address domain_entry ByDomain es
      else match_entries address domain_entry m es)"

definition match_address :: "string list \<Rightarrow> string \<Rightarrow> sender_match" where
  "match_address entries address =
     (if entries = [] then Unrestricted
      else let a = to_lower address in match_entries a (''*@'' @ sender_domain a) Refused (canonical entries))"

definition sender_domains :: "string list \<Rightarrow> string list" where
  "sender_domains entries =
     map sender_domain (uniq_by (\<lambda>e. Some (sender_domain e)) [] (canonical entries))"

section \<open>What an entry admits\<close>

lemma match_entries_spec:
  "match_entries a d m es =
     (if a \<in> set es then ByAddress else if d \<in> set es then ByDomain else m)"
  by (induction es arbitrary: m) auto

lemma canonical_set: "e \<in> set (canonical stored) \<longleftrightarrow> (\<exists>raw \<in> set stored. canonical_entry raw = Some e)"
proof -
  have "Some e \<in> canonical_entry ` set (uniq_by canonical_entry [] stored) \<longleftrightarrow> Some e \<in> canonical_entry ` set stored"
    by (simp add: uniq_by_keys)
  moreover have "e \<in> set (canonical stored) \<longleftrightarrow> Some e \<in> canonical_entry ` set (uniq_by canonical_entry [] stored)"
    using uniq_by_keys_fresh [of _ canonical_entry "[]" stored] by (force simp: canonical_def)
  ultimately show ?thesis by (auto simp: image_iff) metis+
qed

text \<open>
  A restricted provider sends only as the addresses its list names. The match is the exact
  address when the stored list holds it, else the domain when the list holds that domain, bare or
  with a wildcard, else a refusal; an empty list admits everything.
\<close>

theorem match_address_exact:
  "match_address entries address =
     (if entries = [] then Unrestricted
      else if \<exists>raw \<in> set entries. canonical_entry raw = Some (to_lower address) then ByAddress
      else if \<exists>raw \<in> set entries. canonical_entry raw = Some (''*@'' @ sender_domain (to_lower address)) then ByDomain
      else Refused)"
  by (simp add: match_address_def match_entries_spec canonical_set Let_def)

section \<open>What the write path stores is read back as it is\<close>

definition plain_char :: "char \<Rightarrow> bool" where
  "plain_char c \<longleftrightarrow> to_lower_char c = c \<and> \<not> is_space c"

lemma trim_by_plain: "list_all (\<lambda>c. \<not> p c) s \<Longrightarrow> trim_by p s = s"
proof -
  assume s: "list_all (\<lambda>c. \<not> p c) s"
  have "dropWhile p xs = xs" if "list_all (\<lambda>c. \<not> p c) xs" for xs using that by (cases xs) auto
  with s show ?thesis by (simp add: trim_by_def)
qed

lemma lower_trim_plain: "list_all plain_char s \<Longrightarrow> lower_trim s = s"
  by (simp add: lower_trim_def trim_space_def trim_by_plain list_all_iff plain_char_def to_lower_def map_idI)

lemma label_char_plain: "label_char c \<Longrightarrow> plain_char c" and local_char_plain: "local_char c \<Longrightarrow> plain_char c"
  by (auto simp: plain_char_def label_char_def local_char_def is_alnum_def is_lower_def to_lower_char_def
      is_space_def Let_def)

lemma join_plain: "\<forall>l \<in> set ls. list_all plain_char l \<Longrightarrow> list_all plain_char sep \<Longrightarrow> list_all plain_char (join_with sep ls)"
  by (induction sep ls rule: join_with.induct) auto

lemma domain_plain:
  assumes "domain_pattern d"
  shows "list_all plain_char d"
proof -
  let ?ls = "split_on (CHR ''.'') d"
  have "?ls = butlast ?ls @ [last ?ls]" by simp
  then have "set ?ls = set (butlast ?ls) \<union> {last ?ls}"
    by (metis Un_insert_right empty_set list.simps(15) set_append sup_bot.right_neutral)
  with assms have "\<forall>l \<in> set ?ls. list_all plain_char l"
    by (auto simp: domain_pattern_def domain_label_def top_label_def Let_def list_all_iff label_char_plain)
  moreover have "list_all plain_char ''.''"
    by (simp add: plain_char_def to_lower_char_def is_space_def)
  ultimately show ?thesis using join_plain [of ?ls "''.''"] by (simp add: split_on_join)
qed

lemma check_entry_canonical:
  assumes "check_entry s = Inr e"
  shows "canonical_entry e = Some e \<and> e \<noteq> []"
proof -
  from assms obtain i where e: "e = take i s @ at_sign_char # drop (Suc i) s" "domain_pattern (drop (Suc i) s)"
    "take i s = [star] \<or> local_pattern (take i s)"
    by (auto simp: check_entry_def Let_def split: option.splits if_splits)
  have "list_all plain_char (take i s)"
  proof (cases "take i s = [star]")
    case True
    then show ?thesis by (simp add: plain_char_def to_lower_char_def is_space_def)
  next
    case False
    with e(3) show ?thesis by (simp add: local_pattern_def list_all_iff local_char_plain)
  qed
  moreover have "plain_char at_sign_char" by (simp add: plain_char_def to_lower_char_def is_space_def)
  ultimately have "list_all plain_char e" using domain_plain [OF e(2)] by (simp add: e(1))
  then show ?thesis using e(1) by (simp add: canonical_entry_def lower_trim_plain Let_def)
qed

lemma normalize_entry_canonical:
  "normalize_entry parse raw = Inr e \<Longrightarrow> e \<noteq> [] \<Longrightarrow> canonical_entry e = Some e"
  by (auto simp: normalize_entry_def Let_def dest: check_entry_canonical split: if_splits)

lemma normalize_loop_out:
  "normalize_loop parse seen entries = Inr out \<Longrightarrow>
   distinct out \<and> set out \<inter> set seen = {} \<and> (\<forall>e \<in> set out. canonical_entry e = Some e)"
proof (induction entries arbitrary: seen out)
  case (Cons raw rest)
  from Cons.prems obtain e where e: "normalize_entry parse raw = Inr e" by (auto split: sum.splits)
  show ?case
  proof (cases "e = [] \<or> e \<in> set seen")
    case True
    with Cons.prems e Cons.IH show ?thesis by auto
  next
    case False
    with Cons.prems e obtain out' where out: "normalize_loop parse (e # seen) rest = Inr out'" "out = e # out'"
      by (auto split: sum.splits)
    with Cons.IH [OF out(1)] normalize_entry_canonical [OF e] False show ?thesis by auto
  qed
qed simp

lemma uniq_by_id:
  "distinct xs \<Longrightarrow> set xs \<inter> set seen = {} \<Longrightarrow> \<forall>x \<in> set xs. key x = Some x \<Longrightarrow> uniq_by key seen xs = xs"
  by (induction xs arbitrary: seen) auto

text \<open>
  The list the write path accepts is the list the send path reads. What \<open>Normalize\<close> returns is
  unchanged by \<open>Canonical\<close>: no accepted entry is dropped, merged or rewritten when it is matched.
\<close>

lemma normalized_list_stable:
  assumes "normalize_senders parse entries = Inr out"
  shows "canonical out = out"
proof -
  have out: "distinct out" "\<forall>e \<in> set out. canonical_entry e = Some e"
    using normalize_loop_out assms unfolding normalize_senders_def by blast+
  then show ?thesis
    unfolding canonical_def by (simp add: uniq_by_id map_idI)
qed

theorem normalized_list_stable_witness:
  "canonical [''billing@acme.com'', ''*@acme.org'', ''*@acme.net''] = [''billing@acme.com'', ''*@acme.org'', ''*@acme.net'']"
  by (rule normalized_list_stable [of sample_parse
        "['' Billing@Acme.com '', ''acme.org'', ''@acme.net'', '''', ''billing@acme.com'']"]) code_simp

end
