(* ===== verification/Event_Log.thy ===== *)
theory Event_Log
  imports Bounce_Class Suppression_List "HOL-Library.List_Lexorder" "HOL-Library.Char_ord"
begin

text \<open>
  The delivery events of \<open>internal/event\<close>: \<open>RecordEvent\<close> with what it sets off
  (\<open>usecases/process_event_usecase.go\<close>), the table operations it uses
  (\<open>repositories/stores/postgres/store.go\<close> and \<open>events.go\<close>), and the reading of a message's history
  that decides which recipients are finished (\<open>internal/email/usecases/send_email_usecase.go\<close>).

  The log holds the events and the stored messages, the suppression list, the cache of provider
  names, the events handed to the webhook trigger, and the counter of sent messages. A write that is
  carried out is in the history from then on: the batching of the shared store's writer is not part
  of the model. Metadata and attachments are opaque strings. \<open>uuid.Parse\<close> is the test
  \<open>ec_internal_id\<close> and gsmail's normalisation \<open>ec_norm_addr\<close>.
\<close>

section \<open>Events, messages and the log\<close>

record email_event =
  ev_id :: string
  ev_tenant_id :: string
  ev_provider_id :: string
  ev_provider_name :: string
  ev_message_id :: string
  ev_type :: email_event_type
  ev_recipient :: string
  ev_subject :: string
  ev_timestamp :: time
  ev_metadata :: string
  ev_error_message :: string

record email_message =
  em_id :: string
  em_tenant_id :: string
  em_provider_id :: string
  em_from :: string
  em_to :: "string list"
  em_cc :: "string list"
  em_bcc :: "string list"
  em_subject :: string
  em_body_html :: string
  em_body_text :: string
  em_attachments :: string
  em_created_at :: time

datatype webhook_trigger =
    TriggerUnspecified | TriggerMailSent | TriggerMailDelivered | TriggerMailOpened | TriggerMailClicked
  | TriggerMailBounced | TriggerMailRejected | TriggerMailInbound | TriggerMailHeld | TriggerMailReleased
  | TriggerMailQuarantineRejected | TriggerMailExpired

record event_log =
  el_events :: "email_event list"
  el_messages :: "email_message list"
  el_names :: "(string \<times> string) list"
  el_sups :: "suppression list"
  el_triggers :: "(string \<times> webhook_trigger \<times> email_event) list"
  el_sent :: nat

text \<open>How the use case is wired, and what one call meets: fresh identifiers, the clock, the provider
  name a lookup would return, and which of its store calls are carried out.\<close>

record event_config =
  ec_internal_id :: "string \<Rightarrow> bool"
  ec_norm_addr :: "string \<Rightarrow> string"
  ec_webhooks :: bool
  ec_suppressor :: bool
  ec_backfiller :: bool

record record_env =
  re_event_id :: string
  re_sup_id :: string
  re_now :: time
  re_provider_name :: "string option"
  re_get_ok :: bool
  re_latest_ok :: bool
  re_write_ok :: bool
  re_backfill_ok :: bool
  re_sup_ok :: bool

section \<open>The store\<close>

definition event_get_message :: "bool \<Rightarrow> string \<Rightarrow> string \<Rightarrow> event_log \<Rightarrow> email_message option" where
  "event_get_message ok tenant mid log =
     (if ok then find_row (\<lambda>m. em_tenant_id m = tenant \<and> em_id m = mid) (el_messages log) else None)"

definition latest_message_for_recipient :: "bool \<Rightarrow> string \<Rightarrow> string \<Rightarrow> event_log \<Rightarrow> email_message option" where
  "latest_message_for_recipient ok tenant recipient log =
     (case rev (sort_key ev_timestamp
             (filter (\<lambda>e. ev_tenant_id e = tenant \<and> ev_recipient e = recipient) (el_events log))) of
        [] \<Rightarrow> None
      | e # _ \<Rightarrow> event_get_message ok tenant (ev_message_id e) log)"

text \<open>An insert, or on a conflict of identifiers an update of the provider when the new one has one.\<close>

definition event_write_message :: "bool \<Rightarrow> email_message \<Rightarrow> event_log \<Rightarrow> bool \<times> event_log" where
  "event_write_message ok m log =
     (if \<not> ok then (False, log)
      else if \<exists>x \<in> set (el_messages log). em_id x = em_id m
      then (True, log\<lparr>el_messages := update_where (\<lambda>x. em_id x = em_id m)
              (\<lambda>x. if em_provider_id m = [] then x else x\<lparr>em_provider_id := em_provider_id m\<rparr>) (el_messages log)\<rparr>)
      else (True, log\<lparr>el_messages := el_messages log @ [m]\<rparr>))"

definition backfill_message_provider :: "bool \<Rightarrow> string \<Rightarrow> string \<Rightarrow> string \<Rightarrow> event_log \<Rightarrow> event_log" where
  "backfill_message_provider ok tenant mid provider log =
     (if \<not> ok then log
      else log\<lparr>el_messages := update_where
             (\<lambda>m. em_tenant_id m = tenant \<and> em_id m = mid \<and> em_provider_id m = [])
             (\<lambda>m. m\<lparr>em_provider_id := provider\<rparr>) (el_messages log)\<rparr>)"

definition list_by_message_id :: "bool \<Rightarrow> string \<Rightarrow> string \<Rightarrow> event_log \<Rightarrow> email_event list option" where
  "list_by_message_id ok tenant mid log =
     (if \<not> ok then None
      else Some (sort_key ev_timestamp (sort_key ev_id
             (filter (\<lambda>e. ev_tenant_id e = tenant \<and> ev_message_id e = mid) (el_events log)))))"

section \<open>RecordEvent\<close>

definition map_to_webhook_trigger :: "email_event_type \<Rightarrow> webhook_trigger" where
  "map_to_webhook_trigger t =
     (case t of
        EventSent \<Rightarrow> TriggerMailSent
      | EventDelivered \<Rightarrow> TriggerMailDelivered
      | EventOpened \<Rightarrow> TriggerMailOpened
      | EventClicked \<Rightarrow> TriggerMailClicked
      | EventBounced \<Rightarrow> TriggerMailBounced
      | EventHardBounce \<Rightarrow> TriggerMailBounced
      | EventSoftBounce \<Rightarrow> TriggerMailBounced
      | EventRejected \<Rightarrow> TriggerMailRejected
      | EventDropped \<Rightarrow> TriggerMailRejected
      | _ \<Rightarrow> TriggerUnspecified)"

definition get_provider_name :: "record_env \<Rightarrow> string \<Rightarrow> string \<Rightarrow> event_log \<Rightarrow> string \<times> event_log" where
  "get_provider_name env tenant provider log =
     (if provider = [] then ([], log)
      else
        let key = tenant @ '':'' @ provider
        in case map_of (el_names log) key of
             Some n \<Rightarrow> (n, log)
           | None \<Rightarrow>
               (case re_provider_name env of
                  Some n \<Rightarrow> (n, log\<lparr>el_names := AList.update key n (el_names log)\<rparr>)
                | None \<Rightarrow> ([], log)))"

definition refine_type :: "email_event_type \<Rightarrow> string \<Rightarrow> email_event_type" where
  "refine_type t err =
     (if t = EventBounced \<and> err \<noteq> [] \<and> cl_type (classify_error err) \<noteq> EventUnspecified
      then cl_type (classify_error err) else t)"

text \<open>The fields an event arrives without, taken from the stored message.\<close>

record event_fields =
  ef_provider :: string
  ef_message :: string
  ef_recipient :: string
  ef_subject :: string

definition sole_recipient :: "email_message \<Rightarrow> string option" where
  "sole_recipient m =
     (if length (em_to m) + length (em_cc m) + length (em_bcc m) \<noteq> 1 then None
      else if length (em_to m) = 1 then Some (hd (em_to m))
      else if length (em_cc m) = 1 then Some (hd (em_cc m))
      else Some (hd (em_bcc m)))"

definition fill_from :: "email_message \<Rightarrow> event_fields \<Rightarrow> event_fields" where
  "fill_from m f =
     f\<lparr>ef_provider := (if ef_provider f = [] then em_provider_id m else ef_provider f),
       ef_recipient :=
         (if ef_recipient f = []
          then (case sole_recipient m of Some r \<Rightarrow> r | None \<Rightarrow> [])
          else ef_recipient f),
       ef_subject := (if ef_subject f = [] then em_subject m else ef_subject f)\<rparr>"

definition needs_lookup :: "event_config \<Rightarrow> event_fields \<Rightarrow> bool" where
  "needs_lookup cfg f \<longleftrightarrow>
     ef_message f \<noteq> [] \<and>
     (ef_provider f = [] \<or> ef_recipient f = [] \<or> ef_subject f = [] \<or> \<not> ec_internal_id cfg (ef_message f))"

definition recover_fields ::
  "event_config \<Rightarrow> record_env \<Rightarrow> string \<Rightarrow> event_log \<Rightarrow> event_fields \<Rightarrow> email_message option \<times> event_fields" where
  "recover_fields cfg env tenant log f =
     (if \<not> needs_lookup cfg f then (None, f)
      else
        let direct = event_get_message (re_get_ok env) tenant (ef_message f) log;
            (found, f') =
              (case direct of
                 Some m \<Rightarrow> (Some m, f)
               | None \<Rightarrow>
                   if ef_recipient f \<noteq> [] \<and> \<not> ec_internal_id cfg (ef_message f)
                   then (case latest_message_for_recipient (re_latest_ok env) tenant (ef_recipient f) log of
                           Some m \<Rightarrow> (Some m, f\<lparr>ef_message := em_id m\<rparr>)
                         | None \<Rightarrow> (None, f))
                   else (None, f))
        in (found, case found of Some m \<Rightarrow> fill_from m f' | None \<Rightarrow> f'))"

definition backfill_provider ::
  "event_config \<Rightarrow> record_env \<Rightarrow> string \<Rightarrow> string \<Rightarrow> string \<Rightarrow> email_message option \<Rightarrow> bool \<Rightarrow> event_log \<Rightarrow> event_log" where
  "backfill_provider cfg env tenant mid provider msg looked log =
     (if (case msg of Some m \<Rightarrow> em_provider_id m \<noteq> [] | None \<Rightarrow> False) then log
      else if looked \<and> msg = None then log
      else if ec_backfiller cfg then backfill_message_provider (re_backfill_ok env) tenant mid provider log
      else
        case (case msg of Some m \<Rightarrow> Some m | None \<Rightarrow> event_get_message (re_get_ok env) tenant mid log) of
          None \<Rightarrow> log
        | Some m \<Rightarrow>
            if msg = None \<and> em_provider_id m \<noteq> [] then log
            else snd (event_write_message (re_backfill_ok env) (m\<lparr>em_provider_id := provider\<rparr>) log))"

definition suppress_for_event ::
  "event_config \<Rightarrow> record_env \<Rightarrow> string \<Rightarrow> email_event_type \<Rightarrow> string \<Rightarrow> string \<Rightarrow> event_log \<Rightarrow> event_log" where
  "suppress_for_event cfg env tenant t recipient err log =
     (if \<not> ec_suppressor cfg \<or> recipient = [] \<or> tenant = [] then log
      else
        case (case t of
                EventHardBounce \<Rightarrow> Some ''Automatic suppression after a hard bounce''
              | EventSpamReport \<Rightarrow> Some ''Automatic suppression after a spam complaint''
              | _ \<Rightarrow> None) of
          None \<Rightarrow> log
        | Some reason \<Rightarrow>
            log\<lparr>el_sups := snd (sup_add (ec_norm_addr cfg) (re_sup_ok env) (re_sup_id env) (re_now env) tenant
                  recipient (if err \<noteq> [] then reason @ '': '' @ err else reason) (el_sups log))\<rparr>)"

definition announce ::
  "event_config \<Rightarrow> string \<Rightarrow> email_event \<Rightarrow> event_log \<Rightarrow> event_log" where
  "announce cfg tenant e log =
     (if ec_webhooks cfg \<and> map_to_webhook_trigger (ev_type e) \<noteq> TriggerUnspecified
      then log\<lparr>el_triggers := el_triggers log @ [(tenant, map_to_webhook_trigger (ev_type e), e)]\<rparr>
      else log)"

definition record_event ::
  "event_config \<Rightarrow> record_env \<Rightarrow> string \<Rightarrow> string \<Rightarrow> string \<Rightarrow> email_event_type \<Rightarrow> string \<Rightarrow> string \<Rightarrow> string
    \<Rightarrow> string \<Rightarrow> event_log \<Rightarrow> bool \<times> event_log" where
  "record_event cfg env tenant provider mid t recipient subject err metadata log =
     (let t' = refine_type t err;
          log1 = (if t' = EventSent then log\<lparr>el_sent := Suc (el_sent log)\<rparr> else log);
          f0 = \<lparr>ef_provider = provider, ef_message = mid, ef_recipient = lower_trim recipient, ef_subject = subject\<rparr>;
          (msg, f) = recover_fields cfg env tenant log1 f0;
          (name, log2) = get_provider_name env tenant (ef_provider f) log1;
          e = \<lparr>ev_id = re_event_id env, ev_tenant_id = tenant, ev_provider_id = ef_provider f,
               ev_provider_name = name, ev_message_id = ef_message f, ev_type = t',
               ev_recipient = ef_recipient f, ev_subject = ef_subject f, ev_timestamp = re_now env,
               ev_metadata = metadata, ev_error_message = err\<rparr>
      in if \<not> re_write_ok env then (False, log2)
         else
           let log3 = log2\<lparr>el_events := el_events log2 @ [e]\<rparr>;
               log4 = (if t' = EventDelivered \<and> ef_provider f \<noteq> [] \<and> ef_message f \<noteq> []
                       then backfill_provider cfg env tenant (ef_message f) (ef_provider f) msg
                              (needs_lookup cfg f0) log3
                       else log3);
               log5 = announce cfg tenant e log4
           in (True, suppress_for_event cfg env tenant t' (ef_recipient f) err log5))"

definition save_message :: "bool \<Rightarrow> time \<Rightarrow> email_message \<Rightarrow> event_log \<Rightarrow> bool \<times> event_log" where
  "save_message ok now m log = event_write_message ok (m\<lparr>em_created_at := now\<rparr>) log"

section \<open>Finished recipients\<close>

definition settled_events :: "email_event_type \<Rightarrow> bool" where
  "settled_events t \<longleftrightarrow>
     t \<in> {EventHardBounce, EventSpamReport, EventComplained, EventUnsubscribed, EventRejected, EventDropped}"

text \<open>The three maps of \<open>finishedFrom\<close>, as the predicates they are used as.\<close>

definition delivered_map :: "email_event list \<Rightarrow> string \<Rightarrow> bool" where
  "delivered_map evs r = list_ex (\<lambda>e. ev_type e = EventDelivered \<and> ev_recipient e = r) evs"

definition settled_map :: "email_event list \<Rightarrow> string \<Rightarrow> bool" where
  "settled_map evs r = list_ex (\<lambda>e. settled_events (ev_type e) \<and> ev_recipient e = r) evs"

definition finished_from :: "email_event list \<Rightarrow> string \<Rightarrow> bool" where
  "finished_from evs r = (delivered_map evs r \<or> settled_map evs r)"

definition finished_recipients :: "bool \<Rightarrow> string \<Rightarrow> string \<Rightarrow> event_log \<Rightarrow> (string \<Rightarrow> bool) option" where
  "finished_recipients ok tenant mid log = map_option finished_from (list_by_message_id ok tenant mid log)"

section \<open>What recording adds\<close>

lemma events_frame [simp]:
  "el_events (backfill_provider cfg env tenant mid p msg looked log) = el_events log"
  "el_sups (backfill_provider cfg env tenant mid p msg looked log) = el_sups log"
  "el_events (announce cfg tenant e log) = el_events log"
  "el_sups (announce cfg tenant e log) = el_sups log"
  "el_events (suppress_for_event cfg env tenant t r err log) = el_events log"
  "el_events (snd (event_write_message ok m log)) = el_events log"
  "el_sups (snd (event_write_message ok m log)) = el_sups log"
  by (simp_all add: backfill_provider_def backfill_message_provider_def event_write_message_def announce_def
      suppress_for_event_def split: option.split email_event_type.split)

lemma provider_name_frame [simp]:
  "el_events (snd (get_provider_name env tenant p log)) = el_events log"
  "el_sups (snd (get_provider_name env tenant p log)) = el_sups log"
  by (simp_all add: get_provider_name_def Let_def split: option.split)

lemma fill_from_known [simp]:
  "ef_message (fill_from m f) = ef_message f"
  "ef_recipient f \<noteq> [] \<Longrightarrow> ef_recipient (fill_from m f) = ef_recipient f"
  by (simp_all add: fill_from_def)

lemma recover_known:
  assumes "ef_recipient f \<noteq> []" "ec_internal_id cfg (ef_message f)"
  shows "ef_message (snd (recover_fields cfg env tenant log f)) = ef_message f \<and>
    ef_recipient (snd (recover_fields cfg env tenant log f)) = ef_recipient f"
  using assms by (simp add: recover_fields_def Let_def split: option.split)

definition event_for ::
  "string \<Rightarrow> string \<Rightarrow> email_event_type \<Rightarrow> string \<Rightarrow> email_event \<Rightarrow> bool" where
  "event_for tenant mid t r e \<longleftrightarrow>
     ev_tenant_id e = tenant \<and> ev_message_id e = mid \<and> ev_type e = t \<and> ev_recipient e = r"

text \<open>
  A caller that names the recipient and one of our own message identifiers gets exactly one event,
  under the lower-cased recipient, when the write is carried out, and none otherwise.
\<close>

lemma record_event_shape:
  assumes "lower_trim r \<noteq> []" "ec_internal_id cfg mid"
  obtains e log1 log2 where
    "record_event cfg env tenant p mid t r subj err md log =
       (if re_write_ok env then (True, suppress_for_event cfg env tenant (refine_type t err) (lower_trim r) err log2)
        else (False, log1))"
    "event_for tenant mid (refine_type t err) (lower_trim r) e"
    "el_events log1 = el_events log" "el_sups log1 = el_sups log"
    "el_events log2 = el_events log @ [e]" "el_sups log2 = el_sups log"
proof -
  let ?f0 = "\<lparr>ef_provider = p, ef_message = mid, ef_recipient = lower_trim r, ef_subject = subj\<rparr>"
  let ?t = "refine_type t err"
  define l1 where "l1 = (if ?t = EventSent then log\<lparr>el_sent := Suc (el_sent log)\<rparr> else log)"
  obtain msg f where rec: "recover_fields cfg env tenant l1 ?f0 = (msg, f)" by (metis surj_pair)
  obtain name l2 where nm: "get_provider_name env tenant (ef_provider f) l1 = (name, l2)" by (metis surj_pair)
  have l2: "el_events l2 = el_events log" "el_sups l2 = el_sups log"
    using provider_name_frame [of env tenant "ef_provider f" l1, unfolded nm] by (simp_all add: l1_def)
  have f: "ef_message f = mid" "ef_recipient f = lower_trim r"
    using recover_known [of ?f0 cfg env tenant l1] assms rec by simp_all
  define e where "e = \<lparr>ev_id = re_event_id env, ev_tenant_id = tenant, ev_provider_id = ef_provider f,
      ev_provider_name = name, ev_message_id = ef_message f, ev_type = ?t, ev_recipient = ef_recipient f,
      ev_subject = ef_subject f, ev_timestamp = re_now env, ev_metadata = md, ev_error_message = err\<rparr>"
  define l3 where "l3 = l2\<lparr>el_events := el_events l2 @ [e]\<rparr>"
  define l4 where "l4 = (if ?t = EventDelivered \<and> ef_provider f \<noteq> [] \<and> ef_message f \<noteq> []
      then backfill_provider cfg env tenant (ef_message f) (ef_provider f) msg (needs_lookup cfg ?f0) l3 else l3)"
  have l4: "el_events l4 = el_events log @ [e]" "el_sups l4 = el_sups log"
    by (simp_all add: l4_def l3_def l2)
  show ?thesis
  proof (rule that [of "announce cfg tenant e l4" l2 e])
    show "event_for tenant mid ?t (lower_trim r) e" by (simp add: event_for_def e_def f)
    show "record_event cfg env tenant p mid t r subj err md log =
       (if re_write_ok env then (True, suppress_for_event cfg env tenant ?t (lower_trim r) err (announce cfg tenant e l4))
        else (False, l2))"
      by (simp add: record_event_def Let_def rec nm f l4_def l3_def e_def flip: l1_def)
  qed (simp_all add: l2 l4)
qed

lemma record_event_events:
  assumes "lower_trim r \<noteq> []" "ec_internal_id cfg mid"
  shows "fst (record_event cfg env tenant p mid t r subj err md log) = re_write_ok env"
    and "\<exists>e. event_for tenant mid (refine_type t err) (lower_trim r) e \<and>
      el_events (snd (record_event cfg env tenant p mid t r subj err md log)) =
        el_events log @ (if re_write_ok env then [e] else [])"
  by (rule record_event_shape [OF assms, of env tenant p t subj err md log]; auto)+

lemma add_listed:
  assumes "ok" "suppression_key norm_addr r \<noteq> []" "new_id \<notin> sp_id ` set rows"
  shows "on_list tenant (suppression_key norm_addr r) (snd (sup_add norm_addr ok new_id now tenant r reason rows))"
  using assms
  by (auto simp: sup_add_def sup_create_def sup_conflicts_def on_list_def same_mailbox_def Let_def image_iff)

lemma add_keeps: "set rows \<subseteq> set (snd (sup_add norm_addr ok new_id now tenant r reason rows))"
  by (auto simp: sup_add_def sup_create_def Let_def split: sum.split)

definition condemns :: "email_event_type \<Rightarrow> bool" where
  "condemns t \<longleftrightarrow> t = EventHardBounce \<or> t = EventSpamReport"

lemma suppress_for_event_sups:
  "\<not> condemns t \<Longrightarrow> el_sups (suppress_for_event cfg env tenant t r err log) = el_sups log"
  "set (el_sups log) \<subseteq> set (el_sups (suppress_for_event cfg env tenant t r err log))"
  using add_keeps
  by (auto simp: condemns_def suppress_for_event_def split: email_event_type.split)

lemma suppress_for_event_listed:
  assumes "condemns t" "ec_suppressor cfg" "re_sup_ok env" "r \<noteq> []" "tenant \<noteq> []"
    "suppression_key (ec_norm_addr cfg) r \<noteq> []" "re_sup_id env \<notin> sp_id ` set (el_sups log)"
  shows "on_list tenant (suppression_key (ec_norm_addr cfg) r) (el_sups (suppress_for_event cfg env tenant t r err log))"
  using assms add_listed [of "re_sup_ok env" "ec_norm_addr cfg" r "re_sup_id env" "el_sups log"]
  by (auto simp: condemns_def suppress_for_event_def)


text \<open>
  C23. The suppression list grows with hard bounces and complaints, and with nothing else. Recording
  an event whose refined type is one of the two puts the recipient's mailbox on the tenant's list;
  any other event, or a write that is not carried out, leaves the list as it was, and no event takes
  an entry off it.
\<close>

theorem event_suppression_exact:
  assumes "lower_trim r \<noteq> []" "ec_internal_id cfg mid" "ec_suppressor cfg" "re_sup_ok env" "tenant \<noteq> []"
    "suppression_key (ec_norm_addr cfg) (lower_trim r) \<noteq> []" "re_sup_id env \<notin> sp_id ` set (el_sups log)"
    "record_event cfg env tenant p mid t r subj err md log = (ok, log')"
  shows "set (el_sups log) \<subseteq> set (el_sups log') \<and>
    (if ok \<and> (refine_type t err = EventHardBounce \<or> refine_type t err = EventSpamReport)
     then on_list tenant (suppression_key (ec_norm_addr cfg) (lower_trim r)) (el_sups log')
     else el_sups log' = el_sups log)"
proof -
  obtain e l1 l2 where sh: "record_event cfg env tenant p mid t r subj err md log =
       (if re_write_ok env then (True, suppress_for_event cfg env tenant (refine_type t err) (lower_trim r) err l2)
        else (False, l1))"
    "el_sups l1 = el_sups log" "el_sups l2 = el_sups log"
    using record_event_shape [OF assms(1,2), of env tenant p t subj err md log] by metis
  show ?thesis
  proof (cases "re_write_ok env")
    case True
    with sh(1) assms(8) have ok: "ok"
      "log' = suppress_for_event cfg env tenant (refine_type t err) (lower_trim r) err l2" by simp_all
    show ?thesis
      using suppress_for_event_sups [where log = l2 and cfg = cfg and env = env and tenant = tenant and
          err = err and r = "lower_trim r" and t = "refine_type t err"]
        suppress_for_event_listed [OF _ assms(3,4,1,5,6), of "refine_type t err" l2 err] assms(7) sh(3) ok
      by (auto simp: condemns_def)
  next
    case False
    with sh assms(8) show ?thesis by auto
  qed
qed

section \<open>Histories only grow\<close>

lemma history_members:
  "set (the (list_by_message_id True tenant mid log)) =
     {e \<in> set (el_events log). ev_tenant_id e = tenant \<and> ev_message_id e = mid}"
  by (auto simp: list_by_message_id_def)

lemma finished_iff:
  "finished_from evs r \<longleftrightarrow>
     (\<exists>e \<in> set evs. ev_recipient e = r \<and> (ev_type e = EventDelivered \<or> settled_events (ev_type e)))"
  by (auto simp: finished_from_def delivered_map_def settled_map_def list_ex_iff)

definition has_event :: "string \<Rightarrow> string \<Rightarrow> email_event_type \<Rightarrow> string \<Rightarrow> event_log \<Rightarrow> bool" where
  "has_event tenant mid t r log \<longleftrightarrow> (\<exists>e \<in> set (el_events log). event_for tenant mid t r e)"

lemma delivered_iff_event:
  "list_by_message_id True tenant mid log = Some evs \<Longrightarrow>
   delivered_map evs r \<longleftrightarrow> has_event tenant mid EventDelivered r log"
  using history_members [of tenant mid log]
  by (auto simp: delivered_map_def list_ex_iff has_event_def event_for_def)

lemma settled_iff_event:
  "list_by_message_id True tenant mid log = Some evs \<Longrightarrow>
   settled_map evs r \<longleftrightarrow> (\<exists>t. settled_events t \<and> has_event tenant mid t r log)"
  using history_members [of tenant mid log]
  by (auto simp: settled_map_def list_ex_iff has_event_def event_for_def)

text \<open>What a record call does to the events of a message, as an equivalence on \<open>has_event\<close>.\<close>

lemma record_event_has:
  assumes "lower_trim r \<noteq> []" "ec_internal_id cfg mid"
  shows "has_event tenant' mid' t' r' (snd (record_event cfg env tenant p mid t r subj err md log)) \<longleftrightarrow>
    has_event tenant' mid' t' r' log \<or>
    re_write_ok env \<and> tenant' = tenant \<and> mid' = mid \<and> t' = refine_type t err \<and> r' = lower_trim r"
proof -
  obtain e where e: "event_for tenant mid (refine_type t err) (lower_trim r) e"
    "el_events (snd (record_event cfg env tenant p mid t r subj err md log)) =
        el_events log @ (if re_write_ok env then [e] else [])"
    using record_event_events(2) [OF assms] by blast
  then show ?thesis unfolding has_event_def e(2) by (auto simp: event_for_def)
qed

lemma record_event_grows:
  "set (el_events log) \<subseteq> set (el_events (snd (record_event cfg env tenant p mid t r subj err md log)))"
proof -
  obtain msg f where rec: "recover_fields cfg env tenant
      (if refine_type t err = EventSent then log\<lparr>el_sent := Suc (el_sent log)\<rparr> else log)
      \<lparr>ef_provider = p, ef_message = mid, ef_recipient = lower_trim r, ef_subject = subj\<rparr> = (msg, f)"
    by (metis surj_pair)
  obtain name l2 where nm: "get_provider_name env tenant (ef_provider f)
      (if refine_type t err = EventSent then log\<lparr>el_sent := Suc (el_sent log)\<rparr> else log) = (name, l2)"
    by (metis surj_pair)
  have "el_events l2 = el_events log"
    using provider_name_frame(1) [of env tenant "ef_provider f"
        "if refine_type t err = EventSent then log\<lparr>el_sent := Suc (el_sent log)\<rparr> else log", unfolded nm]
    by simp
  then show ?thesis by (auto simp: record_event_def Let_def rec nm)
qed

lemma refine_other [simp]: "t \<noteq> EventBounced \<Longrightarrow> refine_type t err = t"
  by (simp add: refine_type_def)

lemma refine_bounced_not_delivered: "t \<noteq> EventDelivered \<Longrightarrow> refine_type t err \<noteq> EventDelivered"
  by (simp add: refine_type_def never_delivered)

section \<open>Instances\<close>

definition sample_event_config :: event_config where
  "sample_event_config =
     \<lparr>ec_internal_id = (\<lambda>m. take 1 m = ''m''), ec_norm_addr = suppression_key_of sample_parse, ec_webhooks = True,
      ec_suppressor = True, ec_backfiller = True\<rparr>"

definition sample_record_env :: record_env where
  "sample_record_env =
     \<lparr>re_event_id = ''e1'', re_sup_id = ''s2'', re_now = 5, re_provider_name = Some ''relay'', re_get_ok = True,
      re_latest_ok = True, re_write_ok = True, re_backfill_ok = True, re_sup_ok = True\<rparr>"

definition sample_log :: event_log where
  "sample_log =
     \<lparr>el_events = [], el_messages = [], el_names = [], el_sups = sample_sups, el_triggers = [], el_sent = 0\<rparr>"

lemmas sample_event_simps =
  sample_event_config_def sample_record_env_def sample_log_def sample_sups_def sample_parse_def

theorem event_suppression_exact_witness:
  "on_list ''t1'' ''amy@x.org'' (el_sups (snd (record_event sample_event_config sample_record_env ''t1'' ''p1'' ''m1''
     EventBounced ''Amy@x.org'' ''Hi'' ''550 5.1.1 user unknown'' [] sample_log)))"
proof -
  let ?res = "record_event sample_event_config sample_record_env ''t1'' ''p1'' ''m1''
     EventBounced ''Amy@x.org'' ''Hi'' ''550 5.1.1 user unknown'' [] sample_log"
  have key: "lower_trim ''Amy@x.org'' = ''amy@x.org''" by code_simp
  have ref: "refine_type EventBounced ''550 5.1.1 user unknown'' = EventHardBounce" by code_simp
  have sk: "suppression_key (ec_norm_addr sample_event_config) ''amy@x.org'' = ''amy@x.org''" by code_simp
  have pre: "ec_internal_id sample_event_config ''m1''" "ec_suppressor sample_event_config"
    "re_sup_ok sample_record_env" "re_sup_id sample_record_env \<notin> sp_id ` set (el_sups sample_log)"
    by (simp_all add: sample_event_simps)
  have ok: "fst ?res" using record_event_events(1) [OF _ pre(1), of "''Amy@x.org''"] key
    by (simp add: sample_record_env_def)
  show ?thesis
    using event_suppression_exact [OF _ pre(1-3) _ _ pre(4), of "''Amy@x.org''" "''t1''" "''p1''" EventBounced
        "''Hi''" "''550 5.1.1 user unknown''" "[]" "fst ?res" "snd ?res"] ok
    by (simp add: key ref sk prod_eq_iff)
qed

end
