(* ===== verification/Send_Request.thy ===== *)
theory Send_Request
  imports Suppression_List Message_Filter
begin

text \<open>
  A send request and the checks admission makes on it before it looks anything up: attachments
  (\<open>attachments.go\<close>), reply and threading headers (\<open>reply_headers.go\<close>), the idempotency key
  (\<open>send_idempotency.go\<close>), the cost of a send (\<open>send_rate_limit.go\<close>) and the projection onto what filter
  rules see (\<open>filter_projection.go\<close>), all of \<open>internal/email/usecases\<close>.

  Attachment contents are byte lists. Template data is an opaque string.
\<close>

record req_attachment =
  ra_filename :: string
  ra_content_type :: string
  ra_content_id :: string
  ra_content :: string

record send_request =
  rq_from :: string
  rq_to :: "string list"
  rq_cc :: "string list"
  rq_bcc :: "string list"
  rq_provider_id :: string
  rq_subject :: string
  rq_body_html :: string
  rq_body_text :: string
  rq_body :: string
  rq_is_html :: bool
  rq_template_id :: string
  rq_template_data :: string
  rq_attachments :: "req_attachment option list"
  rq_reply_to :: string
  rq_in_reply_to :: string
  rq_references :: "string list"
  rq_disposition_notification_to :: string
  rq_idempotency_key :: string
  rq_save_sent_copy :: bool

section \<open>Attachments\<close>

definition max_attachment_bytes :: nat where "max_attachment_bytes = 25 * 1024 * 1024"
definition max_attachments :: nat where "max_attachments = 100"
definition max_message_id_length :: nat where "max_message_id_length = 255"

datatype request_error =
    TooManyAttachments nat | ContentIdTooLong nat | ContentIdBytes | AttachmentsTooLarge
  | InvalidReplyTo | InvalidDispositionTo | InReplyToProblem | TooManyReferences nat | ReferencesProblem
  | KeyTooLong nat | KeyBytes

text \<open>A byte that may stand in one header token: printable ASCII, no space, no angle bracket.\<close>

definition token_char :: "char \<Rightarrow> bool" where
  "token_char c \<longleftrightarrow> 32 < (of_char c :: nat) \<and> (of_char c :: nat) \<le> 126 \<and> c \<noteq> CHR ''<'' \<and> c \<noteq> CHR ''>''"

definition content_id_problem :: "string \<Rightarrow> request_error option" where
  "content_id_problem cid =
     (if cid = [] then None
      else if length cid > max_message_id_length then Some (ContentIdTooLong (length cid))
      else if \<not> list_all token_char cid then Some ContentIdBytes
      else None)"

fun check_attachments :: "nat \<Rightarrow> req_attachment option list \<Rightarrow> request_error option" where
  "check_attachments acc [] = None"
| "check_attachments acc (None # as) = check_attachments acc as"
| "check_attachments acc (Some a # as) =
     (case content_id_problem (ra_content_id a) of
        Some e \<Rightarrow> Some e
      | None \<Rightarrow>
          let acc' = acc + length (ra_content a)
          in if acc' > max_attachment_bytes then Some AttachmentsTooLarge else check_attachments acc' as)"

definition validate_attachments :: "send_request \<Rightarrow> request_error option" where
  "validate_attachments req =
     (if rq_attachments req = [] then None
      else if length (rq_attachments req) > max_attachments
      then Some (TooManyAttachments (length (rq_attachments req)))
      else check_attachments 0 (rq_attachments req))"

section \<open>Reply and threading headers\<close>

definition max_references :: nat where "max_references = 100"
definition max_references_line_bytes :: nat where "max_references_line_bytes = 900"

definition message_id_problem :: "string \<Rightarrow> bool" where
  "message_id_problem mid =
     (if length mid > max_message_id_length then True
      else if length mid < 5 \<or> mid ! 0 \<noteq> CHR ''<'' \<or> last mid \<noteq> CHR ''>'' then True
      else
        let inner = butlast (tl mid)
        in if \<not> list_all token_char inner then True
           else (case index_of (CHR ''@'') inner of
                   None \<Rightarrow> True
                 | Some i \<Rightarrow> i = 0 \<or> Suc i = length inner))"

definition validate_reply_headers :: "parser \<Rightarrow> send_request \<Rightarrow> request_error option" where
  "validate_reply_headers parse req =
     (if rq_reply_to req \<noteq> [] \<and> parse (rq_reply_to req) = None then Some InvalidReplyTo
      else if rq_disposition_notification_to req \<noteq> [] \<and> parse (rq_disposition_notification_to req) = None
      then Some InvalidDispositionTo
      else if rq_in_reply_to req \<noteq> [] \<and> message_id_problem (rq_in_reply_to req) then Some InReplyToProblem
      else if length (rq_references req) > max_references then Some (TooManyReferences (length (rq_references req)))
      else if list_ex message_id_problem (rq_references req) then Some ReferencesProblem
      else None)"

text \<open>
  The loop of \<open>referencesLine\<close> walks back from the end while the identifiers fit. \<open>rest\<close> is the reversed
  tail of the list that is still to be considered, \<open>kept\<close> what was kept so far.
\<close>

fun keep_recent :: "nat \<Rightarrow> string list \<Rightarrow> string list \<Rightarrow> string list" where
  "keep_recent used [] kept = kept"
| "keep_recent used (x # rest) kept =
     (if used + 1 + length x \<le> max_references_line_bytes
      then keep_recent (used + 1 + length x) rest (x # kept) else kept)"

definition references_line :: "string list \<Rightarrow> string" where
  "references_line ids =
     (case ids of
        [] \<Rightarrow> []
      | first # others \<Rightarrow>
          if length (join_with '' '' ids) \<le> max_references_line_bytes then join_with '' '' ids
          else join_with '' '' (first # keep_recent (length first) (rev others) []))"

definition header_in_reply_to :: string where "header_in_reply_to = ''In-Reply-To''"
definition header_references :: string where "header_references = ''References''"
definition header_disposition :: string where "header_disposition = ''Disposition-Notification-To''"

definition set_header :: "string \<Rightarrow> string \<Rightarrow> (string \<times> string) list \<Rightarrow> (string \<times> string) list" where
  "set_header name v headers = (if v = [] then headers else AList.update name v headers)"

definition apply_reply_headers :: "send_request \<Rightarrow> (string \<times> string) list \<Rightarrow> string \<times> (string \<times> string) list" where
  "apply_reply_headers req headers =
     (rq_reply_to req,
      set_header header_disposition (rq_disposition_notification_to req)
       (set_header header_references (references_line (rq_references req))
        (set_header header_in_reply_to (rq_in_reply_to req) headers)))"

section \<open>Idempotency keys and cost\<close>

definition max_idempotency_key_length :: nat where "max_idempotency_key_length = 255"
definition idempotency_key_window :: duration where "idempotency_key_window = 24 * hour"

definition validate_idempotency_key :: "string \<Rightarrow> request_error option" where
  "validate_idempotency_key key =
     (if length key > max_idempotency_key_length then Some (KeyTooLong (length key))
      else if list_ex (\<lambda>c. (of_char c :: nat) < 32 \<or> (of_char c :: nat) > 126) key then Some KeyBytes
      else None)"

definition recipient_count :: "string list \<Rightarrow> string list \<Rightarrow> string list \<Rightarrow> int" where
  "recipient_count to cc bcc =
     (let n = length to + length cc + length bcc in if n = 0 then 1 else int n)"

section \<open>What filter rules see\<close>

definition filter_attachments :: "req_attachment option list \<Rightarrow> attachment list" where
  "filter_attachments as =
     map (\<lambda>a. \<lparr>a_filename = ra_filename a, a_content_type = ra_content_type a,
               a_size = int (length (ra_content a)), a_data = ra_content a, a_text = []\<rparr>)
       (List.map_filter (\<lambda>a. a) as)"

definition approximate_size :: "string \<Rightarrow> string \<Rightarrow> string \<Rightarrow> req_attachment option list \<Rightarrow> int" where
  "approximate_size subject html txt as =
     int (length subject + length html + length txt) +
     sum_list (map (\<lambda>a. int (length (ra_content a)) * 4 div 3 + int (length (ra_filename a)))
       (List.map_filter (\<lambda>a. a) as))"

section \<open>The headers fit their lines\<close>

lemma length_join: "length (join_with '' '' (x # xs)) = length x + sum_list (map (\<lambda>y. Suc (length y)) xs)"
  by (induction xs arbitrary: x) simp_all

lemma keep_recent_fits:
  "used + sum_list (map (\<lambda>y. Suc (length y)) kept) \<le> max_references_line_bytes \<Longrightarrow>
   n = used + sum_list (map (\<lambda>y. Suc (length y)) kept) \<Longrightarrow>
   used + sum_list (map (\<lambda>y. Suc (length y)) (keep_recent n rest kept)) \<le> max_references_line_bytes"
  by (induction n rest kept rule: keep_recent.induct) auto

lemma keep_recent_suffix: "\<exists>pre. rev rest @ kept = pre @ keep_recent used rest kept"
proof (induction used rest kept rule: keep_recent.induct)
  case (2 used x rest kept)
  then show ?case by (cases "used + 1 + length x \<le> max_references_line_bytes") auto
qed simp

lemma keep_recent_set: "set (keep_recent used rest kept) \<subseteq> set rest \<union> set kept"
  using keep_recent_suffix [of rest kept used] by (auto dest!: arg_cong [of _ _ set])

lemma join_chars: "c \<in> set (join_with sep xs) \<Longrightarrow> c \<in> set sep \<or> (\<exists>x \<in> set xs. c \<in> set x)"
  by (induction sep xs rule: join_with.induct) auto

definition line_char :: "char \<Rightarrow> bool" where
  "line_char c \<longleftrightarrow> 32 \<le> (of_char c :: nat) \<and> (of_char c :: nat) \<le> 126"

lemma token_line: "token_char c \<Longrightarrow> line_char c"
  by (simp add: token_char_def line_char_def)

lemma valid_id_chars:
  assumes "\<not> message_id_problem mid"
  shows "list_all line_char mid" "length mid \<le> max_message_id_length"
proof -
  from assms have "5 \<le> length mid" "mid ! 0 = CHR ''<''" "last mid = CHR ''>''" "list_all token_char (butlast (tl mid))"
    by (auto simp: message_id_problem_def Let_def split: if_splits)
  then have m: "5 \<le> length mid" "hd mid = CHR ''<''" "last mid = CHR ''>''" "list_all token_char (butlast (tl mid))"
    by (cases mid; simp)+
  then have "tl mid \<noteq> []" "mid \<noteq> []" by (cases mid; auto)+
  then have "mid = hd mid # butlast (tl mid) @ [last mid]"
    by (metis append_butlast_last_id last_tl list.collapse)
  moreover have "list_all line_char (butlast (tl mid))"
    using m(4) token_line by (simp add: list_all_iff)
  moreover have "line_char (hd mid)" "line_char (last mid)" unfolding m(2,3) by (simp_all add: line_char_def)
  ultimately show "list_all line_char mid" by (metis list.pred_inject list_all_append)
  show "length mid \<le> max_message_id_length" using assms by (simp add: message_id_problem_def split: if_splits)
qed


text \<open>
  A validated request cannot break a header line. Once the reply fields of a request are
  accepted, its In-Reply-To and its References line hold printable ASCII only, no line break among
  it, each fits the line it is written on, and References keeps the first identifier and a run of
  the most recent ones.
\<close>

lemma reply_headers_fit:
  assumes "validate_reply_headers parse req = None" "rq_references req = first # others"
  shows "list_all line_char (rq_in_reply_to req) \<and> length (rq_in_reply_to req) \<le> max_message_id_length \<and>
    list_all line_char (references_line (rq_references req)) \<and>
    length (references_line (rq_references req)) \<le> max_references_line_bytes \<and>
    (\<exists>recent. suffix recent others \<and> references_line (rq_references req) = join_with '' '' (first # recent))"
proof -
  from assms(1) have ok: "rq_in_reply_to req = [] \<or> \<not> message_id_problem (rq_in_reply_to req)"
    "\<forall>x \<in> set (rq_references req). \<not> message_id_problem x"
    by (auto simp: validate_reply_headers_def list_ex_iff split: if_splits)
  have short: "length first \<le> max_message_id_length" using ok(2) assms(2) valid_id_chars(2) by simp
  define recent where "recent = (if length (join_with '' '' (first # others)) \<le> max_references_line_bytes then others
      else keep_recent (length first) (rev others) [])"
  have line: "references_line (rq_references req) = join_with '' '' (first # recent)"
    by (simp add: references_line_def assms(2) recent_def)
  have "\<exists>pre. others = pre @ keep_recent (length first) (rev others) []"
    using keep_recent_suffix [of "rev others" "[]" "length first"] by simp
  then have suf: "suffix recent others" by (auto simp: recent_def suffix_def)
  have fits: "length (join_with '' '' (first # recent)) \<le> max_references_line_bytes"
    using keep_recent_fits [of "length first" "[]" "length first" "rev others"] short
    by (auto simp: recent_def length_join max_message_id_length_def max_references_line_bytes_def)
  have "line_char c" if "c \<in> set (join_with '' '' (first # recent))" for c
  proof -
    from join_chars [OF that] suf have "c = CHR '' '' \<or> (\<exists>x \<in> set (rq_references req). c \<in> set x)"
      by (auto simp: assms(2) suffix_def)
    with ok(2) valid_id_chars(1) show ?thesis by (auto simp: line_char_def list_all_iff)
  qed
  with ok(1) valid_id_chars [of "rq_in_reply_to req"] line suf fits show ?thesis
    by (auto simp: list_all_iff)
qed

text \<open>An accepted attachment list is within the bounds, whatever its nil entries.\<close>

lemma check_attachments_bound:
  "check_attachments acc as = None \<Longrightarrow> acc \<le> max_attachment_bytes \<Longrightarrow>
   acc + sum_list (map (\<lambda>a. length (ra_content a)) (List.map_filter (\<lambda>a. a) as)) \<le> max_attachment_bytes"
  by (induction acc as rule: check_attachments.induct)
    (auto simp: Let_def map_filter_simps split: option.splits if_splits)

section \<open>Instance\<close>

definition sample_request :: send_request where
  "sample_request =
     \<lparr>rq_from = ''shop@acme.com'', rq_to = [''Bob@X.org''], rq_cc = [''ann@x.org''], rq_bcc = [''eve@x.org''],
      rq_provider_id = ''p1'', rq_subject = ''Hello'', rq_body_html = ''<p>hi</p>'', rq_body_text = ''hi'',
      rq_body = [], rq_is_html = False, rq_template_id = [], rq_template_data = [], rq_attachments = [],
      rq_reply_to = [], rq_in_reply_to = ''<a@x>'', rq_references = [''<r@x>'', ''<a@x>''],
      rq_disposition_notification_to = [], rq_idempotency_key = [], rq_save_sent_copy = False\<rparr>"

theorem reply_headers_fit_witness:
  "references_line (rq_references sample_request) = ''<r@x> <a@x>'' \<and>
   length (references_line (rq_references sample_request)) \<le> max_references_line_bytes"
proof
  have "validate_reply_headers sample_parse sample_request = None" by code_simp
  moreover have "rq_references sample_request = ''<r@x>'' # [''<a@x>'']" by (simp add: sample_request_def)
  ultimately show "length (references_line (rq_references sample_request)) \<le> max_references_line_bytes"
    using reply_headers_fit by blast
  show "references_line (rq_references sample_request) = ''<r@x> <a@x>''" by code_simp
qed

end
