(* ===== verification/Delivery_Pass.thy ===== *)
theory Delivery_Pass
  imports Event_Log Allowed_Senders Send_Request Rate_Pace "HOL-Library.Multiset"
begin

text \<open>
  One delivery pass over a queued message: \<open>doSend\<close> of
  \<open>internal/email/usecases/send_email_usecase.go\<close> with the pacing of \<open>send_rate_limit.go\<close>, the
  suppression check of \<open>send_suppression_delivery.go\<close> and the errors of \<open>send_refusals.go\<close> and
  \<open>send_recipient_failures.go\<close>.

  The pass changes the event log and the limiter, and hands copies to providers: \<open>dw_accepted\<close> lists
  the copies a provider took, each with the tenant and the message it belongs to. What the pass meets is in its
  environment: the providers each lookup returns, the outcome of every provider for every
  recipient, whether the context is dead when the loop reaches a recipient, and which store calls
  are carried out. Gsmail's parser and the template renderer are arguments. The bodies, tracking
  links and List-Unsubscribe headers of a copy are not part of the model; its addressing is.
\<close>

section \<open>Providers and their choice\<close>

datatype provider_type =
    ProviderUnspecified | ProviderSMTP | ProviderIMAP | ProviderPOP3 | ProviderSendGrid | ProviderSES
  | ProviderPostmark | ProviderMailgun

record email_provider =
  pv_id :: string
  pv_name :: string
  pv_type :: provider_type
  pv_allowed_senders :: "string list"
  pv_send_rate_per_minute :: int
  pv_send_burst :: int

definition receives_only :: "email_provider \<Rightarrow> bool" where
  "receives_only p \<longleftrightarrow> pv_type p = ProviderIMAP \<or> pv_type p = ProviderPOP3"

definition provider_sender_match :: "email_provider \<Rightarrow> string \<Rightarrow> sender_match" where
  "provider_sender_match p address = match_address (pv_allowed_senders p) address"

definition first_sender :: "email_provider list \<Rightarrow> email_provider option" where
  "first_sender ps = find (\<lambda>p. \<not> receives_only p) ps"

record recipient_failure =
  rf_recipient :: string
  rf_err :: string
  rf_class :: classification

datatype send_error =
    SendFailed string
  | DeliveryPaced duration
  | RecipientFailures "recipient_failure list" nat
  | TemplateNotFound string
  | TemplateUnrenderable string string
  | ProviderSenderRefused string string
  | ProviderNotFound string

definition failure_line :: "recipient_failure \<Rightarrow> string" where
  "failure_line f = ''failed to deliver to '' @ rf_recipient f @ '': '' @ rf_err f"

text \<open>\<open>Error()\<close> of each error. The rounded wait in the text of a paced delivery is left out: no code
  reads that text.\<close>

definition error_text :: "send_error \<Rightarrow> string" where
  "error_text e =
     (case e of
        SendFailed t \<Rightarrow> t
      | DeliveryPaced d \<Rightarrow> ''delivery paced''
      | RecipientFailures fs n \<Rightarrow> join_with [CHR 0x0A] (map failure_line fs)
      | TemplateNotFound tid \<Rightarrow> ''template not found: '' @ tid
      | TemplateUnrenderable stage cause \<Rightarrow> ''failed to render '' @ stage @ '': '' @ cause
      | ProviderSenderRefused p s \<Rightarrow> ''provider '' @ p @ '' is not authorized to send as '' @ s
      | ProviderNotFound p \<Rightarrow> ''provider not found: '' @ p)"

text \<open>The refusals that carry the \<open>permanent\<close> marker.\<close>

definition permanent_refusal :: "send_error \<Rightarrow> bool" where
  "permanent_refusal e =
     (case e of TemplateNotFound _ \<Rightarrow> True | TemplateUnrenderable _ _ \<Rightarrow> True | ProviderSenderRefused _ _ \<Rightarrow> True
      | _ \<Rightarrow> False)"

definition failures_where :: "bool \<Rightarrow> recipient_failure list \<Rightarrow> recipient_failure list" where
  "failures_where retryable fs = filter (\<lambda>f. cl_retryable (rf_class f) = retryable) fs"

definition find_provider :: "string \<Rightarrow> email_provider list option \<Rightarrow> email_provider option" where
  "find_provider pid listed_ps =
     (case listed_ps of None \<Rightarrow> None | Some ps \<Rightarrow> find (\<lambda>p. pv_id p = pid) ps)"

definition get_provider ::
  "string \<Rightarrow> email_provider list option \<Rightarrow> (string, email_provider option) result
    \<Rightarrow> (string, email_provider option) result" where
  "get_provider pid listed_ps by_id =
     (case find_provider pid listed_ps of Some p \<Rightarrow> Inr (Some p) | None \<Rightarrow> by_id)"

definition fallback_providers :: "string \<Rightarrow> email_provider list \<Rightarrow> email_provider list" where
  "fallback_providers from_addr ps =
     (let able = filter (\<lambda>p. \<not> receives_only p) ps;
          matching = (\<lambda>m. filter (\<lambda>p. provider_sender_match p from_addr = m) able)
      in if matching ByAddress \<noteq> [] then matching ByAddress
         else if matching ByDomain \<noteq> [] then matching ByDomain
         else matching Unrestricted)"

definition select_providers ::
  "string \<Rightarrow> string \<Rightarrow> string \<Rightarrow> email_provider list option \<Rightarrow> email_provider option
    \<Rightarrow> (string, email_provider list) result \<Rightarrow> (send_error, email_provider list) result" where
  "select_providers tenant from_addr pid listed_ps by_id all_ps =
     (let named = (if pid = [] then None
                   else case find_provider pid listed_ps of Some p \<Rightarrow> Some p | None \<Rightarrow> by_id)
      in case named of
           Some p \<Rightarrow>
             if \<not> match_allowed (provider_sender_match p from_addr)
             then Inl (ProviderSenderRefused (pv_name p) from_addr) else Inr [p]
         | None \<Rightarrow>
             (case all_ps of
                Inl cause \<Rightarrow> Inl (SendFailed (''failed to list providers: '' @ cause))
              | Inr ps \<Rightarrow>
                  if fallback_providers from_addr ps = []
                  then Inl (SendFailed (''no email providers available for tenant '' @ tenant))
                  else Inr (fallback_providers from_addr ps)))"

section \<open>Templates\<close>

record mail_template =
  tp_subject :: string
  tp_body_html :: string
  tp_body_text :: string

type_synonym renderer = "string \<Rightarrow> string \<Rightarrow> bool \<Rightarrow> (string, string) result"

text \<open>\<open>found\<close> is what the lookup of the template returns: an error, nothing, or the template.\<close>

definition render_template ::
  "renderer \<Rightarrow> (string, mail_template option) result \<Rightarrow> send_request
    \<Rightarrow> (send_error, string \<times> string \<times> string) result" where
  "render_template render found req =
     (if rq_template_id req \<noteq> []
      then (case found of
              Inl cause \<Rightarrow> Inl (SendFailed (''failed to get template: '' @ cause))
            | Inr None \<Rightarrow> Inl (TemplateNotFound (rq_template_id req))
            | Inr (Some t) \<Rightarrow>
                (case render (tp_subject t) (rq_template_data req) False of
                   Inl c \<Rightarrow> Inl (TemplateUnrenderable ''subject'' c)
                 | Inr subject \<Rightarrow>
                     (case render (tp_body_html t) (rq_template_data req) True of
                        Inl c \<Rightarrow> Inl (TemplateUnrenderable ''body_html'' c)
                      | Inr html \<Rightarrow>
                          (case render (tp_body_text t) (rq_template_data req) False of
                             Inl c \<Rightarrow> Inl (TemplateUnrenderable ''body_text'' c)
                           | Inr txt \<Rightarrow> Inr (subject, html, txt)))))
      else if rq_body_html req \<noteq> [] \<or> rq_body_text req \<noteq> []
      then Inr (rq_subject req, rq_body_html req, rq_body_text req)
      else if rq_is_html req then Inr (rq_subject req, rq_body req, [])
      else Inr (rq_subject req, [], rq_body req))"

section \<open>The world of a pass\<close>

record outgoing =
  og_from :: string
  og_to :: "string list"
  og_cc :: "string list"
  og_envelope :: "string list"
  og_subject :: string
  og_reply_to :: string
  og_headers :: "(string \<times> string) list"
  og_provider :: string

record delivery_world =
  dw_log :: event_log
  dw_limiter :: limiter
  dw_accepted :: "(string \<times> string \<times> outgoing) list"

record send_config =
  sc_parse :: parser
  sc_render :: renderer
  sc_events :: event_config
  sc_has_limiter :: bool
  sc_has_suppressions :: bool

record pass_env =
  pe_listed :: "email_provider list option"
  pe_by_id :: "email_provider option"
  pe_all :: "(string, email_provider list) result"
  pe_template :: "(string, mail_template option) result"
  pe_history :: "string option"
  pe_sup_oks :: "bool list"
  pe_sup_cause :: string
  pe_drop_order :: "string list \<Rightarrow> string list"
  pe_limit :: "limit option"
  pe_bucket_order :: "(string \<times> nat) list \<Rightarrow> (string \<times> nat) list"
  pe_now :: time
  pe_wait_done :: bool
  pe_ctx :: "string \<Rightarrow> string option"
  pe_sender :: "string \<Rightarrow> string \<Rightarrow> string option"
  pe_send :: "string \<Rightarrow> string \<Rightarrow> string option"
  pe_record :: "string \<Rightarrow> string \<Rightarrow> email_event_type \<Rightarrow> record_env"

text \<open>Recording an event from the send path: the pass ignores whether the write was carried out.\<close>

definition pass_record ::
  "send_config \<Rightarrow> pass_env \<Rightarrow> string \<Rightarrow> string \<Rightarrow> string \<Rightarrow> email_event_type \<Rightarrow> string \<Rightarrow> string \<Rightarrow> string
    \<Rightarrow> delivery_world \<Rightarrow> delivery_world" where
  "pass_record cfg pe tenant provider mid t r subject err w =
     w\<lparr>dw_log := snd (record_event (sc_events cfg) (pe_record pe r provider t) tenant provider mid t r subject err []
                 (dw_log w))\<rparr>"

section \<open>Suppressions made since admission\<close>

text \<open>
  \<open>keyOf\<close> is the list of recipients still to go with their keys; the order in which Go iterates over
  it is \<open>pe_drop_order\<close>. The result lists the recipients dropped.
\<close>

fun drop_loop ::
  "send_config \<Rightarrow> pass_env \<Rightarrow> string \<Rightarrow> string \<Rightarrow> string \<Rightarrow> (string \<times> string) list \<Rightarrow> string list
    \<Rightarrow> delivery_world \<Rightarrow> string list \<times> delivery_world" where
  "drop_loop cfg pe tenant mid subject suppressed [] w = ([], w)"
| "drop_loop cfg pe tenant mid subject suppressed (r # rs) w =
     (case map_of suppressed (suppression_key_of (sc_parse cfg) r) of
        None \<Rightarrow> drop_loop cfg pe tenant mid subject suppressed rs w
      | Some reason \<Rightarrow>
          let (dropped, w') = drop_loop cfg pe tenant mid subject suppressed rs
                (pass_record cfg pe tenant [] mid EventDropped r subject reason w)
          in (r # dropped, w'))"

definition drop_suppressed_at_delivery ::
  "send_config \<Rightarrow> pass_env \<Rightarrow> string \<Rightarrow> string \<Rightarrow> string \<Rightarrow> string list \<Rightarrow> (string \<Rightarrow> bool)
    \<Rightarrow> delivery_world \<Rightarrow> (send_error, string list) result \<times> delivery_world" where
  "drop_suppressed_at_delivery cfg pe tenant mid subject rcpts finished w =
     (let live = filter (\<lambda>r. \<not> finished r) rcpts
      in if \<not> sc_has_suppressions cfg \<or> live = [] then (Inr [], w)
         else case suppressions_for (pe_sup_oks pe) tenant (map (suppression_key_of (sc_parse cfg)) live)
                     (el_sups (dw_log w)) of
                Inl e \<Rightarrow> (Inl (SendFailed (pe_sup_cause pe)), w)
              | Inr suppressed \<Rightarrow>
                  let (dropped, w') = drop_loop cfg pe tenant mid subject suppressed (pe_drop_order pe live) w
                  in (Inr dropped, w'))"

section \<open>Pacing\<close>

definition max_pace_wait :: duration where "max_pace_wait = 5 * second"

definition provider_send_limit :: "email_provider \<Rightarrow> limit" where
  "provider_send_limit p = \<lparr>l_per_minute = pv_send_rate_per_minute p, l_burst = pv_send_burst p\<rparr>"

definition egress_bucket_key :: "string \<Rightarrow> string \<Rightarrow> string" where
  "egress_bucket_key tenant pid =
     (if pid = [] then tenant @ ''|egress'' else tenant @ ''|egress|provider|'' @ pid)"

definition egress_requests :: "string \<Rightarrow> limit option \<Rightarrow> email_provider option \<Rightarrow> request list" where
  "egress_requests tenant lmt provider =
     (case lmt of None \<Rightarrow> [] | Some l \<Rightarrow> [\<lparr>q_key = egress_bucket_key tenant [], q_limit = l\<rparr>]) @
     (case provider of None \<Rightarrow> []
      | Some p \<Rightarrow> [\<lparr>q_key = egress_bucket_key tenant (pv_id p), q_limit = provider_send_limit p\<rparr>])"

definition pace_delivery ::
  "send_config \<Rightarrow> pass_env \<Rightarrow> string \<Rightarrow> email_provider option \<Rightarrow> nat \<Rightarrow> limiter \<Rightarrow> send_error option \<times> limiter" where
  "pace_delivery cfg pe tenant provider pending l =
     (if \<not> sc_has_limiter cfg \<or> pending = 0 then (None, l)
      else
        let (res, l1) = reserve_all (pe_bucket_order pe) (pe_now pe)
              (egress_requests tenant (pe_limit pe) provider) (int pending) l;
            wait = rs_delay res
        in if wait = 0 then (None, l1)
           else if wait > max_pace_wait then (Some (DeliveryPaced wait), snd (cancel res l1))
           else if pe_wait_done pe then (None, l1)
           else (Some (DeliveryPaced wait), snd (cancel res l1)))"

section \<open>The recipients\<close>

definition copy_for :: "send_request \<Rightarrow> string \<Rightarrow> string \<Rightarrow> email_provider \<Rightarrow> outgoing" where
  "copy_for req subject r p =
     \<lparr>og_from = rq_from req, og_to = rq_to req, og_cc = rq_cc req, og_envelope = [r], og_subject = subject,
      og_reply_to = fst (apply_reply_headers req []), og_headers = snd (apply_reply_headers req []),
      og_provider = pv_id p\<rparr>"

text \<open>One recipient: the providers in turn until one takes the copy. The result is whether one did,
  and the last error.\<close>

fun provider_loop ::
  "send_config \<Rightarrow> pass_env \<Rightarrow> string \<Rightarrow> send_request \<Rightarrow> string \<Rightarrow> string \<Rightarrow> string \<Rightarrow> email_provider list
    \<Rightarrow> string option \<Rightarrow> delivery_world \<Rightarrow> (bool \<times> string option) \<times> delivery_world" where
  "provider_loop cfg pe tenant req mid subject r [] err w = ((False, err), w)"
| "provider_loop cfg pe tenant req mid subject r (p # ps) err w =
     (if receives_only p then provider_loop cfg pe tenant req mid subject r ps err w
      else case pe_sender pe r (pv_id p) of
        Some cause \<Rightarrow> provider_loop cfg pe tenant req mid subject r ps (Some cause) w
      | None \<Rightarrow>
          (case pe_send pe r (pv_id p) of
             None \<Rightarrow>
               ((True, err),
                pass_record cfg pe tenant (pv_id p) mid EventDelivered r subject []
                 (pass_record cfg pe tenant (pv_id p) mid EventSent r subject []
                   (w\<lparr>dw_accepted := dw_accepted w @ [(tenant, mid, copy_for req subject r p)]\<rparr>)))
           | Some cause \<Rightarrow>
               provider_loop cfg pe tenant req mid subject r ps (Some cause)
                 (pass_record cfg pe tenant (pv_id p) mid EventDeferred r subject cause w)))"

definition failure_of :: "string \<Rightarrow> string \<Rightarrow> recipient_failure" where
  "failure_of r err = \<lparr>rf_recipient = r, rf_err = err, rf_class = classify_error err\<rparr>"

text \<open>The loop over the recipients to go, \<open>skip\<close> being those it passes over.\<close>

fun recipients_loop ::
  "send_config \<Rightarrow> pass_env \<Rightarrow> string \<Rightarrow> send_request \<Rightarrow> string \<Rightarrow> string \<Rightarrow> email_provider list \<Rightarrow> (string \<Rightarrow> bool)
    \<Rightarrow> string list \<Rightarrow> delivery_world \<Rightarrow> (recipient_failure list \<times> nat) \<times> delivery_world" where
  "recipients_loop cfg pe tenant req mid subject ps skip [] w = (([], 0), w)"
| "recipients_loop cfg pe tenant req mid subject ps skip (r # rs) w =
     (if skip r then recipients_loop cfg pe tenant req mid subject ps skip rs w
      else case pe_ctx pe r of
        Some cause \<Rightarrow>
          let ((fs, n), w') = recipients_loop cfg pe tenant req mid subject ps skip rs w
          in ((failure_of r cause # fs, n), w')
      | None \<Rightarrow>
          let ((sent, err), w1) = provider_loop cfg pe tenant req mid subject r ps None w;
              ((fs, n), w') = recipients_loop cfg pe tenant req mid subject ps skip rs w1
          in ((case err of None \<Rightarrow> fs | Some cause \<Rightarrow> if sent then fs else failure_of r cause # fs,
               if sent then Suc n else n), w'))"

section \<open>The pass\<close>

definition deliver_copies ::
  "send_config \<Rightarrow> pass_env \<Rightarrow> string \<Rightarrow> send_request \<Rightarrow> string \<Rightarrow> string \<Rightarrow> email_provider list
    \<Rightarrow> email_event list \<Rightarrow> delivery_world \<Rightarrow> (send_error, string) result \<times> delivery_world" where
  "deliver_copies cfg pe tenant req mid subject ps evs w =
     (let rcpts = unique_recipients [rq_to req, rq_cc req, rq_bcc req]
      in case drop_suppressed_at_delivery cfg pe tenant mid subject rcpts (finished_from evs) w of
           (Inl e, w1) \<Rightarrow> (Inl e, w1)
         | (Inr dropped, w1) \<Rightarrow>
             let pending = length (filter (\<lambda>r. \<not> finished_from evs r \<and> r \<notin> set dropped) rcpts)
             in case pace_delivery cfg pe tenant (first_sender ps) pending (dw_limiter w1) of
                  (Some e, l) \<Rightarrow> (Inl e, w1\<lparr>dw_limiter := l\<rparr>)
                | (None, l) \<Rightarrow>
                    let ((fs, n), w2) = recipients_loop cfg pe tenant req mid subject ps
                          (\<lambda>r. delivered_map evs r \<or> r \<in> set dropped \<or> settled_map evs r) rcpts
                          (w1\<lparr>dw_limiter := l\<rparr>)
                    in if fs \<noteq> [] then (Inl (RecipientFailures fs n), w2) else (Inr mid, w2))"

definition do_send ::
  "send_config \<Rightarrow> pass_env \<Rightarrow> string \<Rightarrow> send_request \<Rightarrow> string \<Rightarrow> delivery_world
    \<Rightarrow> (send_error, string) result \<times> delivery_world" where
  "do_send cfg pe tenant req mid w =
     (case sender_address (sc_parse cfg) (rq_from req) of
        None \<Rightarrow> (Inl (SendFailed (''invalid from address: '' @ rq_from req)), w)
      | Some from_addr \<Rightarrow>
          (case select_providers tenant from_addr (rq_provider_id req) (pe_listed pe) (pe_by_id pe) (pe_all pe) of
             Inl e \<Rightarrow> (Inl e, w)
           | Inr ps \<Rightarrow>
               (case render_template (sc_render cfg) (pe_template pe) req of
                  Inl e \<Rightarrow> (Inl e, w)
                | Inr (subject, html, txt) \<Rightarrow>
                    (case list_by_message_id (pe_history pe = None) tenant mid (dw_log w) of
                       None \<Rightarrow>
                         (Inl (SendFailed (''failed to read delivery history: '' @
                            (case pe_history pe of Some cause \<Rightarrow> cause | None \<Rightarrow> []))), w)
                     | Some evs \<Rightarrow> deliver_copies cfg pe tenant req mid subject ps evs w))))"

section \<open>What a pass adds to the world\<close>

lemma nested_pair: obtains a b c where "x = ((a, b), c)"
  by (metis surj_pair)

definition events_kept :: "delivery_world \<Rightarrow> delivery_world \<Rightarrow> bool" where
  "events_kept w w' \<longleftrightarrow> set (el_events (dw_log w)) \<subseteq> set (el_events (dw_log w'))"

lemma events_kept_refl [simp]: "events_kept w w"
  by (simp add: events_kept_def)

lemma events_kept_trans: "events_kept w w1 \<Longrightarrow> events_kept w1 w2 \<Longrightarrow> events_kept w w2"
  by (auto simp: events_kept_def)

lemma events_kept_has: "events_kept w w' \<Longrightarrow> has_event tenant mid t r (dw_log w) \<Longrightarrow> has_event tenant mid t r (dw_log w')"
  by (auto simp: events_kept_def has_event_def)

lemma events_kept_same [simp]:
  "events_kept w (w'\<lparr>dw_accepted := a\<rparr>) = events_kept w w'" "events_kept w (w'\<lparr>dw_limiter := l\<rparr>) = events_kept w w'"
  "events_kept (w\<lparr>dw_accepted := a\<rparr>) w' = events_kept w w'" "events_kept (w\<lparr>dw_limiter := l\<rparr>) w' = events_kept w w'"
  by (simp_all add: events_kept_def)

lemma pass_record_kept [simp]: "events_kept w v \<Longrightarrow> events_kept w (pass_record cfg pe tenant p mid t r subject err v)"
  using record_event_grows by (fastforce simp: events_kept_def pass_record_def)

lemma pass_record_frame [simp]:
  "dw_accepted (pass_record cfg pe tenant p mid t r subject err w) = dw_accepted w"
  "dw_limiter (pass_record cfg pe tenant p mid t r subject err w) = dw_limiter w"
  by (simp_all add: pass_record_def)

lemma pass_record_has:
  assumes "lower_trim r \<noteq> []" "ec_internal_id (sc_events cfg) mid"
  shows "has_event tenant' mid' t' r' (dw_log (pass_record cfg pe tenant p mid t r subject err w)) \<longleftrightarrow>
    has_event tenant' mid' t' r' (dw_log w) \<or>
    re_write_ok (pe_record pe r p t) \<and> tenant' = tenant \<and> mid' = mid \<and> t' = refine_type t err \<and> r' = lower_trim r"
  by (simp add: pass_record_def record_event_has [OF assms])

definition delivered_recorded :: "pass_env \<Rightarrow> bool" where
  "delivered_recorded pe \<longleftrightarrow> (\<forall>r p. re_write_ok (pe_record pe r p EventDelivered))"

text \<open>One recipient: at most one copy, taken by a provider that sends and reported no error.\<close>

lemma provider_loop_result:
  assumes "provider_loop cfg pe tenant req mid subject r ps err w = ((sent, e), w')"
  shows "events_kept w w'"
    and "\<not> sent \<Longrightarrow> dw_accepted w' = dw_accepted w"
    and "sent \<Longrightarrow> \<exists>p \<in> set ps. \<not> receives_only p \<and> pe_send pe r (pv_id p) = None \<and>
        dw_accepted w' = dw_accepted w @ [(tenant, mid, copy_for req subject r p)]"
    and "\<not> sent \<Longrightarrow> err \<noteq> None \<or> (\<exists>p \<in> set ps. \<not> receives_only p) \<Longrightarrow> e \<noteq> None"
    and "\<not> sent \<Longrightarrow> err = None \<Longrightarrow> list_all receives_only ps \<Longrightarrow> e = None"
    and "dw_limiter w' = dw_limiter w"
  using assms
proof (atomize(full), induction ps arbitrary: err w)
  case (Cons p ps)
  show ?case
  proof (cases "receives_only p \<or> pe_sender pe r (pv_id p) \<noteq> None \<or> pe_send pe r (pv_id p) \<noteq> None")
    case False
    with Cons.prems show ?thesis by auto
  next
    case True
    then obtain err1 w1 where r1: "provider_loop cfg pe tenant req mid subject r ps err1 w1 = ((sent, e), w')"
      "events_kept w w1" "dw_accepted w1 = dw_accepted w" "dw_limiter w1 = dw_limiter w"
      "if receives_only p then err1 = err else err1 \<noteq> None"
      using Cons.prems by (auto split: option.splits if_splits)
    show ?thesis
      using Cons.IH [OF r1(1)] r1(2-) events_kept_trans [OF r1(2)] by (auto split: if_splits)
  qed
qed auto

lemma provider_loop_delivered:
  assumes "provider_loop cfg pe tenant req mid subject r ps err w = ((True, e), w')"
    "lower_trim r = r" "r \<noteq> []" "ec_internal_id (sc_events cfg) mid" "delivered_recorded pe"
  shows "has_event tenant mid EventDelivered r (dw_log w')"
  using assms(1)
proof (induction ps arbitrary: err w)
  case (Cons p ps)
  then show ?case
    using assms(2-) by (auto simp: pass_record_has delivered_recorded_def split: option.splits if_splits)
qed simp

text \<open>
  The loop over the recipients: the copies \<open>cs\<close> it hands over, and the failures it reports, are the
  recipients it does not pass over, each once, as long as one of the providers sends at all.
\<close>

definition copies_of ::
  "string \<Rightarrow> string \<Rightarrow> send_request \<Rightarrow> string \<Rightarrow> (string \<times> email_provider) list \<Rightarrow> (string \<times> string \<times> outgoing) list" where
  "copies_of tenant mid req subject cs = map (\<lambda>(r, p). (tenant, mid, copy_for req subject r p)) cs"

definition can_send :: "email_provider list \<Rightarrow> bool" where
  "can_send ps \<longleftrightarrow> (\<exists>p \<in> set ps. \<not> receives_only p)"

definition loop_outcome ::
  "send_config \<Rightarrow> pass_env \<Rightarrow> string \<Rightarrow> send_request \<Rightarrow> string \<Rightarrow> string \<Rightarrow> email_provider list \<Rightarrow> string list
    \<Rightarrow> delivery_world \<Rightarrow> recipient_failure list \<Rightarrow> nat \<Rightarrow> delivery_world \<Rightarrow> bool" where
  "loop_outcome cfg pe tenant req mid subject ps live w fs n w' \<longleftrightarrow>
     events_kept w w' \<and> dw_limiter w' = dw_limiter w \<and>
     (\<exists>cs. dw_accepted w' = dw_accepted w @ copies_of tenant mid req subject cs \<and> n = length cs \<and>
        (\<forall>(r, p) \<in> set cs. p \<in> set ps \<and> \<not> receives_only p \<and> pe_send pe r (pv_id p) = None) \<and>
        mset (map fst cs) + mset (map rf_recipient fs) \<subseteq># mset live \<and>
        (can_send ps \<longrightarrow> mset (map fst cs) + mset (map rf_recipient fs) = mset live) \<and>
        (ec_internal_id (sc_events cfg) mid \<and> delivered_recorded pe \<longrightarrow>
          (\<forall>r \<in> fst ` set cs. has_event tenant mid EventDelivered r (dw_log w'))))"

definition quiet :: "delivery_world \<Rightarrow> delivery_world \<Rightarrow> bool" where
  "quiet w w1 \<longleftrightarrow> events_kept w w1 \<and> dw_accepted w1 = dw_accepted w \<and> dw_limiter w1 = dw_limiter w"

lemma quiet_refl [simp]: "quiet w w"
  by (simp add: quiet_def)

lemma quiet_trans: "quiet w w1 \<Longrightarrow> quiet w1 w2 \<Longrightarrow> quiet w w2"
  by (auto simp: quiet_def intro: events_kept_trans)

lemma filter_sub_mset: "mset (filter P xs) \<subseteq># mset xs"
  by (metis mset_filter multiset_filter_subset)

lemma outcome_step:
  assumes "loop_outcome cfg pe tenant req mid subject ps live w1 fs n w'"
    and w1: "events_kept w w1" "dw_limiter w1 = dw_limiter w"
      "dw_accepted w1 = dw_accepted w @ copies_of tenant mid req subject cs0"
    and cs0: "\<forall>(r, p) \<in> set cs0. p \<in> set ps \<and> \<not> receives_only p \<and> pe_send pe r (pv_id p) = None"
      "mset (map fst cs0) + mset (map rf_recipient fs0) \<subseteq># {#r#}"
      "can_send ps \<Longrightarrow> mset (map fst cs0) + mset (map rf_recipient fs0) = {#r#}"
    and rec: "\<And>x. ec_internal_id (sc_events cfg) mid \<Longrightarrow> delivered_recorded pe \<Longrightarrow> x \<in> fst ` set cs0 \<Longrightarrow>
      has_event tenant mid EventDelivered x (dw_log w1)"
  shows "loop_outcome cfg pe tenant req mid subject ps (r # live) w (fs0 @ fs) (length cs0 + n) w'"
proof -
  obtain cs where cs: "events_kept w1 w'" "dw_limiter w' = dw_limiter w1"
    "dw_accepted w' = dw_accepted w1 @ copies_of tenant mid req subject cs" "n = length cs"
    "\<forall>(r, p) \<in> set cs. p \<in> set ps \<and> \<not> receives_only p \<and> pe_send pe r (pv_id p) = None"
    "mset (map fst cs) + mset (map rf_recipient fs) \<subseteq># mset live"
    "can_send ps \<longrightarrow> mset (map fst cs) + mset (map rf_recipient fs) = mset live"
    "ec_internal_id (sc_events cfg) mid \<and> delivered_recorded pe \<longrightarrow>
      (\<forall>x \<in> fst ` set cs. has_event tenant mid EventDelivered x (dw_log w'))"
    using assms(1) unfolding loop_outcome_def by blast
  have split: "mset (map fst (cs0 @ cs)) + mset (map rf_recipient (fs0 @ fs)) =
      (mset (map fst cs0) + mset (map rf_recipient fs0)) + (mset (map fst cs) + mset (map rf_recipient fs))"
    and live: "mset (r # live) = {#r#} + mset live"
    by simp_all
  show ?thesis
    unfolding loop_outcome_def
  proof (intro conjI exI [of _ "cs0 @ cs"])
    show "events_kept w w'" using w1(1) cs(1) by (rule events_kept_trans)
    show "mset (map fst (cs0 @ cs)) + mset (map rf_recipient (fs0 @ fs)) \<subseteq># mset (r # live)"
      unfolding split live using cs0(2) cs(6) by (rule subset_mset.add_mono)
    show "can_send ps \<longrightarrow> mset (map fst (cs0 @ cs)) + mset (map rf_recipient (fs0 @ fs)) = mset (r # live)"
      unfolding split live using cs0(3) cs(7) by simp
    show "ec_internal_id (sc_events cfg) mid \<and> delivered_recorded pe \<longrightarrow>
      (\<forall>x \<in> fst ` set (cs0 @ cs). has_event tenant mid EventDelivered x (dw_log w'))"
      unfolding set_append image_Un using rec cs(8) events_kept_has [OF cs(1)] by blast
    show "\<forall>(r, p) \<in> set (cs0 @ cs). p \<in> set ps \<and> \<not> receives_only p \<and> pe_send pe r (pv_id p) = None"
      using cs0(1) cs(5) by auto
  qed (simp_all add: w1 cs copies_of_def)
qed

lemma outcome_fail:
  assumes "loop_outcome cfg pe tenant req mid subject ps live w1 fs n w'" "quiet w w1"
  shows "loop_outcome cfg pe tenant req mid subject ps (r # live) w (failure_of r cause # fs) n w'"
  using outcome_step [OF assms(1), of w "[]" "[failure_of r cause]" r] assms(2)
  by (simp add: quiet_def copies_of_def failure_of_def)

lemma outcome_lost:
  assumes "loop_outcome cfg pe tenant req mid subject ps live w1 fs n w'" "quiet w w1" "\<not> can_send ps"
  shows "loop_outcome cfg pe tenant req mid subject ps (r # live) w fs n w'"
  using outcome_step [OF assms(1), of w "[]" "[]" r] assms(2,3) by (simp add: quiet_def copies_of_def)

lemma outcome_sent:
  assumes "loop_outcome cfg pe tenant req mid subject ps live w1 fs n w'" "events_kept w w1"
    "dw_accepted w1 = dw_accepted w @ [(tenant, mid, copy_for req subject r p)]" "dw_limiter w1 = dw_limiter w"
    "p \<in> set ps" "\<not> receives_only p" "pe_send pe r (pv_id p) = None"
    "ec_internal_id (sc_events cfg) mid \<and> delivered_recorded pe \<longrightarrow> has_event tenant mid EventDelivered r (dw_log w1)"
  shows "loop_outcome cfg pe tenant req mid subject ps (r # live) w fs (Suc n) w'"
  using outcome_step [OF assms(1,2), of "[(r, p)]" "[]" r] assms(3-) by (simp add: copies_of_def)

lemma recipients_loop_outcome:
  assumes "recipients_loop cfg pe tenant req mid subject ps skip rs w = ((fs, n), w')"
    "\<forall>r \<in> set rs. lower_trim r = r \<and> r \<noteq> []"
  shows "loop_outcome cfg pe tenant req mid subject ps (filter (\<lambda>r. \<not> skip r) rs) w fs n w'"
  using assms
proof (induction rs arbitrary: fs n w)
  case Nil
  then show ?case by (auto simp: loop_outcome_def copies_of_def)
next
  case (Cons r rs)
  show ?case
  proof (cases "skip r \<or> pe_ctx pe r \<noteq> None")
    case True
    with Cons show ?thesis
      by (auto intro!: outcome_fail [OF _ quiet_refl] split: prod.splits)
  next
    case False
    obtain sent err w1 where p: "provider_loop cfg pe tenant req mid subject r ps None w = ((sent, err), w1)"
      by (metis surj_pair)
    obtain fs1 n1 where l: "recipients_loop cfg pe tenant req mid subject ps skip rs w1 = ((fs1, n1), w')"
      "fs = (case err of None \<Rightarrow> fs1 | Some cause \<Rightarrow> if sent then fs1 else failure_of r cause # fs1)"
      "n = (if sent then Suc n1 else n1)"
      using Cons.prems(1) False p by (auto split: prod.splits)
    have out: "loop_outcome cfg pe tenant req mid subject ps (filter (\<lambda>r. \<not> skip r) rs) w1 fs1 n1 w'"
      using Cons.IH [OF l(1)] Cons.prems(2) by simp
    note res = provider_loop_result [OF p]
    show ?thesis
    proof (cases sent)
      case True
      then have "ec_internal_id (sc_events cfg) mid \<and> delivered_recorded pe \<longrightarrow>
          has_event tenant mid EventDelivered r (dw_log w1)"
        using provider_loop_delivered p Cons.prems(2) by auto
      with True res(3) False show ?thesis
        using outcome_sent [OF out res(1)] res(6) l(2,3) by (auto split: option.splits)
    next
      case False
      then have q: "quiet w w1" and lost: "err = None \<Longrightarrow> \<not> can_send ps"
        using res(1,2,4,6) by (auto simp: quiet_def can_send_def)
      show ?thesis
        using outcome_fail [OF out q] outcome_lost [OF out q lost] False \<open>\<not> (skip r \<or> pe_ctx pe r \<noteq> None)\<close> l(2,3)
        by (auto split: option.splits)
    qed
  qed
qed

text \<open>Dropping: the recipients on the list, and nothing else, whatever the order of the iteration.\<close>

definition any_order :: "pass_env \<Rightarrow> bool" where
  "any_order pe \<longleftrightarrow> (\<forall>rs. mset (pe_drop_order pe rs) = mset rs)"

definition barred :: "send_config \<Rightarrow> string \<Rightarrow> delivery_world \<Rightarrow> string \<Rightarrow> bool" where
  "barred cfg tenant w r \<longleftrightarrow>
     sc_has_suppressions cfg \<and> on_list tenant (suppression_key_of (sc_parse cfg) r) (el_sups (dw_log w))"

lemma drop_loop_result:
  assumes "drop_loop cfg pe tenant mid subject suppressed rs w = (dropped, w')"
  shows "quiet w w'" "dropped = filter (\<lambda>r. map_of suppressed (suppression_key_of (sc_parse cfg) r) \<noteq> None) rs"
  using assms
proof (atomize(full), induction rs arbitrary: dropped w)
  case (Cons r rs)
  show ?case
  proof (cases "map_of suppressed (suppression_key_of (sc_parse cfg) r)")
    case None
    with Cons show ?thesis by simp
  next
    case (Some reason)
    let ?w = "pass_record cfg pe tenant [] mid EventDropped r subject reason w"
    obtain d where d: "drop_loop cfg pe tenant mid subject suppressed rs ?w = (d, w')" "dropped = r # d"
      using Cons.prems Some by (auto split: prod.splits)
    have "quiet w ?w" by (simp add: quiet_def)
    with Cons.IH [OF d(1)] d(2) Some quiet_trans show ?thesis by auto
  qed
qed simp

lemma drop_suppressed_result:
  assumes "drop_suppressed_at_delivery cfg pe tenant mid subject rcpts finished w = (res, w')"
  shows "quiet w w'"
    and "res = Inr dropped \<Longrightarrow> any_order pe \<Longrightarrow> norm_sups (el_sups (dw_log w)) \<Longrightarrow> r \<in> set rcpts \<Longrightarrow>
      r \<in> set dropped \<longleftrightarrow> \<not> finished r \<and> barred cfg tenant w r"
proof (atomize(full), cases "\<not> sc_has_suppressions cfg \<or> filter (\<lambda>r. \<not> finished r) rcpts = []")
  case True
  then show "quiet w w' \<and> (res = Inr dropped \<longrightarrow> any_order pe \<longrightarrow> norm_sups (el_sups (dw_log w)) \<longrightarrow> r \<in> set rcpts \<longrightarrow>
      (r \<in> set dropped) = (\<not> finished r \<and> barred cfg tenant w r))"
    using assms by (auto simp: drop_suppressed_at_delivery_def Let_def barred_def filter_empty_conv)
next
  case False
  let ?live = "filter (\<lambda>r. \<not> finished r) rcpts" and ?key = "suppression_key_of (sc_parse cfg)"
  show "quiet w w' \<and> (res = Inr dropped \<longrightarrow> any_order pe \<longrightarrow> norm_sups (el_sups (dw_log w)) \<longrightarrow> r \<in> set rcpts \<longrightarrow>
      (r \<in> set dropped) = (\<not> finished r \<and> barred cfg tenant w r))"
  proof (cases "suppressions_for (pe_sup_oks pe) tenant (map ?key ?live) (el_sups (dw_log w))")
    case (Inl e)
    with False assms show ?thesis by (auto simp: drop_suppressed_at_delivery_def Let_def)
  next
    case (Inr m)
    then obtain d where d: "drop_loop cfg pe tenant mid subject m (pe_drop_order pe ?live) w = (d, w')" "res = Inr d"
      using False assms by (auto simp: drop_suppressed_at_delivery_def Let_def split: prod.splits)
    have "r \<in> set dropped \<longleftrightarrow> \<not> finished r \<and> barred cfg tenant w r"
      if a: "res = Inr dropped" "any_order pe" "norm_sups (el_sups (dw_log w))" "r \<in> set rcpts"
    proof -
      have "set (pe_drop_order pe ?live) = set ?live" using a(2) by (metis any_order_def mset_eq_setD)
      then have in_d: "r \<in> set dropped \<longleftrightarrow> \<not> finished r \<and> map_of m (?key r) \<noteq> None"
        using drop_loop_result(2) [OF d(1)] d(2) a(1,4) by simp
      show ?thesis
      proof (cases "finished r")
        case False
        then have "map_of m (?key r) \<noteq> None \<longleftrightarrow> on_list tenant (?key r) (el_sups (dw_log w))"
          using a(4) by (intro suppressions_for_exact [OF Inr a(3)]) auto
        with in_d \<open>\<not> (\<not> sc_has_suppressions cfg \<or> ?live = [])\<close> show ?thesis by (simp add: barred_def)
      qed (simp add: in_d)
    qed
    with drop_loop_result(1) [OF d(1)] show ?thesis by blast
  qed
qed

section \<open>The outcome of a pass\<close>

definition finished_at :: "string \<Rightarrow> string \<Rightarrow> delivery_world \<Rightarrow> string \<Rightarrow> bool" where
  "finished_at tenant mid w r = finished_from (the (list_by_message_id True tenant mid (dw_log w))) r"

abbreviation request_recipients :: "send_request \<Rightarrow> string list" where
  "request_recipients req \<equiv> unique_recipients [rq_to req, rq_cc req, rq_bcc req]"

definition to_go :: "send_config \<Rightarrow> string \<Rightarrow> send_request \<Rightarrow> string \<Rightarrow> delivery_world \<Rightarrow> string list" where
  "to_go cfg tenant req mid w =
     filter (\<lambda>r. \<not> finished_at tenant mid w r \<and> \<not> barred cfg tenant w r) (request_recipients req)"

text \<open>A pass stops before its loop, having handed over nothing, or runs the loop over those to go.\<close>

lemma deliver_copies_cases:
  assumes "deliver_copies cfg pe tenant req mid subject ps evs w = (res, w')"
    "list_by_message_id True tenant mid (dw_log w) = Some evs"
  obtains (stopped) e where "res = Inl e" "\<forall>fs n. e \<noteq> RecipientFailures fs n" "events_kept w w'"
      "dw_accepted w' = dw_accepted w"
  | (looped) w1 live fs n where "loop_outcome cfg pe tenant req mid subject ps live w1 fs n w'"
      "events_kept w w1" "dw_accepted w1 = dw_accepted w"
      "res = (if fs = [] then Inr mid else Inl (RecipientFailures fs n))"
      "mset live \<subseteq># mset (filter (\<lambda>r. \<not> finished_at tenant mid w r) (request_recipients req))"
      "any_order pe \<Longrightarrow> norm_sups (el_sups (dw_log w)) \<Longrightarrow> live = to_go cfg tenant req mid w"
proof -
  let ?rs = "request_recipients req"
  have fin: "finished_at tenant mid w = finished_from evs" using assms(2) by (simp add: finished_at_def fun_eq_iff)
  obtain dres w1 where d: "drop_suppressed_at_delivery cfg pe tenant mid subject ?rs (finished_from evs) w = (dres, w1)"
    by (metis surj_pair)
  note dr = drop_suppressed_result [OF d]
  show ?thesis
  proof (cases dres)
    case (Inl e)
    have "\<forall>fs n. e \<noteq> RecipientFailures fs n"
      using d Inl by (auto simp: drop_suppressed_at_delivery_def Let_def split: if_splits sum.splits prod.splits)
    moreover have "res = Inl e" "w' = w1" using assms(1) by (simp_all add: deliver_copies_def d Inl)
    ultimately show ?thesis using dr(1) stopped by (simp add: quiet_def)
  next
    case (Inr dropped)
    let ?pending = "length (filter (\<lambda>r. \<not> finished_from evs r \<and> r \<notin> set dropped) ?rs)"
    let ?skip = "\<lambda>r. delivered_map evs r \<or> r \<in> set dropped \<or> settled_map evs r"
    obtain pe' l where p: "pace_delivery cfg pe tenant (first_sender ps) ?pending (dw_limiter w1) = (pe', l)"
      by (rule prod.exhaust)
    show ?thesis
    proof (cases pe')
      case (Some e)
      then have "\<forall>fs n. e \<noteq> RecipientFailures fs n"
        using p by (auto simp: pace_delivery_def Let_def split: if_splits prod.splits)
      moreover have "res = Inl e" "w' = w1\<lparr>dw_limiter := l\<rparr>"
        using assms(1) by (simp_all add: deliver_copies_def d Inr p Some)
      moreover have "events_kept w w'" "dw_accepted w' = dw_accepted w"
        using dr(1) calculation(3) by (simp_all add: quiet_def)
      ultimately show ?thesis using stopped by simp
    next
      case None
      obtain fs n w2 where lp: "recipients_loop cfg pe tenant req mid subject ps ?skip ?rs (w1\<lparr>dw_limiter := l\<rparr>)
          = ((fs, n), w2)"
        by (rule nested_pair)
      have live: "filter (\<lambda>r. \<not> ?skip r) ?rs = to_go cfg tenant req mid w"
        if "any_order pe" "norm_sups (el_sups (dw_log w))"
        unfolding to_go_def fin using dr(2) [OF Inr that] by (intro filter_cong) (auto simp: finished_from_def)
      have "filter (\<lambda>r. \<not> ?skip r) ?rs = filter (\<lambda>r. r \<notin> set dropped) (filter (\<lambda>r. \<not> finished_from evs r) ?rs)"
        by (auto simp: finished_from_def intro: filter_cong)
      then have sub: "mset (filter (\<lambda>r. \<not> ?skip r) ?rs) \<subseteq># mset (filter (\<lambda>r. \<not> finished_at tenant mid w r) ?rs)"
        using filter_sub_mset fin by metis
      have "res = (if fs = [] then Inr mid else Inl (RecipientFailures fs n))" "w' = w2"
        using assms(1) by (auto simp: deliver_copies_def d Inr p None lp Let_def split: if_splits)
      with live sub recipients_loop_outcome [OF lp] unique_recipients_props(2) dr(1) show ?thesis
        by (intro looped [of "filter (\<lambda>r. \<not> ?skip r) ?rs" "w1\<lparr>dw_limiter := l\<rparr>" fs n]) (auto simp: quiet_def)
    qed
  qed
qed

lemma select_providers_from:
  assumes "select_providers tenant a pid listed_ps by_id all_ps = Inr ps"
  obtains (named) p where "ps = [p]" "match_allowed (provider_sender_match p a)"
      "find_provider pid listed_ps = Some p \<or> by_id = Some p"
  | (fallback) qs where "all_ps = Inr qs" "ps = fallback_providers a qs" "ps \<noteq> []"
  using assms unfolding select_providers_def Let_def
  by (simp split: option.splits if_splits sum.splits) blast+

lemma fallback_member:
  "p \<in> set (fallback_providers a qs) \<Longrightarrow> match_allowed (provider_sender_match p a) \<and> p \<in> set qs \<and> \<not> receives_only p"
  by (auto simp: fallback_providers_def Let_def match_allowed_def split: if_splits)

lemma find_provider_member: "find_provider pid listed_ps = Some p \<Longrightarrow> \<exists>qs. listed_ps = Some qs \<and> p \<in> set qs \<and> pv_id p = pid"
  by (auto simp: find_provider_def find_Some_iff split: option.splits)

lemma select_providers_allowed:
  assumes "select_providers tenant a pid listed_ps by_id all_ps = Inr ps" "p \<in> set ps"
  shows "match_allowed (provider_sender_match p a)"
  using assms(1)
proof (cases rule: select_providers_from)
  case (fallback qs)
  with assms(2) fallback_member show ?thesis by blast
qed (use assms(2) in auto)

lemma do_send_cases:
  assumes "do_send cfg pe tenant req mid w = (res, w')"
  obtains (stopped) e where "res = Inl e" "\<forall>fs n. e \<noteq> RecipientFailures fs n" "events_kept w w'"
      "dw_accepted w' = dw_accepted w"
  | (looped) a ps subject w1 live fs n where
      "sender_address (sc_parse cfg) (rq_from req) = Some a"
      "select_providers tenant a (rq_provider_id req) (pe_listed pe) (pe_by_id pe) (pe_all pe) = Inr ps"
      "loop_outcome cfg pe tenant req mid subject ps live w1 fs n w'"
      "events_kept w w1" "dw_accepted w1 = dw_accepted w"
      "res = (if fs = [] then Inr mid else Inl (RecipientFailures fs n))"
      "mset live \<subseteq># mset (filter (\<lambda>r. \<not> finished_at tenant mid w r) (request_recipients req))"
      "any_order pe \<Longrightarrow> norm_sups (el_sups (dw_log w)) \<Longrightarrow> live = to_go cfg tenant req mid w"
proof (cases "\<exists>e. res = Inl e \<and> (\<forall>fs n. e \<noteq> RecipientFailures fs n) \<and> w' = w")
  case True
  then show ?thesis using stopped by auto
next
  case False
  have sel: "\<forall>fs n. e \<noteq> RecipientFailures fs n"
    if "select_providers tenant a pid listed_ps by_id all_ps = Inl e" for a pid listed_ps by_id all_ps e
    using that by (auto simp: select_providers_def Let_def split: option.splits if_splits sum.splits)
  have ren: "\<forall>fs n. e \<noteq> RecipientFailures fs n" if "render_template rd tp req = Inl e" for rd tp e
    using that by (auto simp: render_template_def split: option.splits if_splits sum.splits)
  from False assms sel ren obtain a ps subject evs where
    s: "sender_address (sc_parse cfg) (rq_from req) = Some a"
      "select_providers tenant a (rq_provider_id req) (pe_listed pe) (pe_by_id pe) (pe_all pe) = Inr ps"
      "list_by_message_id (pe_history pe = None) tenant mid (dw_log w) = Some evs"
      "deliver_copies cfg pe tenant req mid subject ps evs w = (res, w')"
    by (auto simp: do_send_def split: option.splits sum.splits prod.splits)
  then have "list_by_message_id True tenant mid (dw_log w) = Some evs"
    by (simp add: list_by_message_id_def split: if_splits)
  with s(4) show ?thesis
  proof (cases rule: deliver_copies_cases)
    case (stopped e)
    then show ?thesis by (rule that(1))
  next
    case (looped w1 live fs n)
    then show ?thesis by (rule that(2) [OF s(1,2)])
  qed
qed

section \<open>Every recipient is accounted for\<close>

definition copy_to :: "string \<times> string \<times> outgoing \<Rightarrow> string" where
  "copy_to c = hd (og_envelope (snd (snd c)))"

definition attempted :: "(send_error, string) result \<Rightarrow> bool" where
  "attempted res = (case res of Inr _ \<Rightarrow> True | Inl (RecipientFailures _ _) \<Rightarrow> True | _ \<Rightarrow> False)"

definition failed_recipients :: "(send_error, string) result \<Rightarrow> string list" where
  "failed_recipients res = (case res of Inl (RecipientFailures fs _) \<Rightarrow> map rf_recipient fs | _ \<Rightarrow> [])"

text \<open>The provider the request names, if there is one, is not a mailbox that only receives.\<close>

definition names_sender :: "pass_env \<Rightarrow> send_request \<Rightarrow> bool" where
  "names_sender pe req \<longleftrightarrow>
     (\<forall>p. find_provider (rq_provider_id req) (pe_listed pe) = Some p \<or> pe_by_id pe = Some p \<longrightarrow> \<not> receives_only p)"

lemma copies_of_simps [simp]:
  "copies_of tenant mid req subject [] = []"
  "copies_of tenant mid req subject ((r, p) # cs) = (tenant, mid, copy_for req subject r p) # copies_of tenant mid req subject cs"
  by (simp_all add: copies_of_def)

lemma copies_of_to [simp]: "map copy_to (copies_of tenant mid req subject cs) = map fst cs"
  by (auto simp: copies_of_def copy_to_def copy_for_def)

lemma names_sender_can_send:
  assumes "names_sender pe req"
    "select_providers tenant a (rq_provider_id req) (pe_listed pe) (pe_by_id pe) (pe_all pe) = Inr ps"
  shows "can_send ps"
  using assms(2)
proof (cases rule: select_providers_from)
  case (fallback qs)
  then have "hd ps \<in> set ps" by simp
  with fallback fallback_member show ?thesis unfolding can_send_def by blast
qed (use assms(1) in \<open>auto simp: can_send_def names_sender_def\<close>)



section \<open>No recipient is delivered to twice\<close>

text \<open>
  A run of deliveries: passes over any messages of any tenants, in any order and as often as the
  queue asks, with events recorded by anyone in between.
\<close>

datatype delivery_op =
    DoPass pass_env string send_request string
  | DoRecord record_env string string string email_event_type string string string string

primrec delivery_step :: "send_config \<Rightarrow> delivery_op \<Rightarrow> delivery_world \<Rightarrow> delivery_world" where
  "delivery_step cfg (DoPass pe tenant req mid) w = snd (do_send cfg pe tenant req mid w)"
| "delivery_step cfg (DoRecord env tenant provider mid t r subject err md) w =
     w\<lparr>dw_log := snd (record_event (sc_events cfg) env tenant provider mid t r subject err md (dw_log w))\<rparr>"

text \<open>The passes work on our own identifiers, and their DELIVERED events are written.\<close>

primrec recorded_op :: "send_config \<Rightarrow> delivery_op \<Rightarrow> bool" where
  "recorded_op cfg (DoPass pe tenant req mid) = (ec_internal_id (sc_events cfg) mid \<and> delivered_recorded pe)"
| "recorded_op cfg (DoRecord env tenant provider mid t r subject err md) = True"

definition is_copy :: "string \<Rightarrow> string \<Rightarrow> string \<Rightarrow> string \<times> string \<times> outgoing \<Rightarrow> bool" where
  "is_copy tenant mid r c \<longleftrightarrow> fst c = tenant \<and> fst (snd c) = mid \<and> og_envelope (snd (snd c)) = [r]"

definition copies :: "string \<Rightarrow> string \<Rightarrow> string \<Rightarrow> delivery_world \<Rightarrow> (string \<times> string \<times> outgoing) list" where
  "copies tenant mid r w = filter (is_copy tenant mid r) (dw_accepted w)"

definition once_each :: "delivery_world \<Rightarrow> bool" where
  "once_each w \<longleftrightarrow>
     (\<forall>tenant mid r. length (copies tenant mid r w) \<le> 1 \<and>
        (copies tenant mid r w \<noteq> [] \<longrightarrow> has_event tenant mid EventDelivered r (dw_log w)))"

lemma is_copy_for [simp]:
  "is_copy tenant' mid' r (tenant, mid, copy_for req subject x p) \<longleftrightarrow> tenant' = tenant \<and> mid' = mid \<and> x = r"
  by (auto simp: is_copy_def copy_for_def)

lemma copies_new:
  "length (filter (is_copy tenant' mid' r) (copies_of tenant mid req subject cs)) =
     (if tenant' = tenant \<and> mid' = mid then count (mset (map fst cs)) r else 0)"
proof (induction cs)
  case (Cons c cs)
  obtain x p where "c = (x, p)" by (rule prod.exhaust)
  with Cons show ?case by (cases "tenant' = tenant \<and> mid' = mid") (auto simp del: mset_map)
qed simp

lemma finished_if_delivered: "has_event tenant mid EventDelivered r (dw_log w) \<Longrightarrow> finished_at tenant mid w r"
  using delivered_iff_event [of tenant mid "dw_log w" _ r]
  by (simp add: finished_at_def finished_from_def list_by_message_id_def)

lemma once_each_pass:
  assumes "ec_internal_id (sc_events cfg) mid" "delivered_recorded pe" "once_each w"
  shows "once_each (snd (do_send cfg pe tenant req mid w))"
proof -
  obtain res w' where d: "do_send cfg pe tenant req mid w = (res, w')" by (rule prod.exhaust)
  from d have "once_each w'"
  proof (cases rule: do_send_cases)
    case (stopped e)
    with assms(3) events_kept_has show ?thesis by (auto simp: once_each_def copies_def)
  next
    case (looped a ps subject w1 live fs n)
    obtain cs where cs: "dw_accepted w' = dw_accepted w1 @ copies_of tenant mid req subject cs"
      "mset (map fst cs) + mset (map rf_recipient fs) \<subseteq># mset live" "events_kept w1 w'"
      "\<forall>r \<in> fst ` set cs. has_event tenant mid EventDelivered r (dw_log w')"
      using looped(3) assms(1,2) unfolding loop_outcome_def by blast
    have kept: "events_kept w w'" using looped(4) cs(3) by (rule events_kept_trans)
    show ?thesis
      unfolding once_each_def
    proof (intro allI)
      fix tenant' mid' r
      let ?new = "if tenant' = tenant \<and> mid' = mid then count (mset (map fst cs)) r else 0"
      have len: "length (copies tenant' mid' r w') = length (copies tenant' mid' r w) + ?new"
        unfolding copies_def cs(1) looped(5) filter_append length_append copies_new ..
      let ?open = "filter (\<lambda>r. \<not> finished_at tenant mid w r) (request_recipients req)"
      have "mset (map fst cs) \<subseteq># mset ?open"
        using cs(2) looped(7) by (meson mset_subset_eq_add_left subset_mset.order_trans)
      then have le: "count (mset (map fst cs)) r \<le> count (mset ?open) r" by (rule mset_subset_eq_count)
      have "distinct ?open" by (intro distinct_filter unique_recipients_props(1))
      then have open1: "count (mset ?open) r = (if r \<in> set ?open then 1 else 0)"
        unfolding distinct_count_atmost_1 by blast
      have le1: "count (mset (map fst cs)) r \<le> 1"
        using le unfolding open1 by (rule order_trans) simp
      have old: "count (mset (map fst cs)) r = 0" if "copies tenant mid r w \<noteq> []"
      proof -
        have "finished_at tenant mid w r" using that assms(3) finished_if_delivered unfolding once_each_def by blast
        then show ?thesis using le unfolding open1 by simp
      qed
      have new: "has_event tenant mid EventDelivered r (dw_log w')" if "0 < count (mset (map fst cs)) r"
        using that cs(4) by (metis count_greater_zero_iff list.set_map set_mset_mset)
      have was: "length (copies tenant' mid' r w) \<le> 1"
        "copies tenant' mid' r w \<noteq> [] \<longrightarrow> has_event tenant' mid' EventDelivered r (dw_log w')"
        using assms(3) events_kept_has [OF kept] by (auto simp: once_each_def)
      show "length (copies tenant' mid' r w') \<le> 1 \<and>
        (copies tenant' mid' r w' \<noteq> [] \<longrightarrow> has_event tenant' mid' EventDelivered r (dw_log w'))"
      proof (cases "?new = 0")
        case True
        with len have same: "length (copies tenant' mid' r w') = length (copies tenant' mid' r w)" by linarith
        then have "copies tenant' mid' r w' \<noteq> [] \<longleftrightarrow> copies tenant' mid' r w \<noteq> []"
          unfolding length_0_conv [symmetric] by (rule arg_cong)
        with same was show ?thesis by simp
      next
        case False
        then have at: "tenant' = tenant" "mid' = mid" "0 < count (mset (map fst cs)) r" by (simp_all split: if_splits)
        then have "copies tenant mid r w = []" using old by (metis less_irrefl)
        with len le1 have "length (copies tenant' mid' r w') \<le> 1" unfolding at by (simp del: mset_map)
        with new [OF at(3)] show ?thesis unfolding at(1,2) by blast
      qed
    qed
  qed
  with d show ?thesis by simp
qed


lemma once_each_record:
  assumes "once_each w"
  shows "once_each (w\<lparr>dw_log := snd (record_event ec env tenant provider mid t r subject err md (dw_log w))\<rparr>)"
proof -
  let ?w = "w\<lparr>dw_log := snd (record_event ec env tenant provider mid t r subject err md (dw_log w))\<rparr>"
  have "events_kept w ?w" by (simp add: events_kept_def record_event_grows)
  then show ?thesis
    using assms events_kept_has [of w ?w] by (simp add: once_each_def copies_def)
qed

interpretation deliveries: invariant_steps "delivery_step cfg" "recorded_op cfg" once_each
proof
  fix op w
  assume "recorded_op cfg op" "once_each w"
  then show "once_each (delivery_step cfg op w)"
    by (cases op) (simp_all add: once_each_pass once_each_record)
qed

text \<open>
  C2. However often the queue passes over messages, and whatever fails in between, no recipient of a
  message is handed a second copy, as long as the DELIVERED events of the passes are written: the
  history a pass reads before sending is what keeps a retry of a partly delivered message from
  repeating itself.
\<close>

theorem delivered_at_most_once:
  assumes "list_all (recorded_op cfg) ops" "dw_accepted w = []"
  shows "length (copies tenant mid r (run (delivery_step cfg) ops w)) \<le> 1"
proof -
  have "once_each w" using assms(2) by (simp add: once_each_def copies_def)
  then have "once_each (run (delivery_step cfg) ops w)" by (rule deliveries.run_inv [OF assms(1)])
  then show ?thesis by (simp add: once_each_def)
qed


section \<open>Instances\<close>

definition sample_provider :: email_provider where
  "sample_provider =
     \<lparr>pv_id = ''p1'', pv_name = ''relay'', pv_type = ProviderSMTP, pv_allowed_senders = [''*@x.org''],
      pv_send_rate_per_minute = 60, pv_send_burst = 0\<rparr>"

definition sample_letter :: send_request where
  "sample_letter =
     \<lparr>rq_from = ''me@x.org'', rq_to = [''a@y.org''], rq_cc = [], rq_bcc = [''b@y.org'', ''old@x.org''],
      rq_provider_id = ''p1'', rq_subject = ''Hi'', rq_body_html = [], rq_body_text = ''Hello'', rq_body = [],
      rq_is_html = False, rq_template_id = [], rq_template_data = [], rq_attachments = [], rq_reply_to = [],
      rq_in_reply_to = [], rq_references = [], rq_disposition_notification_to = [], rq_idempotency_key = [],
      rq_save_sent_copy = False\<rparr>"

definition sample_send_config :: send_config where
  "sample_send_config =
     \<lparr>sc_parse = sample_parse, sc_render = (\<lambda>t d h. Inr t), sc_events = sample_event_config,
      sc_has_limiter = False, sc_has_suppressions = True\<rparr>"

text \<open>\<open>down\<close> lists the recipients the provider turns away for now.\<close>

definition sample_pass :: "string list \<Rightarrow> pass_env" where
  "sample_pass down =
     \<lparr>pe_listed = Some [sample_provider], pe_by_id = None, pe_all = Inr [sample_provider], pe_template = Inr None,
      pe_history = None, pe_sup_oks = [True], pe_sup_cause = [], pe_drop_order = (\<lambda>rs. rs), pe_limit = None,
      pe_bucket_order = (\<lambda>bs. bs), pe_now = 0, pe_wait_done = True, pe_ctx = (\<lambda>r. None),
      pe_sender = (\<lambda>r p. None), pe_send = (\<lambda>r p. if r \<in> set down then Some ''421 try again later'' else None),
      pe_record = (\<lambda>r p t. sample_record_env)\<rparr>"

definition sample_world :: delivery_world where
  "sample_world = \<lparr>dw_log = sample_log, dw_limiter = new_limiter, dw_accepted = []\<rparr>"

lemma sample_parts:
  "sender_address sample_parse ''me@x.org'' = Some ''me@x.org''"
  "select_providers ''t1'' ''me@x.org'' ''p1'' (Some [sample_provider]) None (Inr [sample_provider]) = Inr [sample_provider]"
  "unique_recipients [[''a@y.org''], [], [''b@y.org'', ''old@x.org'']] = [''a@y.org'', ''b@y.org'', ''old@x.org'']"
  "map (suppression_key_of sample_parse) [''a@y.org'', ''b@y.org'', ''old@x.org''] = [''a@y.org'', ''b@y.org'', ''old@x.org'']"
  "suppressions_for [True] ''t1'' [''a@y.org'', ''b@y.org'', ''old@x.org''] sample_sups = Inr [(''old@x.org'', ''bounce'')]"
  "receives_only sample_provider = False"
  by code_simp+

text \<open>The first pass over the letter: one copy is taken, one recipient deferred, one suppressed.\<close>

lemma sample_first_pass:
  "\<exists>w. do_send sample_send_config (sample_pass [''b@y.org'']) ''t1'' sample_letter ''m1'' sample_world =
     (Inl (RecipientFailures [failure_of ''b@y.org'' ''421 try again later''] 1), w) \<and>
     dw_accepted w = [(''t1'', ''m1'', copy_for sample_letter ''Hi'' ''a@y.org'' sample_provider)]"
proof -
  have h: "list_by_message_id True ''t1'' ''m1'' sample_log = Some []"
    by (simp add: list_by_message_id_def sample_log_def)
  have s: "el_sups sample_log = sample_sups" by (simp add: sample_log_def)
  show ?thesis
    using sample_parts(4)
    by (simp add: do_send_def deliver_copies_def drop_suppressed_at_delivery_def sample_send_config_def sample_pass_def
      sample_letter_def sample_world_def sample_parts(1-3,5,6) h s render_template_def finished_from_def delivered_map_def settled_map_def
      pace_delivery_def)
qed

lemma sample_pass_facts:
  "any_order (sample_pass down)" "norm_sups (el_sups (dw_log sample_world))" "names_sender (sample_pass down) sample_letter"
  "delivered_recorded (sample_pass down)" "ec_internal_id (sc_events sample_send_config) ''m1''"
proof -
  show "norm_sups (el_sups (dw_log sample_world))"
    unfolding norm_sups_def sample_world_def sample_log_def sample_sups_def by simp code_simp
qed (simp_all add: any_order_def sample_pass_def names_sender_def find_provider_def sample_provider_def receives_only_def
  delivered_recorded_def sample_record_env_def sample_send_config_def sample_event_config_def)



theorem delivered_at_most_once_witness:
  "length (copies ''t1'' ''m1'' ''a@y.org'' (run (delivery_step sample_send_config)
     [DoPass (sample_pass [''b@y.org'']) ''t1'' sample_letter ''m1'', DoPass (sample_pass []) ''t1'' sample_letter ''m1'']
     sample_world)) \<le> 1"
  by (rule delivered_at_most_once) (simp_all add: sample_pass_facts sample_world_def)

end
