(* ===== verification/Ttl_Cache.thy ===== *)
theory Ttl_Cache
  imports Run_Traces
begin

text \<open>
  The bounded cache of \<open>pkg/cache/ttl_cache.go\<close> that the send path and the queue worker read
  providers, limits, backlog counts and retry schedules through. The map is an association list, the
  clock an argument of every operation that reads it.
\<close>

section \<open>Operations\<close>

record 'v ttl_cache =
  tc_entries :: "(string \<times> 'v \<times> time) list"
  tc_ttl :: duration
  tc_max_entries :: nat

definition default_max_entries :: nat where "default_max_entries = 4096"

definition new_cache_with_limit :: "duration \<Rightarrow> int \<Rightarrow> 'v ttl_cache" where
  "new_cache_with_limit ttl n =
     \<lparr>tc_entries = [], tc_ttl = ttl, tc_max_entries = (if n \<le> 0 then default_max_entries else nat n)\<rparr>"

definition new_cache :: "duration \<Rightarrow> 'v ttl_cache" where
  "new_cache ttl = new_cache_with_limit ttl (int default_max_entries)"

definition cache_get :: "time \<Rightarrow> string \<Rightarrow> 'v ttl_cache \<Rightarrow> 'v option \<times> 'v ttl_cache" where
  "cache_get now key c =
     (case map_of (tc_entries c) key of
        None \<Rightarrow> (None, c)
      | Some (v, expires) \<Rightarrow>
          if now > expires then (None, c\<lparr>tc_entries := AList.delete key (tc_entries c)\<rparr>) else (Some v, c))"

definition evict_expired :: "time \<Rightarrow> 'v ttl_cache \<Rightarrow> 'v ttl_cache" where
  "evict_expired now c = c\<lparr>tc_entries := filter (\<lambda>(k, v, expires). \<not> now > expires) (tc_entries c)\<rparr>"

definition cache_put :: "time \<Rightarrow> string \<Rightarrow> 'v \<Rightarrow> 'v ttl_cache \<Rightarrow> 'v ttl_cache" where
  "cache_put now key v c =
     (let new = map_of (tc_entries c) key = None \<and> length (tc_entries c) \<ge> tc_max_entries c;
          c' = (if new then evict_expired now c else c)
      in if new \<and> length (tc_entries c') \<ge> tc_max_entries c' then c'
         else c'\<lparr>tc_entries := AList.update key (v, now + tc_ttl c') (tc_entries c')\<rparr>)"

definition cache_delete :: "string \<Rightarrow> 'v ttl_cache \<Rightarrow> 'v ttl_cache" where
  "cache_delete key c = c\<lparr>tc_entries := AList.delete key (tc_entries c)\<rparr>"

definition cache_len :: "'v ttl_cache \<Rightarrow> nat" where
  "cache_len c = length (tc_entries c)"

section \<open>Runs\<close>

datatype 'v cache_op = CacheGet time string | CachePut time string 'v | CacheDelete time string

fun cache_step :: "'v cache_op \<Rightarrow> 'v ttl_cache \<Rightarrow> 'v ttl_cache" where
  "cache_step (CacheGet now k) c = snd (cache_get now k c)"
| "cache_step (CachePut now k v) c = cache_put now k v c"
| "cache_step (CacheDelete now k) c = cache_delete k c"

fun cache_op_time :: "'v cache_op \<Rightarrow> time" where
  "cache_op_time (CacheGet now k) = now"
| "cache_op_time (CachePut now k v) = now"
| "cache_op_time (CacheDelete now k) = now"

text \<open>The reference: the last value stored under a key, with the time it was stored, unless it was
  deleted since.\<close>

fun last_stored :: "string \<Rightarrow> 'v cache_op list \<Rightarrow> (time \<times> 'v) option \<Rightarrow> (time \<times> 'v) option" where
  "last_stored k [] m = m"
| "last_stored k (CacheGet now k' # ops) m = last_stored k ops m"
| "last_stored k (CachePut now k' v # ops) m = last_stored k ops (if k' = k then Some (now, v) else m)"
| "last_stored k (CacheDelete now k' # ops) m = last_stored k ops (if k' = k then None else m)"

fun keys_put :: "'v cache_op list \<Rightarrow> string set" where
  "keys_put [] = {}"
| "keys_put (CachePut now k v # ops) = insert k (keys_put ops)"
| "keys_put (_ # ops) = keys_put ops"

definition wf_cache :: "'v ttl_cache \<Rightarrow> bool" where
  "wf_cache c \<longleftrightarrow> distinct (map fst (tc_entries c)) \<and> cache_len c \<le> tc_max_entries c"

section \<open>The cache against the reference\<close>

lemma map_of_filter_distinct:
  "distinct (map fst xs) \<Longrightarrow>
   map_of (filter P xs) k = (case map_of xs k of Some v \<Rightarrow> if P (k, v) then Some v else None | None \<Rightarrow> None)"
proof (induction xs)
  case (Cons x xs)
  obtain a v where x: "x = (a, v)" by (rule prod.exhaust)
  show ?case
  proof (cases "a = k")
    case True
    with Cons.prems x have "map_of xs k = None" by (auto simp: map_of_eq_None_iff)
    with Cons True x show ?thesis by (simp split: option.splits)
  next
    case False
    with Cons x show ?thesis by simp
  qed
qed simp

lemma update_length:
  "length (AList.update k v xs) = (if map_of xs k = None then Suc (length xs) else length xs)"
  by (induction xs) auto

lemma delete_length: "length (AList.delete k xs) \<le> length xs"
  by (simp add: AList.delete_eq)

lemma wf_evict: "wf_cache c \<Longrightarrow> wf_cache (evict_expired now c)"
  unfolding wf_cache_def evict_expired_def cache_len_def
  by (auto simp: distinct_map_filter intro: le_trans [OF length_filter_le])

lemma wf_cache_forget: "wf_cache c \<Longrightarrow> wf_cache (c\<lparr>tc_entries := AList.delete k (tc_entries c)\<rparr>)"
  using delete_length [of k "tc_entries c"] by (simp add: wf_cache_def cache_len_def distinct_delete)

lemma wf_store:
  "wf_cache c \<Longrightarrow> (map_of (tc_entries c) k = None \<Longrightarrow> length (tc_entries c) < tc_max_entries c) \<Longrightarrow>
   wf_cache (c\<lparr>tc_entries := AList.update k x (tc_entries c)\<rparr>)"
  by (auto simp: wf_cache_def cache_len_def distinct_update update_length)

lemma evict_config [simp]:
  "tc_ttl (evict_expired now c) = tc_ttl c" "tc_max_entries (evict_expired now c) = tc_max_entries c"
  by (simp_all add: evict_expired_def)

lemma cache_put_cases:
  obtains (stored) "cache_put now k v c = c\<lparr>tc_entries := AList.update k (v, now + tc_ttl c) (tc_entries c)\<rparr>"
      "map_of (tc_entries c) k = None \<Longrightarrow> length (tc_entries c) < tc_max_entries c"
  | (full) "cache_put now k v c = evict_expired now c" "map_of (tc_entries c) k = None"
      "tc_max_entries c \<le> length (tc_entries (evict_expired now c))"
  | (room) "cache_put now k v c =
        (evict_expired now c)\<lparr>tc_entries := AList.update k (v, now + tc_ttl c) (tc_entries (evict_expired now c))\<rparr>"
      "map_of (tc_entries c) k = None" "length (tc_entries (evict_expired now c)) < tc_max_entries c"
proof (cases "map_of (tc_entries c) k = None \<and> tc_max_entries c \<le> length (tc_entries c)")
  case True
  then show ?thesis
    using full room by (cases "tc_max_entries c \<le> length (tc_entries (evict_expired now c))") (simp_all add: cache_put_def Let_def)
next
  case False
  then have "cache_put now k v c = c\<lparr>tc_entries := AList.update k (v, now + tc_ttl c) (tc_entries c)\<rparr>"
    unfolding cache_put_def Let_def by presburger
  then show ?thesis by (rule stored) (use False in auto)
qed

lemma wf_put: "wf_cache c \<Longrightarrow> wf_cache (cache_put now k v c)"
  by (cases rule: cache_put_cases [of now k v c]) (simp_all add: wf_store wf_evict)

lemma wf_get: "wf_cache c \<Longrightarrow> wf_cache (snd (cache_get now k c))"
  by (simp add: cache_get_def wf_cache_forget split: option.split prod.split)

lemma wf_cache_step: "wf_cache c \<Longrightarrow> wf_cache (cache_step op c)"
  by (cases op) (simp_all add: wf_get wf_put wf_cache_forget cache_delete_def)

interpretation cache: invariant_steps cache_step "\<lambda>_. True" wf_cache
  by unfold_locales (rule wf_cache_step)

lemma step_config [simp]:
  "tc_ttl (cache_step op c) = tc_ttl c" "tc_max_entries (cache_step op c) = tc_max_entries c"
  by (cases op; simp add: cache_get_def cache_put_def cache_delete_def evict_expired_def Let_def
      split: option.split prod.split)+

definition entry :: "'v ttl_cache \<Rightarrow> string \<Rightarrow> ('v \<times> time) option" where
  "entry c k = map_of (tc_entries c) k"

lemma entry_get:
  "entry (snd (cache_get now k' c)) k =
     (case entry c k of Some (v, e) \<Rightarrow> if k = k' \<and> now > e then None else Some (v, e) | None \<Rightarrow> None)"
  by (simp add: cache_get_def entry_def AList.delete_conv' split: option.split prod.split)

lemma entry_delete: "entry (cache_delete k' c) k = (if k = k' then None else entry c k)"
  by (simp add: cache_delete_def entry_def AList.delete_conv')

lemma entry_evict:
  "wf_cache c \<Longrightarrow> entry (evict_expired now c) k =
     (case entry c k of Some (v, e) \<Rightarrow> if now > e then None else Some (v, e) | None \<Rightarrow> None)"
  by (simp add: evict_expired_def entry_def wf_cache_def map_of_filter_distinct split: option.split prod.split)

text \<open>A put stores its value, unless the cache is full of other live entries; of those it loses at
  most the expired ones.\<close>

lemma entry_put:
  assumes "wf_cache c"
  shows "entry (cache_put now k' v c) k' \<in> {Some (v, now + tc_ttl c), None}"
    and "entry (cache_put now k' v c) k' = None \<Longrightarrow>
      entry c k' = None \<and> tc_max_entries c \<le> cache_len (cache_put now k' v c)"
    and "k \<noteq> k' \<Longrightarrow> entry (cache_put now k' v c) k \<in> {entry c k, entry (evict_expired now c) k}"
  using entry_evict [OF assms, of now k']
  by (cases rule: cache_put_cases [of now k' v c]; simp add: entry_def update_conv' cache_len_def)+

lemma last_stored_Cons: "last_stored k (op # ops) m = last_stored k ops (last_stored k [op] m)"
  by (cases op) simp_all

text \<open>The entries of the cache are values last stored.\<close>

definition tracks :: "(string \<Rightarrow> (time \<times> 'v) option) \<Rightarrow> 'v ttl_cache \<Rightarrow> bool" where
  "tracks h c \<longleftrightarrow> (\<forall>k v e. entry c k = Some (v, e) \<longrightarrow> (\<exists>t. h k = Some (t, v) \<and> e = t + tc_ttl c))"

lemma tracks_step:
  assumes "tracks h c" "wf_cache c"
  shows "tracks (\<lambda>k. last_stored k [op] (h k)) (cache_step op c)"
  unfolding tracks_def
proof (intro allI impI)
  fix k v e
  assume e: "entry (cache_step op c) k = Some (v, e)"
  have old: "\<exists>t. h k = Some (t, v) \<and> e = t + tc_ttl c" if "entry c k = Some (v, e)"
    using that assms(1) by (simp add: tracks_def)
  have "\<exists>t. last_stored k [op] (h k) = Some (t, v) \<and> e = t + tc_ttl c"
  proof (cases op)
    case (CacheGet now k')
    with e old show ?thesis by (auto simp: entry_get split: option.splits if_splits)
  next
    case (CacheDelete now k')
    with e old show ?thesis by (auto simp: entry_delete split: if_splits)
  next
    case (CachePut now k' v')
    show ?thesis
    proof (cases "k = k'")
      case True
      with e CachePut entry_put(1) [OF assms(2), of now k' v'] show ?thesis by auto
    next
      case False
      with e CachePut entry_put(3) [OF assms(2), of k k' now v'] entry_evict [OF assms(2), of now k]
      have "entry c k = Some (v, e)" by (auto split: option.splits if_splits)
      with old False CachePut show ?thesis by auto
    qed
  qed
  then show "\<exists>t. last_stored k [op] (h k) = Some (t, v) \<and> e = t + tc_ttl (cache_step op c)" by simp
qed

text \<open>With room for every key in use, an entry goes only when it was deleted or has expired.\<close>

definition retains :: "string set \<Rightarrow> time \<Rightarrow> (string \<Rightarrow> (time \<times> 'v) option) \<Rightarrow> 'v ttl_cache \<Rightarrow> bool" where
  "retains K now h c \<longleftrightarrow>
     fst ` set (tc_entries c) \<subseteq> K \<and>
     (\<forall>k t v. h k = Some (t, v) \<and> now \<le> t + tc_ttl c \<longrightarrow> entry c k = Some (v, t + tc_ttl c))"

lemma len_keys:
  assumes "wf_cache c" "fst ` set (tc_entries c) \<subseteq> K" "finite K" "k \<in> K" "entry c k = None"
  shows "cache_len c < card K"
proof -
  have "k \<notin> fst ` set (tc_entries c)" using assms(5) by (simp add: entry_def map_of_eq_None_iff)
  with assms(2,4) have "fst ` set (tc_entries c) \<subset> K" by blast
  then have "card (fst ` set (tc_entries c)) < card K" using assms(3) by (rule psubset_card_mono [rotated])
  moreover have "card (fst ` set (tc_entries c)) = cache_len c"
    using assms(1) unfolding wf_cache_def cache_len_def by (metis distinct_card length_map list.set_map)
  ultimately show ?thesis by simp
qed

lemma step_keys: "fst ` set (tc_entries (cache_step op c)) \<subseteq> fst ` set (tc_entries c) \<union> keys_put [op]"
proof (cases op)
  case (CacheGet now k)
  then show ?thesis by (auto simp: cache_get_def AList.delete_eq split: option.splits if_splits)
next
  case (CacheDelete now k)
  then show ?thesis by (auto simp: cache_delete_def AList.delete_eq)
next
  case (CachePut now k v)
  have ev: "fst ` set (tc_entries (evict_expired now c)) \<subseteq> fst ` set (tc_entries c)"
    by (auto simp: evict_expired_def)
  show ?thesis
    unfolding CachePut cache_step.simps
    using ev by (cases rule: cache_put_cases [of now k v c]) (auto simp: dom_update)
qed

lemma retains_step:
  assumes "retains K now h c" "wf_cache c" "finite K" "card K \<le> tc_max_entries c"
    "keys_put [op] \<subseteq> K" "now \<le> cache_op_time op"
  shows "retains K (cache_op_time op) (\<lambda>k. last_stored k [op] (h k)) (cache_step op c)"
  unfolding retains_def step_config
proof (intro conjI allI impI)
  show "fst ` set (tc_entries (cache_step op c)) \<subseteq> K"
    using step_keys [of op c] assms(1,5) by (auto simp: retains_def)
  fix k t v
  assume h: "last_stored k [op] (h k) = Some (t, v) \<and> cache_op_time op \<le> t + tc_ttl c"
  have old: "entry c k = Some (v, t + tc_ttl c)" if "h k = Some (t, v)"
    using that assms(1,6) h by (auto simp: retains_def)
  show "entry (cache_step op c) k = Some (v, t + tc_ttl c)"
  proof (cases op)
    case (CacheGet now' k')
    with h old show ?thesis by (simp add: entry_get)
  next
    case (CacheDelete now' k')
    with h old show ?thesis by (auto simp: entry_delete split: if_splits)
  next
    case (CachePut now' k' v')
    show ?thesis
    proof (cases "k = k'")
      case True
      have "entry (cache_put now' k' v' c) k' \<noteq> None"
      proof
        assume none: "entry (cache_put now' k' v' c) k' = None"
        have "fst ` set (tc_entries (cache_put now' k' v' c)) \<subseteq> K"
          using step_keys [of op c] assms(1,5) CachePut by (auto simp: retains_def)
        then have "cache_len (cache_put now' k' v' c) < card K"
          using len_keys [OF wf_put [OF assms(2)] _ assms(3) _ none] assms(5) CachePut by auto
        with entry_put(2) [OF assms(2) none] assms(4) show False by simp
      qed
      with entry_put(1) [OF assms(2), of now' k' v'] True h CachePut show ?thesis by auto
    next
      case False
      with h CachePut have old: "entry c k = Some (v, t + tc_ttl c)" "now' \<le> t + tc_ttl c" using old by auto
      then have "entry (evict_expired now' c) k = Some (v, t + tc_ttl c)"
        by (simp add: entry_evict [OF assms(2)])
      with old entry_put(3) [OF assms(2) False, of now' v'] show ?thesis unfolding CachePut by auto
    qed
  qed
qed

lemma tracks_run:
  "tracks h c \<Longrightarrow> wf_cache c \<Longrightarrow> tracks (\<lambda>k. last_stored k ops (h k)) (run cache_step ops c)"
proof (induction ops arbitrary: h c)
  case (Cons op ops)
  from Cons.IH [OF tracks_step [OF Cons.prems] wf_cache_step [OF Cons.prems(2)]]
  show ?case by (simp add: last_stored_Cons [of _ op ops])
qed simp

lemma retains_run:
  "retains K now h c \<Longrightarrow> wf_cache c \<Longrightarrow> finite K \<Longrightarrow> card K \<le> tc_max_entries c \<Longrightarrow> keys_put ops \<subseteq> K \<Longrightarrow>
   sorted (now # map cache_op_time ops @ [end_time]) \<Longrightarrow>
   retains K end_time (\<lambda>k. last_stored k ops (h k)) (run cache_step ops c)"
proof (induction ops arbitrary: h c now)
  case Nil
  then show ?case by (auto simp: retains_def)
next
  case (Cons op ops)
  have keys: "keys_put [op] \<subseteq> K" "keys_put ops \<subseteq> K" using Cons.prems(5) by (cases op; simp)+
  have step: "retains K (cache_op_time op) (\<lambda>k. last_stored k [op] (h k)) (cache_step op c)"
    using Cons.prems(6) by (intro retains_step [OF Cons.prems(1-4) keys(1)]) simp
  from Cons.IH [OF step wf_cache_step [OF Cons.prems(2)] Cons.prems(3) _ keys(2)] Cons.prems(4,6)
  show ?case by (simp add: last_stored_Cons [of _ op ops])
qed

text \<open>
  C28. A lookup answers with the value last stored under the key, stored no longer than the time to
  live ago and not deleted since, however the cache was used in between; and as long as no more keys
  are in use than the cache holds, it answers whenever there is such a value. The cache never holds
  more than its limit.
\<close>

theorem cache_exact:
  fixes c :: "'v ttl_cache"
  assumes "c = run cache_step ops (new_cache_with_limit ttl n)"
    "sorted (map cache_op_time ops @ [now])"
  shows "cache_len c \<le> tc_max_entries c \<and>
    (\<forall>v. fst (cache_get now k c) = Some v \<longrightarrow>
       (\<exists>t. last_stored k ops None = Some (t, v) \<and> now \<le> t + ttl)) \<and>
    (card (keys_put ops) \<le> tc_max_entries c \<longrightarrow>
       (\<forall>t v. last_stored k ops None = Some (t, v) \<and> now \<le> t + ttl \<longrightarrow> fst (cache_get now k c) = Some v))"
proof -
  let ?c = "new_cache_with_limit ttl n :: 'v ttl_cache"
  have wf0: "wf_cache ?c" and tr0: "tracks (\<lambda>k. None) ?c"
    by (simp_all add: wf_cache_def cache_len_def new_cache_with_limit_def tracks_def entry_def)
  have wf: "wf_cache c" unfolding assms(1) by (rule cache.run_inv [OF _ wf0]) (simp add: list_all_iff)
  have cfg: "tc_ttl c = ttl" "tc_max_entries c = tc_max_entries ?c"
    using invariant_steps.run_inv [of cache_step "\<lambda>_. True" "\<lambda>c. tc_ttl c = ttl \<and> tc_max_entries c = tc_max_entries ?c" ops ?c]
    by (simp_all add: assms(1) invariant_steps_def list_all_iff new_cache_with_limit_def)
  have get: "fst (cache_get now k c) =
      (case entry c k of Some (v, e) \<Rightarrow> if now > e then None else Some v | None \<Rightarrow> None)"
    by (simp add: cache_get_def entry_def split: option.split prod.split)
  have fin: "finite (keys_put ops)" by (induction ops rule: keys_put.induct) auto
  have "tracks (\<lambda>k. last_stored k ops None) c" unfolding assms(1) by (rule tracks_run [OF tr0 wf0])
  then have sound: "\<exists>t. last_stored k ops None = Some (t, v) \<and> now \<le> t + ttl" if "fst (cache_get now k c) = Some v" for v
    using that unfolding get by (fastforce simp: tracks_def cfg split: option.splits if_splits)
  have "fst (cache_get now k c) = Some v"
    if "card (keys_put ops) \<le> tc_max_entries c" "last_stored k ops None = Some (t, v)" "now \<le> t + ttl" for t v
  proof -
    obtain t0 where s: "sorted (t0 # map cache_op_time ops @ [now])"
      using assms(2) by (cases "map cache_op_time ops @ [now]") (auto intro: that)
    have "retains (keys_put ops) t0 (\<lambda>k. None) ?c" by (simp add: retains_def new_cache_with_limit_def)
    from retains_run [OF this wf0 fin _ _ s] that(1)
    have "retains (keys_put ops) now (\<lambda>k. last_stored k ops None) c" by (simp add: assms(1)[symmetric] cfg)
    with that(2,3) show ?thesis by (simp add: get retains_def cfg)
  qed
  with sound wf show ?thesis by (auto simp: wf_cache_def)
qed

text \<open>Two values under one key, read within and past their time to live.\<close>

theorem cache_exact_witness:
  "fst (cache_get 12 ''k'' (run cache_step [CachePut 1 ''k'' ''a'', CachePut 3 ''k'' ''b''] (new_cache_with_limit 10 2))) =
     Some ''b'' \<and>
   fst (cache_get 14 ''k'' (run cache_step [CachePut 1 ''k'' ''a'', CachePut 3 ''k'' ''b''] (new_cache_with_limit 10 2))) =
     None"
  using cache_exact [OF refl, of "[CachePut 1 ''k'' ''a'', CachePut 3 ''k'' ''b'']" 12 10 2 "''k''"]
    cache_exact [OF refl, of "[CachePut 1 ''k'' ''a'', CachePut 3 ''k'' ''b'']" 14 10 2 "''k''"]
  by (simp add: new_cache_with_limit_def cache_put_def Let_def)

end
