(* ===== verification/Send_Admission.thy ===== *)
theory Send_Admission
  imports Delivery_Pass Outbox_Store Ttl_Cache
begin

text \<open>
  \<open>SendEmail\<close> of \<open>internal/email/usecases/send_email_usecase.go\<close>: the checks every send passes, the
  worker mode that goes on to a delivery pass, and the client mode that decides whether a message is
  accepted and queues it (with \<open>send_idempotency.go\<close>, \<open>send_rate_limit.go\<close> and \<open>sent_copy.go\<close>).

  The gateway's state is what the send path shares: the world of a delivery pass, the outbox, the
  quarantine with its notifications, the cache of backlog counts and the queue of Sent copies. The
  environment of a call holds the clock, fresh identifiers, what its lookups return and which of its
  store calls are carried out. \<open>uuid.Parse\<close>, the protobuf encodings with their hash, gsmail's parser
  and the renderer are parameters; so are the texts of refusals that quote gsmail's own messages.
\<close>

section \<open>The checks of every send\<close>

datatype send_problem =
    TenantMissing | TenantInvalid | TenantNil | FromMissing | ProviderMissing | ProviderInvalid | ProviderNil
  | NoRecipient | BadRequest request_error | FromInvalid | BadRecipient recipient_error

record admission_config =
  ac_send :: send_config
  ac_valid_uuid :: "string \<Rightarrow> bool"
  ac_problem_text :: "send_problem \<Rightarrow> string"
  ac_re_match :: "string \<Rightarrow> string \<Rightarrow> bool"
  ac_supported :: "string \<Rightarrow> string \<Rightarrow> bool"
  ac_extract :: "string \<Rightarrow> string \<Rightarrow> string \<Rightarrow> string"
  ac_has_send_limits :: bool
  ac_has_screener :: bool
  ac_has_notifier :: bool
  ac_has_sent_copies :: bool
  ac_has_worker :: bool
  ac_quarantine_retention :: duration

definition nil_uuid :: string where
  "nil_uuid = ''00000000-0000-0000-0000-000000000000''"

definition check_request ::
  "admission_config \<Rightarrow> string \<Rightarrow> send_request \<Rightarrow> (send_problem, (string \<times> string) list) result" where
  "check_request cfg tenant req =
     (if tenant = [] then Inl TenantMissing
      else if \<not> ac_valid_uuid cfg tenant then Inl TenantInvalid
      else if tenant = nil_uuid then Inl TenantNil
      else if rq_from req = [] then Inl FromMissing
      else if rq_provider_id req = [] then Inl ProviderMissing
      else if \<not> ac_valid_uuid cfg (rq_provider_id req) then Inl ProviderInvalid
      else if rq_provider_id req = nil_uuid then Inl ProviderNil
      else if rq_to req = [] then Inl NoRecipient
      else case validate_idempotency_key (rq_idempotency_key req) of
        Some e \<Rightarrow> Inl (BadRequest e)
      | None \<Rightarrow>
          if sc_parse (ac_send cfg) (rq_from req) = None then Inl FromInvalid
          else case resolve_recipients (sc_parse (ac_send cfg)) [rq_to req, rq_cc req, rq_bcc req] of
            Inl e \<Rightarrow> Inl (BadRecipient e)
          | Inr rs \<Rightarrow>
              (case validate_attachments req of
                 Some e \<Rightarrow> Inl (BadRequest e)
               | None \<Rightarrow>
                   (case validate_reply_headers (sc_parse (ac_send cfg)) req of
                      Some e \<Rightarrow> Inl (BadRequest e)
                    | None \<Rightarrow> Inr rs)))"

text \<open>The checks and the lookup of the provider that both modes begin with.\<close>

definition begin_send ::
  "admission_config \<Rightarrow> email_provider list option \<Rightarrow> (string, email_provider option) result \<Rightarrow> string \<Rightarrow> send_request
    \<Rightarrow> (send_error, email_provider \<times> (string \<times> string) list) result" where
  "begin_send cfg listed_ps by_id tenant req =
     (case check_request cfg tenant req of
        Inl p \<Rightarrow> Inl (SendFailed (ac_problem_text cfg p))
      | Inr rs \<Rightarrow>
          (case get_provider (rq_provider_id req) listed_ps by_id of
             Inl cause \<Rightarrow> Inl (SendFailed (''failed to get provider: '' @ cause))
           | Inr None \<Rightarrow> Inl (ProviderNotFound (rq_provider_id req))
           | Inr (Some p) \<Rightarrow> Inr (p, rs)))"

section \<open>Worker mode\<close>

definition send_email_worker ::
  "admission_config \<Rightarrow> email_provider list option \<Rightarrow> (string, email_provider option) result \<Rightarrow> pass_env
    \<Rightarrow> string \<Rightarrow> send_request \<Rightarrow> string \<Rightarrow> delivery_world \<Rightarrow> (send_error, string) result \<times> delivery_world" where
  "send_email_worker cfg listed_ps by_id pe tenant req mid w =
     (case begin_send cfg listed_ps by_id tenant req of
        Inl e \<Rightarrow> (Inl e, w)
      | Inr _ \<Rightarrow> do_send (ac_send cfg) pe tenant req mid w)"

section \<open>Client mode\<close>

datatype admission_error =
    SendRefused send_error
  | KeyUnreadable
  | IdempotencyKeyConflict string
  | IdempotencyKeyInFlight
  | HashFailed string
  | RateLimited duration
  | BacklogFull nat int
  | SuppressionUnreadable
  | SuppressedRecipient string string
  | ScreenFailed
  | RejectedByRule string
  | EncodeFailed string
  | EnqueueFailed outbox_error

record gateway =
  gw_delivery :: delivery_world
  gw_outbox :: outbox_db
  gw_reviews :: "table \<times> notification list"
  gw_backlog :: "nat ttl_cache"
  gw_sent_copies :: "(string \<times> string \<times> send_request) list"

record admission_env =
  ae_now :: time
  ae_message_id :: string
  ae_listed :: "email_provider list option"
  ae_by_id :: "(string, email_provider option) result"
  ae_hash :: "(string, string) result"
  ae_replay_ok :: bool
  ae_race_ok :: bool
  ae_limit :: "limit option"
  ae_bucket_order :: "(string \<times> nat) list \<Rightarrow> (string \<times> nat) list"
  ae_count_ok :: bool
  ae_sup_oks :: "bool list"
  ae_template :: "(string, mail_template option) result"
  ae_rules :: "rule list option"
  ae_record_ok :: bool
  ae_record_id :: string
  ae_encoded :: "(string, string) result"
  ae_attachments :: string
  ae_create_ok :: bool
  ae_keys_ok :: bool
  ae_queue_ok :: bool
  ae_copy_ok :: bool
  ae_save_ok :: bool
  ae_event :: "string \<Rightarrow> email_event_type \<Rightarrow> record_env"

text \<open>A repeated request is answered from its key; no answer means the send goes on.\<close>

definition replay ::
  "bool \<Rightarrow> time \<Rightarrow> string \<Rightarrow> string \<Rightarrow> string \<Rightarrow> outbox_db \<Rightarrow> (admission_error, string option) result" where
  "replay ok now tenant key hash db =
     (case get_idempotency_key ok tenant key (now - idempotency_key_window) db of
        Inl e \<Rightarrow> Inl KeyUnreadable
      | Inr None \<Rightarrow> Inr None
      | Inr (Some k) \<Rightarrow>
          if ik_request_hash k \<noteq> hash then Inl (IdempotencyKeyConflict (ik_message_id k))
          else Inr (Some (ik_message_id k)))"

definition lost_key_race ::
  "bool \<Rightarrow> time \<Rightarrow> string \<Rightarrow> string \<Rightarrow> string \<Rightarrow> outbox_db \<Rightarrow> (admission_error, string) result" where
  "lost_key_race ok now tenant key hash db =
     (case replay ok now tenant key hash db of
        Inl e \<Rightarrow> Inl e
      | Inr None \<Rightarrow> Inl IdempotencyKeyInFlight
      | Inr (Some mid) \<Rightarrow> Inr mid)"

definition check_key ::
  "admission_env \<Rightarrow> string \<Rightarrow> send_request \<Rightarrow> outbox_db \<Rightarrow> (admission_error, string option) result" where
  "check_key env tenant req db =
     (if rq_idempotency_key req = [] then Inr None
      else case ae_hash env of
        Inl cause \<Rightarrow> Inl (HashFailed cause)
      | Inr h \<Rightarrow> replay (ae_replay_ok env) (ae_now env) tenant (rq_idempotency_key req) h db)"

definition check_sender :: "parser \<Rightarrow> email_provider \<Rightarrow> send_request \<Rightarrow> send_error option" where
  "check_sender parse p req =
     (case sender_address parse (rq_from req) of
        None \<Rightarrow> Some (SendFailed (''invalid from address: '' @ rq_from req))
      | Some a \<Rightarrow>
          if match_allowed (provider_sender_match p a) then None else Some (ProviderSenderRefused (pv_name p) a))"

definition backlog_minutes :: int where "backlog_minutes = 60"
definition backlog_count_ttl :: duration where "backlog_count_ttl = 5 * second"

definition check_backlog ::
  "bool \<Rightarrow> time \<Rightarrow> string \<Rightarrow> limit \<Rightarrow> outbox_db \<Rightarrow> nat ttl_cache \<Rightarrow> admission_error option \<times> nat ttl_cache" where
  "check_backlog count_ok now tenant lmt db cache =
     (if unlimited lmt then (None, cache)
      else
        let ceiling = l_per_minute lmt * backlog_minutes;
            verdict = (\<lambda>n. if int n \<ge> ceiling then Some (BacklogFull n ceiling) else None)
        in case cache_get now tenant cache of
             (Some n, cache') \<Rightarrow> (verdict n, cache')
           | (None, cache') \<Rightarrow>
               (case count_pending count_ok tenant db of
                  Inl _ \<Rightarrow> (None, cache')
                | Inr n \<Rightarrow> (verdict n, cache_put now tenant n cache')))"

definition provider_bucket_key :: "string \<Rightarrow> string \<Rightarrow> string" where
  "provider_bucket_key tenant pid = tenant @ ''|provider|'' @ pid"

definition admission_requests :: "string \<Rightarrow> limit \<Rightarrow> email_provider \<Rightarrow> request list" where
  "admission_requests tenant lmt p =
     \<lparr>q_key = tenant, q_limit = lmt\<rparr> #
     (if unlimited (provider_send_limit p) then []
      else [\<lparr>q_key = provider_bucket_key tenant (pv_id p), q_limit = provider_send_limit p\<rparr>])"

definition set_limiter :: "limiter \<Rightarrow> gateway \<Rightarrow> gateway" where
  "set_limiter l g = g\<lparr>gw_delivery := (gw_delivery g)\<lparr>dw_limiter := l\<rparr>\<rparr>"

definition check_send_rate ::
  "admission_config \<Rightarrow> admission_env \<Rightarrow> string \<Rightarrow> email_provider \<Rightarrow> int \<Rightarrow> gateway \<Rightarrow> admission_error option \<times> gateway" where
  "check_send_rate cfg env tenant p cost g =
     (if \<not> sc_has_limiter (ac_send cfg) \<or> \<not> ac_has_send_limits cfg then (None, g)
      else case ae_limit env of
        None \<Rightarrow> (None, g)
      | Some lmt \<Rightarrow>
          if unlimited lmt \<and> unlimited (provider_send_limit p) then (None, g)
          else
            let (full, cache) =
                  (if unlimited lmt then (None, gw_backlog g)
                   else check_backlog (ae_count_ok env) (ae_now env) tenant lmt (gw_outbox g) (gw_backlog g));
                g1 = g\<lparr>gw_backlog := cache\<rparr>
            in case full of
                 Some e \<Rightarrow> (Some e, g1)
               | None \<Rightarrow>
                   let ((ok, after), l) = allow_all (ae_bucket_order env) (ae_now env)
                         (admission_requests tenant lmt p) cost (dw_limiter (gw_delivery g1))
                   in (if ok then None else Some (RateLimited after), set_limiter l g1))"

section \<open>Suppressions and filter rules at admission\<close>

definition admission_record ::
  "admission_config \<Rightarrow> admission_env \<Rightarrow> string \<Rightarrow> string \<Rightarrow> email_event_type \<Rightarrow> string \<Rightarrow> string \<Rightarrow> gateway \<Rightarrow> gateway" where
  "admission_record cfg env tenant provider t r err g =
     g\<lparr>gw_delivery := (gw_delivery g)\<lparr>dw_log := snd (record_event (sc_events (ac_send cfg)) (ae_event env r t)
          tenant provider (ae_message_id env) t r [] err [] (dw_log (gw_delivery g)))\<rparr>\<rparr>"

definition first_suppressed :: "(string \<times> string) list \<Rightarrow> (string \<times> string) list \<Rightarrow> (string \<times> string) option" where
  "first_suppressed suppressed rs =
     (case find (\<lambda>(a, k). map_of suppressed k \<noteq> None) rs of
        None \<Rightarrow> None
      | Some (a, k) \<Rightarrow> Some (a, the (map_of suppressed k)))"

definition check_suppressed ::
  "admission_config \<Rightarrow> admission_env \<Rightarrow> string \<Rightarrow> (string \<times> string) list \<Rightarrow> gateway \<Rightarrow> admission_error option \<times> gateway" where
  "check_suppressed cfg env tenant rs g =
     (case suppressions_for (ae_sup_oks env) tenant (map snd rs) (el_sups (dw_log (gw_delivery g))) of
        Inl e \<Rightarrow> (Some SuppressionUnreadable, g)
      | Inr suppressed \<Rightarrow>
          (case first_suppressed suppressed rs of
             None \<Rightarrow> (None, g)
           | Some (a, reason) \<Rightarrow>
               (Some (SuppressedRecipient a reason), admission_record cfg env tenant [] EventDropped a reason g)))"

definition screened_message :: "send_request \<Rightarrow> string \<Rightarrow> string \<Rightarrow> string \<Rightarrow> message" where
  "screened_message req subject html txt =
     \<lparr>m_from = rq_from req, m_to = rq_to req, m_cc = rq_cc req, m_bcc = rq_bcc req, m_subject = subject,
      m_html = html, m_text = txt, m_headers = Map.empty, m_attachments = filter_attachments (rq_attachments req),
      m_size = approximate_size subject html txt (rq_attachments req), m_provider_id = rq_provider_id req,
      m_spf = [], m_dkim = [], m_dmarc = []\<rparr>"

definition record_review :: "admission_config \<Rightarrow> admission_env \<Rightarrow> filtered_message \<Rightarrow> gateway \<Rightarrow> gateway" where
  "record_review cfg env r g =
     g\<lparr>gw_reviews := snd (screener_record (ae_record_ok env) (ac_has_notifier cfg) (ae_record_id env) (ae_now env)
          (ac_quarantine_retention cfg) r (gw_reviews g))\<rparr>"

text \<open>The verdict of the filter rules: a refusal, or the status the message is queued under with the
  record of a hold that is still to be written.\<close>

definition screen_outbound ::
  "admission_config \<Rightarrow> admission_env \<Rightarrow> string \<Rightarrow> send_request \<Rightarrow> string list \<Rightarrow> message \<Rightarrow> gateway
    \<Rightarrow> (admission_error, outbox_status \<times> filtered_message option) result \<times> gateway" where
  "screen_outbound cfg env tenant req addresses m g =
     (if \<not> ac_has_screener cfg then (Inr (OutboxStatusPending, None), g)
      else case screen (ac_re_match cfg) (ac_supported cfg) (ac_extract cfg) (ae_rules env) DirectionOutbound m of
        Inl e \<Rightarrow> (Inl ScreenFailed, g)
      | Inr d \<Rightarrow>
          let r = (new_filtered_message tenant DirectionOutbound m d)\<lparr>fm_message_id := ae_message_id env\<rparr>
          in case d_action d of
               ActionReject \<Rightarrow>
                 (Inl (RejectedByRule (fm_rule_name r)),
                  fold (\<lambda>a g. admission_record cfg env tenant (rq_provider_id req) EventRejected a
                          (''filter rule: '' @ fm_rule_name r) g) addresses (record_review cfg env r g))
             | ActionHold \<Rightarrow> (Inr (OutboxStatusHeld, Some (r\<lparr>fm_payload_ref := ae_message_id env\<rparr>)), g)
             | ActionTag \<Rightarrow> (Inr (OutboxStatusPending, None), record_review cfg env r g)
             | _ \<Rightarrow> (Inr (OutboxStatusPending, None), g))"

section \<open>Queueing\<close>

definition queued_email :: "admission_env \<Rightarrow> string \<Rightarrow> string \<Rightarrow> outbox_status \<Rightarrow> outbox_email" where
  "queued_email env tenant encoded status =
     \<lparr>oe_mail_id = ae_message_id env, oe_tenant_id = tenant, oe_request = encoded, oe_status = status,
      oe_retry_count = 0, oe_next_retry_at = ae_now env, oe_last_error = [], oe_created_at = ae_now env,
      oe_updated_at = ae_now env, oe_claim_token = []\<rparr>"

text \<open>A message is queued, or answered by the request that took its key first, or neither.\<close>

datatype enqueue_result = Queued outbox_db | AnsweredBy string | NotQueued admission_error

definition enqueue :: "admission_env \<Rightarrow> string \<Rightarrow> send_request \<Rightarrow> outbox_status \<Rightarrow> outbox_db \<Rightarrow> enqueue_result" where
  "enqueue env tenant req status db =
     (case ae_encoded env of
        Inl cause \<Rightarrow> NotQueued (EncodeFailed cause)
      | Inr bytes \<Rightarrow>
          let e = queued_email env tenant bytes status;
              hash = (case ae_hash env of Inr h \<Rightarrow> h | Inl _ \<Rightarrow> [])
          in if rq_idempotency_key req = []
             then (case outbox_create (ae_create_ok env) e db of
                     Inl err \<Rightarrow> NotQueued (EnqueueFailed err)
                   | Inr db' \<Rightarrow> Queued db')
             else (case create_with_idempotency_key (ae_keys_ok env) (ae_queue_ok env) e
                          \<lparr>ik_tenant_id = tenant, ik_key = rq_idempotency_key req, ik_request_hash = hash,
                           ik_message_id = ae_message_id env, ik_created_at = ae_now env\<rparr>
                          (ae_now env - idempotency_key_window) db of
                     Inl ErrIdempotencyKeyTaken \<Rightarrow>
                       (case lost_key_race (ae_race_ok env) (ae_now env) tenant (rq_idempotency_key req) hash db of
                          Inl err \<Rightarrow> NotQueued err
                        | Inr mid \<Rightarrow> AnsweredBy mid)
                   | Inl err \<Rightarrow> NotQueued (EnqueueFailed err)
                   | Inr db' \<Rightarrow> Queued db'))"

definition sent_copy_request :: "send_request \<Rightarrow> string \<Rightarrow> string \<Rightarrow> string \<Rightarrow> send_request" where
  "sent_copy_request req subject html txt =
     req\<lparr>rq_subject := subject, rq_body_html := html, rq_body_text := txt, rq_template_id := [],
         rq_template_data := [], rq_body := [], rq_is_html := False, rq_idempotency_key := []\<rparr>"

definition queue_sent_copy ::
  "admission_config \<Rightarrow> admission_env \<Rightarrow> string \<Rightarrow> send_request \<Rightarrow> string \<Rightarrow> string \<Rightarrow> string \<Rightarrow> gateway \<Rightarrow> gateway" where
  "queue_sent_copy cfg env tenant req subject html txt g =
     (if \<not> ac_has_sent_copies cfg \<or> \<not> rq_save_sent_copy req \<or> \<not> ae_copy_ok env then g
      else g\<lparr>gw_sent_copies := gw_sent_copies g @
             [(tenant, ae_message_id env, sent_copy_request req subject html txt)]\<rparr>)"

definition saved_message :: "admission_env \<Rightarrow> string \<Rightarrow> send_request \<Rightarrow> string \<Rightarrow> string \<Rightarrow> string \<Rightarrow> email_message" where
  "saved_message env tenant req subject html txt =
     \<lparr>em_id = ae_message_id env, em_tenant_id = tenant, em_provider_id = rq_provider_id req, em_from = rq_from req,
      em_to = rq_to req, em_cc = rq_cc req, em_bcc = rq_bcc req, em_subject = subject, em_body_html = html,
      em_body_text = txt, em_attachments = ae_attachments env, em_created_at = ae_now env\<rparr>"

text \<open>What follows a message that is queued: the Sent copy, the stored message, the PENDING events,
  and the record of a hold or the call to the worker.\<close>

definition after_queueing ::
  "admission_config \<Rightarrow> admission_env \<Rightarrow> string \<Rightarrow> send_request \<Rightarrow> string list \<Rightarrow> string \<Rightarrow> string \<Rightarrow> string
    \<Rightarrow> filtered_message option \<Rightarrow> gateway \<Rightarrow> gateway" where
  "after_queueing cfg env tenant req addresses subject html txt held g =
     (let g1 = queue_sent_copy cfg env tenant req subject html txt g;
          w1 = gw_delivery g1;
          g2 = g1\<lparr>gw_delivery := w1\<lparr>dw_log := snd (save_message (ae_save_ok env) (ae_now env)
                    (saved_message env tenant req subject html txt) (dw_log w1))\<rparr>\<rparr>;
          g3 = fold (\<lambda>a g. admission_record cfg env tenant (rq_provider_id req) EventPending a [] g) addresses g2
      in case held of
           Some r \<Rightarrow> record_review cfg env r g3
         | None \<Rightarrow> if ac_has_worker cfg then g3\<lparr>gw_outbox := (gw_outbox g3)\<lparr>db_wake := True\<rparr>\<rparr> else g3)"

definition admit_rendered ::
  "admission_config \<Rightarrow> admission_env \<Rightarrow> string \<Rightarrow> send_request \<Rightarrow> string list \<Rightarrow> string \<times> string \<times> string \<Rightarrow> gateway
    \<Rightarrow> (admission_error, string) result \<times> gateway" where
  "admit_rendered cfg env tenant req addresses rendered g =
     (case rendered of (subject, html, txt) \<Rightarrow>
        (case screen_outbound cfg env tenant req addresses (screened_message req subject html txt) g of
           (Inl e, g1) \<Rightarrow> (Inl e, g1)
         | (Inr (status, held), g1) \<Rightarrow>
             (case enqueue env tenant req status (gw_outbox g1) of
                NotQueued e \<Rightarrow> (Inl e, g1)
              | AnsweredBy mid \<Rightarrow> (Inr mid, g1)
              | Queued db \<Rightarrow>
                  (Inr (ae_message_id env),
                   after_queueing cfg env tenant req addresses subject html txt held (g1\<lparr>gw_outbox := db\<rparr>)))))"

definition send_email_client ::
  "admission_config \<Rightarrow> admission_env \<Rightarrow> string \<Rightarrow> send_request \<Rightarrow> gateway
    \<Rightarrow> (admission_error, string) result \<times> gateway" where
  "send_email_client cfg env tenant req g =
     (case begin_send cfg (ae_listed env) (ae_by_id env) tenant req of
        Inl e \<Rightarrow> (Inl (SendRefused e), g)
      | Inr (p, rs) \<Rightarrow>
          (case check_key env tenant req (gw_outbox g) of
             Inl e \<Rightarrow> (Inl e, g)
           | Inr (Some mid) \<Rightarrow> (Inr mid, g)
           | Inr None \<Rightarrow>
               (case check_sender (sc_parse (ac_send cfg)) p req of
                  Some e \<Rightarrow> (Inl (SendRefused e), g)
                | None \<Rightarrow>
                    (case check_send_rate cfg env tenant p
                            (recipient_count (rq_to req) (rq_cc req) (rq_bcc req)) g of
                       (Some e, g1) \<Rightarrow> (Inl e, g1)
                     | (None, g1) \<Rightarrow>
                         (case check_suppressed cfg env tenant rs g1 of
                            (Some e, g2) \<Rightarrow> (Inl e, g2)
                          | (None, g2) \<Rightarrow>
                              (case render_template (sc_render (ac_send cfg)) (ae_template env) req of
                                 Inl e \<Rightarrow> (Inl (SendRefused e), g2)
                               | Inr rendered \<Rightarrow> admit_rendered cfg env tenant req (map fst rs) rendered g2))))))"

section \<open>What a step of admission leaves alone\<close>

abbreviation gw_log :: "gateway \<Rightarrow> event_log" where
  "gw_log g \<equiv> dw_log (gw_delivery g)"

lemma admission_record_has:
  assumes "lower_trim a \<noteq> []" "ec_internal_id (sc_events (ac_send cfg)) (ae_message_id env)"
  shows "has_event tenant' m t' r (gw_log (admission_record cfg env tenant provider t a err g)) \<longleftrightarrow>
    has_event tenant' m t' r (gw_log g) \<or>
    re_write_ok (ae_event env a t) \<and> tenant' = tenant \<and> m = ae_message_id env \<and> t' = refine_type t err \<and> r = lower_trim a"
  by (simp add: admission_record_def record_event_has [OF assms])

lemma admission_record_frame [simp]:
  "gw_outbox (admission_record cfg env tenant provider t a err g) = gw_outbox g"
  "gw_reviews (admission_record cfg env tenant provider t a err g) = gw_reviews g"
  "dw_accepted (gw_delivery (admission_record cfg env tenant provider t a err g)) = dw_accepted (gw_delivery g)"
  by (simp_all add: admission_record_def)

lemma record_review_frame [simp]:
  "gw_outbox (record_review cfg env r g) = gw_outbox g" "gw_delivery (record_review cfg env r g) = gw_delivery g"
  by (simp_all add: record_review_def)

lemma fold_record_has:
  assumes "ec_internal_id (sc_events (ac_send cfg)) (ae_message_id env)" "\<forall>a \<in> set as. lower_trim a = a \<and> a \<noteq> []"
    "t \<noteq> EventBounced"
  shows "has_event tenant' m t' r (gw_log (fold (\<lambda>a g. admission_record cfg env tenant provider t a err g) as g)) \<longleftrightarrow>
    has_event tenant' m t' r (gw_log g) \<or>
    tenant' = tenant \<and> m = ae_message_id env \<and> t' = t \<and> r \<in> set as \<and> re_write_ok (ae_event env r t)"
  using assms(2)
proof (induction as arbitrary: g)
  case (Cons a as)
  then show ?case
    using assms(1,3) by (auto simp: admission_record_has)
qed simp

lemma fold_record_frame [simp]:
  "gw_outbox (fold (\<lambda>a g. admission_record cfg env tenant provider t a err g) as g) = gw_outbox g"
  "dw_accepted (gw_delivery (fold (\<lambda>a g. admission_record cfg env tenant provider t a err g) as g)) = dw_accepted (gw_delivery g)"
  by (induction as arbitrary: g) simp_all

text \<open>A step that queues nothing and announces nothing as pending.\<close>

definition unqueued :: "gateway \<Rightarrow> gateway \<Rightarrow> bool" where
  "unqueued g g' \<longleftrightarrow>
     gw_outbox g' = gw_outbox g \<and>
     (\<forall>tenant m r. has_event tenant m EventPending r (gw_log g') = has_event tenant m EventPending r (gw_log g))"

lemma unqueued_refl [simp]: "unqueued g g"
  by (simp add: unqueued_def)

lemma unqueued_trans: "unqueued g g1 \<Longrightarrow> unqueued g1 g2 \<Longrightarrow> unqueued g g2"
  by (simp add: unqueued_def)

lemma check_send_rate_unqueued:
  "unqueued g (snd (check_send_rate cfg env tenant p cost g))"
  "el_sups (gw_log (snd (check_send_rate cfg env tenant p cost g))) = el_sups (gw_log g)"
  by (simp_all add: check_send_rate_def unqueued_def set_limiter_def Let_def split: option.split prod.split)

lemma find_member: "find P xs = Some x \<Longrightarrow> x \<in> set xs"
  by (auto simp: find_Some_iff)

lemma first_suppressed_member:
  assumes "first_suppressed suppressed rs = Some (a, reason)"
  shows "a \<in> fst ` set rs"
proof -
  obtain k where "find (\<lambda>(a, k). map_of suppressed k \<noteq> None) rs = Some (a, k)"
    using assms by (auto simp: first_suppressed_def split: option.splits)
  then have "(a, k) \<in> set rs" by (rule find_member)
  then show ?thesis by (metis fst_conv imageI)
qed

lemma first_suppressed_None: "first_suppressed suppressed rs = None \<longleftrightarrow> (\<forall>(a, k) \<in> set rs. map_of suppressed k = None)"
proof -
  have "first_suppressed suppressed rs = None \<longleftrightarrow> find (\<lambda>(a, k). map_of suppressed k \<noteq> None) rs = None"
    by (simp add: first_suppressed_def split: option.split prod.split)
  also have "\<dots> \<longleftrightarrow> (\<forall>(a, k) \<in> set rs. map_of suppressed k = None)"
    by (auto simp: find_None_iff simp del: not_None_eq)
  finally show ?thesis .
qed

lemma check_suppressed_unqueued:
  assumes "check_suppressed cfg env tenant rs g = (e, g')"
    "ec_internal_id (sc_events (ac_send cfg)) (ae_message_id env)" "\<forall>a \<in> fst ` set rs. lower_trim a = a \<and> a \<noteq> []"
  shows "unqueued g g'"
    and "e = None \<Longrightarrow> norm_sups (el_sups (gw_log g)) \<Longrightarrow> (a, k) \<in> set rs \<Longrightarrow> lower_trim k = k \<Longrightarrow>
      \<not> on_list tenant k (el_sups (gw_log g))"
proof -
  show "unqueued g g'"
    using assms first_suppressed_member
    by (fastforce simp: check_suppressed_def unqueued_def admission_record_has split: sum.splits option.splits)
  assume a: "e = None" "norm_sups (el_sups (gw_log g))" "(a, k) \<in> set rs" "lower_trim k = k"
  then obtain m where m: "suppressions_for (ae_sup_oks env) tenant (map snd rs) (el_sups (gw_log g)) = Inr m"
    "first_suppressed m rs = None"
    using assms(1) by (auto simp: check_suppressed_def split: sum.splits option.splits)
  have "k \<in> set (map snd rs)" using a(3) by force
  with suppressions_for_exact [OF m(1) a(2) this a(4)] m(2) a(3)
  show "\<not> on_list tenant k (el_sups (gw_log g))" by (auto simp: first_suppressed_None)
qed

lemma screen_outbound_unqueued:
  assumes "screen_outbound cfg env tenant req addresses m g = (res, g')"
    "ec_internal_id (sc_events (ac_send cfg)) (ae_message_id env)" "\<forall>a \<in> set addresses. lower_trim a = a \<and> a \<noteq> []"
  shows "unqueued g g'" "res = Inr (status, held) \<Longrightarrow> status = OutboxStatusPending \<or> status = OutboxStatusHeld"
proof -
  show "unqueued g g'"
    using assms(1) fold_record_has [OF assms(2,3), of EventRejected]
    by (auto simp: screen_outbound_def unqueued_def Let_def split: if_splits sum.splits action.splits)
  show "res = Inr (status, held) \<Longrightarrow> status = OutboxStatusPending \<or> status = OutboxStatusHeld"
    using assms(1) by (auto simp: screen_outbound_def Let_def split: if_splits sum.splits action.splits)
qed

section \<open>Accepted means queued\<close>

definition answered ::
  "admission_env \<Rightarrow> string \<Rightarrow> send_request \<Rightarrow> outbox_db \<Rightarrow> string \<Rightarrow> bool" where
  "answered env tenant req db mid \<longleftrightarrow>
     (\<exists>k \<in> set (db_keys db). same_key tenant (rq_idempotency_key req) k \<and> ik_message_id k = mid \<and>
        ae_now env - idempotency_key_window \<le> ik_created_at k \<and> ae_hash env = Inr (ik_request_hash k))"

lemma replay_answered:
  assumes "replay ok (ae_now env) tenant (rq_idempotency_key req) h db = Inr (Some mid)" "ae_hash env = Inr h"
  shows "answered env tenant req db mid"
  using assms unfolding replay_def answered_def get_idempotency_key_def
  by (auto split: if_splits option.splits dest: find_row_Some)

lemma check_key_answered: "check_key env tenant req db = Inr (Some mid) \<Longrightarrow> answered env tenant req db mid"
  by (auto simp: check_key_def replay_answered split: if_splits sum.splits)

lemma check_key_hash: "check_key env tenant req db = Inr None \<Longrightarrow> rq_idempotency_key req \<noteq> [] \<longrightarrow> (\<exists>h. ae_hash env = Inr h)"
  by (auto simp: check_key_def split: sum.splits if_splits)

lemma enqueue_answered:
  assumes "enqueue env tenant req status db = AnsweredBy mid" "rq_idempotency_key req \<noteq> [] \<Longrightarrow> \<exists>h. ae_hash env = Inr h"
  shows "answered env tenant req db mid"
proof -
  have key: "rq_idempotency_key req \<noteq> []"
    using assms(1) by (auto simp: enqueue_def Let_def split: sum.splits outbox_error.splits if_splits)
  then obtain h where h: "ae_hash env = Inr h" using assms(2) by blast
  have "lost_key_race (ae_race_ok env) (ae_now env) tenant (rq_idempotency_key req) h db = Inr mid"
    using assms(1) key h by (auto simp: enqueue_def Let_def split: sum.splits outbox_error.splits)
  then have "replay (ae_race_ok env) (ae_now env) tenant (rq_idempotency_key req) h db = Inr (Some mid)"
    by (auto simp: lost_key_race_def split: sum.splits option.splits)
  then show ?thesis using h by (rule replay_answered)
qed

lemma created_rows:
  "outbox_insert e db = Inr db' \<Longrightarrow> db_rows db' = db_rows db @ [row_of e]"
  "outbox_create ok e db = Inr db' \<Longrightarrow> db_rows db' = db_rows db @ [row_of e]"
  "create_with_idempotency_key kok qok e k since db = Inr db' \<Longrightarrow> db_rows db' = db_rows db @ [row_of e]"
  by (auto simp: outbox_create_def outbox_insert_def create_with_idempotency_key_def Let_def split: if_splits)

lemma enqueue_queued:
  assumes "enqueue env tenant req status db = Queued db'"
  obtains bytes where "ae_encoded env = Inr bytes"
    "db_rows db' = db_rows db @ [row_of (queued_email env tenant bytes status)]"
proof -
  obtain bytes where b: "ae_encoded env = Inr bytes" using assms by (auto simp: enqueue_def split: sum.splits)
  have "db_rows db' = db_rows db @ [row_of (queued_email env tenant bytes status)]"
    using assms created_rows(2,3) unfolding enqueue_def b
    by (auto simp: Let_def split: sum.splits if_splits outbox_error.splits)
  with b show ?thesis by (rule that)
qed

lemma saved_has_event [simp]:
  "has_event tenant m t r (snd (save_message ok now x l)) = has_event tenant m t r l"
  by (simp add: has_event_def save_message_def)

lemma queue_sent_copy_frame [simp]:
  "gw_outbox (queue_sent_copy cfg env tenant req s h b g) = gw_outbox g"
  "gw_delivery (queue_sent_copy cfg env tenant req s h b g) = gw_delivery g"
  by (simp_all add: queue_sent_copy_def)

lemma after_queueing_effect:
  assumes "ec_internal_id (sc_events (ac_send cfg)) (ae_message_id env)" "\<forall>a \<in> set as. lower_trim a = a \<and> a \<noteq> []"
  shows "db_rows (gw_outbox (after_queueing cfg env tenant req as s h b held g)) = db_rows (gw_outbox g)"
    and "has_event tenant' m EventPending r (gw_log (after_queueing cfg env tenant req as s h b held g)) \<longleftrightarrow>
      has_event tenant' m EventPending r (gw_log g) \<or>
      tenant' = tenant \<and> m = ae_message_id env \<and> r \<in> set as \<and> re_write_ok (ae_event env r EventPending)"
  by (simp_all add: after_queueing_def Let_def fold_record_has [OF assms] split: option.split)

lemma begin_send_Inr:
  assumes "begin_send cfg listed_ps by_id tenant req = Inr (p, rs)"
  shows "resolve_recipients (sc_parse (ac_send cfg)) [rq_to req, rq_cc req, rq_bcc req] = Inr rs"
    "get_provider (rq_provider_id req) listed_ps by_id = Inr (Some p)"
    "check_request cfg tenant req = Inr rs"
proof -
  show c: "check_request cfg tenant req = Inr rs"
    using assms by (auto simp: begin_send_def split: sum.splits option.splits)
  then show "resolve_recipients (sc_parse (ac_send cfg)) [rq_to req, rq_cc req, rq_bcc req] = Inr rs"
    unfolding check_request_def by (simp split: if_splits option.splits sum.splits)
  show "get_provider (rq_provider_id req) listed_ps by_id = Inr (Some p)"
    using assms by (auto simp: begin_send_def split: sum.splits option.splits)
qed

lemma admit_rendered_cases:
  assumes "admit_rendered cfg env tenant req as rendered g = (res, g')"
    "ec_internal_id (sc_events (ac_send cfg)) (ae_message_id env)" "\<forall>a \<in> set as. lower_trim a = a \<and> a \<noteq> []"
    "rq_idempotency_key req \<noteq> [] \<longrightarrow> (\<exists>h. ae_hash env = Inr h)"
  obtains (refused) e where "res = Inl e" "unqueued g g'"
  | (replayed) mid where "res = Inr mid" "answered env tenant req (gw_outbox g) mid" "unqueued g g'"
  | (queued) bytes status where "res = Inr (ae_message_id env)" "ae_encoded env = Inr bytes"
      "status = OutboxStatusPending \<or> status = OutboxStatusHeld"
      "db_rows (gw_outbox g') = db_rows (gw_outbox g) @ [row_of (queued_email env tenant bytes status)]"
      "\<And>r. has_event tenant (ae_message_id env) EventPending r (gw_log g') \<longleftrightarrow>
        has_event tenant (ae_message_id env) EventPending r (gw_log g) \<or>
        r \<in> set as \<and> re_write_ok (ae_event env r EventPending)"
proof -
  obtain subject html body where r: "rendered = (subject, html, body)" by (metis prod_cases3)
  obtain sres g1 where s: "screen_outbound cfg env tenant req as (screened_message req subject html body) g = (sres, g1)"
    by (rule prod.exhaust)
  note su = screen_outbound_unqueued [OF s assms(2,3)]
  then have ob: "gw_outbox g1 = gw_outbox g" by (simp add: unqueued_def)
  show ?thesis
  proof (cases sres)
    case (Inl e)
    with assms(1) r s have "res = Inl e" "g' = g1" by (simp_all add: admit_rendered_def)
    with su(1) show ?thesis using refused by blast
  next
    case (Inr sh)
    obtain status held where sh: "sh = (status, held)" by (rule prod.exhaust)
    show ?thesis
    proof (cases "enqueue env tenant req status (gw_outbox g1)")
      case (NotQueued e)
      with assms(1) r s Inr sh have "res = Inl e" "g' = g1" by (simp_all add: admit_rendered_def)
      with su(1) show ?thesis using refused by blast
    next
      case (AnsweredBy mid)
      with assms(1) r s Inr sh have "res = Inr mid" "g' = g1" by (simp_all add: admit_rendered_def)
      moreover have "answered env tenant req (gw_outbox g) mid"
        using enqueue_answered [OF AnsweredBy] assms(4) ob by simp
      ultimately show ?thesis using su(1) replayed by blast
    next
      case (Queued db)
      with assms(1) r s Inr sh have res: "res = Inr (ae_message_id env)"
        "g' = after_queueing cfg env tenant req as subject html body held (g1\<lparr>gw_outbox := db\<rparr>)"
        by (simp_all add: admit_rendered_def)
      obtain bytes where b: "ae_encoded env = Inr bytes"
        "db_rows db = db_rows (gw_outbox g) @ [row_of (queued_email env tenant bytes status)]"
        using enqueue_queued [OF Queued] unfolding ob by blast
      have st: "status = OutboxStatusPending \<or> status = OutboxStatusHeld" using su(2) Inr sh by blast
      show ?thesis
      proof (rule queued [OF res(1) b(1) st])
        show "db_rows (gw_outbox g') = db_rows (gw_outbox g) @ [row_of (queued_email env tenant bytes status)]"
          by (simp add: res(2) after_queueing_effect [OF assms(2,3)] b(2))
        show "has_event tenant (ae_message_id env) EventPending r (gw_log g') \<longleftrightarrow>
            has_event tenant (ae_message_id env) EventPending r (gw_log g) \<or>
            r \<in> set as \<and> re_write_ok (ae_event env r EventPending)" for r
          using su(1) by (simp add: res(2) after_queueing_effect [OF assms(2,3)] unqueued_def)
      qed
    qed
  qed
qed

text \<open>The stages before the filter rules: a refusal or a replay, or a message that may be queued.\<close>

lemma send_email_client_cases:
  assumes "send_email_client cfg env tenant req g = (res, g')"
    "ec_internal_id (sc_events (ac_send cfg)) (ae_message_id env)"
  obtains (refused) e where "res = Inl e" "unqueued g g'"
  | (replayed) mid where "res = Inr mid" "answered env tenant req (gw_outbox g) mid" "g' = g"
  | (admitted) p rs rendered g2 where
      "begin_send cfg (ae_listed env) (ae_by_id env) tenant req = Inr (p, rs)"
      "check_key env tenant req (gw_outbox g) = Inr None" "check_sender (sc_parse (ac_send cfg)) p req = None"
      "unqueued g g2"
      "norm_sups (el_sups (gw_log g)) \<Longrightarrow> \<forall>k \<in> snd ` set rs. \<not> on_list tenant k (el_sups (gw_log g))"
      "admit_rendered cfg env tenant req (map fst rs) rendered g2 = (res, g')"
proof (cases "begin_send cfg (ae_listed env) (ae_by_id env) tenant req")
  case (Inl e)
  with assms(1) have "res = Inl (SendRefused e)" "g' = g" by (simp_all add: send_email_client_def)
  then show ?thesis using refused by simp
next
  case (Inr prs)
  obtain p rs where prs: "prs = (p, rs)" by (rule prod.exhaust)
  note bs = Inr [unfolded prs]
  have rs: "\<forall>a \<in> fst ` set rs. lower_trim a = a \<and> a \<noteq> []" "\<forall>k \<in> snd ` set rs. lower_trim k = k"
    using resolved_addresses [OF begin_send_Inr(1) [OF bs]] unique_recipients_props(2)
      resolve_loop_keys [OF begin_send_Inr(1) [OF bs, unfolded resolve_recipients_def]]
    by (metis list.set_map, fastforce)
  show ?thesis
  proof (cases "check_key env tenant req (gw_outbox g)")
    case (Inl e)
    with bs assms(1) have "res = Inl e" "g' = g" by (simp_all add: send_email_client_def)
    then show ?thesis using refused by simp
  next
    case key: (Inr answer)
    show ?thesis
    proof (cases "answer = None \<and> check_sender (sc_parse (ac_send cfg)) p req = None")
      case False
      then consider (old) mid where "answer = Some mid" | (sender) e where "answer = None"
        "check_sender (sc_parse (ac_send cfg)) p req = Some e"
        by (cases answer) auto
      then show ?thesis
      proof cases
        case old
        with bs assms(1) key have "res = Inr mid" "g' = g" by (simp_all add: send_email_client_def)
        then show ?thesis using replayed check_key_answered key old by blast
      next
        case sender
        with bs assms(1) key have "res = Inl (SendRefused e)" "g' = g" by (simp_all add: send_email_client_def)
        then show ?thesis using refused by simp
      qed
    next
      case True
      obtain re g1 where rate: "check_send_rate cfg env tenant p
          (recipient_count (rq_to req) (rq_cc req) (rq_bcc req)) g = (re, g1)" by (rule prod.exhaust)
      obtain se g2 where sup: "check_suppressed cfg env tenant rs g1 = (se, g2)" by (rule prod.exhaust)
      have u1: "unqueued g g1" "el_sups (gw_log g1) = el_sups (gw_log g)"
        using check_send_rate_unqueued [where cfg = cfg and env = env and tenant = tenant and p = p and g = g and
            cost = "recipient_count (rq_to req) (rq_cc req) (rq_bcc req)"] rate by simp_all
      note cs = check_suppressed_unqueued [OF sup assms(2) rs(1)]
      have u2: "unqueued g g2" using u1(1) cs(1) by (rule unqueued_trans)
      consider (stop) e gx where "res = Inl e" "g' = gx" "unqueued g gx"
        | (on) rendered where "re = None" "se = None" "admit_rendered cfg env tenant req (map fst rs) rendered g2 = (res, g')"
        using assms(1) bs key True rate sup u1(1) u2
        by (auto simp: send_email_client_def split: option.splits sum.splits)
      then show ?thesis
      proof cases
        case stop
        then show ?thesis using refused by blast
      next
        case on
        have "\<forall>k \<in> snd ` set rs. \<not> on_list tenant k (el_sups (gw_log g))" if "norm_sups (el_sups (gw_log g))"
          using cs(2) [OF on(2)] that u1(2) rs(2) by force
        with bs key True u2 on(3) show ?thesis using admitted by blast
      qed
    qed
  qed
qed

text \<open>
  C4. An accepted message is queued, and a refused one leaves nothing behind. Either the send is
  answered with the message's own identifier, and then the outbox has exactly that message more,
  pending or held for review, its recipients are exactly those with a PENDING event, none of them is
  on the suppression list and the provider admits the From address; or the outbox is as it was, no
  PENDING event exists, and an answer can only be that of an earlier request with the same key and
  the same content.
\<close>

theorem admission_all_or_nothing:
  assumes "send_email_client cfg env tenant req g = (res, g')"
    "ec_internal_id (sc_events (ac_send cfg)) (ae_message_id env)" "norm_sups (el_sups (gw_log g))"
    "\<forall>r t. re_write_ok (ae_event env r t)"
    "\<forall>r. \<not> has_event tenant (ae_message_id env) EventPending r (gw_log g)"
  shows "(\<exists>bytes status p rs. res = Inr (ae_message_id env) \<and> ae_encoded env = Inr bytes \<and>
      (status = OutboxStatusPending \<or> status = OutboxStatusHeld) \<and>
      db_rows (gw_outbox g') = db_rows (gw_outbox g) @ [row_of (queued_email env tenant bytes status)] \<and>
      (\<forall>r. has_event tenant (ae_message_id env) EventPending r (gw_log g') \<longleftrightarrow> r \<in> set (request_recipients req)) \<and>
      begin_send cfg (ae_listed env) (ae_by_id env) tenant req = Inr (p, rs) \<and>
      check_sender (sc_parse (ac_send cfg)) p req = None \<and>
      (\<forall>k \<in> snd ` set rs. \<not> on_list tenant k (el_sups (gw_log g)))) \<or>
    (db_rows (gw_outbox g') = db_rows (gw_outbox g) \<and>
      (\<forall>r. \<not> has_event tenant (ae_message_id env) EventPending r (gw_log g')) \<and>
      (\<forall>mid. res = Inr mid \<longrightarrow> answered env tenant req (gw_outbox g) mid))"
  using assms(1,2)
proof (cases rule: send_email_client_cases)
  case (refused e)
  with assms(5) show ?thesis by (simp add: unqueued_def)
next
  case (replayed mid)
  with assms(5) show ?thesis by simp
next
  case (admitted p rs rendered g2)
  have as: "map fst rs = request_recipients req"
    using resolved_addresses [OF begin_send_Inr(1) [OF admitted(1)]] .
  have ob: "gw_outbox g2 = gw_outbox g" and pend: "\<not> has_event tenant (ae_message_id env) EventPending r (gw_log g2)" for r
    using admitted(4) assms(5) by (simp_all add: unqueued_def)
  have ne: "\<forall>a \<in> set (map fst rs). lower_trim a = a \<and> a \<noteq> []" unfolding as using unique_recipients_props(2) by blast
  from admitted(6) assms(2) ne check_key_hash [OF admitted(2)] show ?thesis
  proof (cases rule: admit_rendered_cases)
    case (refused e)
    with ob pend show ?thesis by (simp add: unqueued_def)
  next
    case (replayed mid)
    with ob pend show ?thesis by (simp add: unqueued_def)
  next
    case (queued bytes status)
    have "\<forall>r. has_event tenant (ae_message_id env) EventPending r (gw_log g') \<longleftrightarrow> r \<in> set (request_recipients req)"
      using queued(5) pend assms(4) as by simp
    with queued(1-4) ob admitted(1,3,5) assms(3) show ?thesis by auto
  qed
qed

section \<open>Instances\<close>

definition sample_note :: send_request where
  "sample_note = sample_letter\<lparr>rq_bcc := [''b@y.org'']\<rparr>"

definition sample_admission :: admission_config where
  "sample_admission =
     \<lparr>ac_send = sample_send_config, ac_valid_uuid = (\<lambda>s. True), ac_problem_text = (\<lambda>p. []),
      ac_re_match = (\<lambda>p s. False), ac_supported = (\<lambda>n t. False), ac_extract = (\<lambda>n t d. []),
      ac_has_send_limits = True, ac_has_screener = True, ac_has_notifier = True, ac_has_sent_copies = True,
      ac_has_worker = True, ac_quarantine_retention = hour\<rparr>"

definition sample_admission_env :: admission_env where
  "sample_admission_env =
     \<lparr>ae_now = 7, ae_message_id = ''m1'', ae_listed = Some [sample_provider], ae_by_id = Inr None, ae_hash = Inr [],
      ae_replay_ok = True, ae_race_ok = True, ae_limit = None, ae_bucket_order = (\<lambda>bs. bs), ae_count_ok = True,
      ae_sup_oks = [True], ae_template = Inr None, ae_rules = Some [], ae_record_ok = True, ae_record_id = ''q1'',
      ae_encoded = Inr ''bytes'', ae_attachments = [], ae_create_ok = True, ae_keys_ok = True, ae_queue_ok = True,
      ae_copy_ok = True, ae_save_ok = True, ae_event = (\<lambda>r t. sample_record_env)\<rparr>"

definition sample_gateway :: gateway where
  "sample_gateway =
     \<lparr>gw_delivery = Delivery_Pass.sample_world, gw_outbox = \<lparr>db_rows = [], db_keys = [], db_wake = False\<rparr>,
      gw_reviews = ([], []), gw_backlog = new_cache backlog_count_ttl, gw_sent_copies = []\<rparr>"

lemma sample_admission_parts:
  "check_request sample_admission ''t1'' sample_note = Inr [(''a@y.org'', ''a@y.org''), (''b@y.org'', ''b@y.org'')]"
  "get_provider ''p1'' (Some [sample_provider]) (Inr None) = Inr (Some sample_provider)"
  "check_sender sample_parse sample_provider sample_note = None"
  "suppressions_for [True] ''t1'' [''a@y.org'', ''b@y.org''] sample_sups = Inr []"
  "unique_recipients [[''a@y.org''], [], [''b@y.org'']] = [''a@y.org'', ''b@y.org'']"
  by code_simp+

lemma sample_note_fields [simp]:
  "rq_provider_id sample_note = ''p1''" "rq_idempotency_key sample_note = []" "rq_template_id sample_note = []"
  "rq_body_text sample_note = ''Hello''" "rq_to sample_note = [''a@y.org'']" "rq_cc sample_note = []"
  "rq_bcc sample_note = [''b@y.org'']"
  by (simp_all add: sample_note_def sample_letter_def)

lemma sample_admission_fields [simp]:
  "ac_send sample_admission = sample_send_config" "ac_has_screener sample_admission"
  "sc_parse sample_send_config = sample_parse" "\<not> sc_has_limiter sample_send_config"
  "el_sups (gw_log sample_gateway) = sample_sups"
  by (simp_all add: sample_admission_def sample_send_config_def sample_gateway_def Delivery_Pass.sample_world_def sample_log_def)

lemma sample_env_fields [simp]:
  "ae_message_id sample_admission_env = ''m1''" "ae_listed sample_admission_env = Some [sample_provider]"
  "ae_by_id sample_admission_env = Inr None" "ae_sup_oks sample_admission_env = [True]"
  "ae_template sample_admission_env = Inr None" "ae_rules sample_admission_env = Some []"
  "ae_encoded sample_admission_env = Inr ''bytes''" "ae_create_ok sample_admission_env"
  "ae_event sample_admission_env = (\<lambda>r t. sample_record_env)"
  by (simp_all add: sample_admission_env_def)

lemma sample_admitted:
  "fst (send_email_client sample_admission sample_admission_env ''t1'' sample_note sample_gateway) = Inr ''m1''"
proof -
  let ?m = "screened_message sample_note (rq_subject sample_note) (rq_body_html sample_note) ''Hello''"
  have b: "begin_send sample_admission (Some [sample_provider]) (Inr None) ''t1'' sample_note =
      Inr (sample_provider, [(''a@y.org'', ''a@y.org''), (''b@y.org'', ''b@y.org'')])"
    by (simp add: begin_send_def sample_admission_parts)
  have k: "check_key sample_admission_env ''t1'' sample_note (gw_outbox sample_gateway) = Inr None"
    by (simp add: check_key_def)
  have r: "check_send_rate sample_admission sample_admission_env ''t1'' sample_provider c sample_gateway =
      (None, sample_gateway)" for c
    by (simp add: check_send_rate_def)
  have s: "check_suppressed sample_admission sample_admission_env ''t1''
      [(''a@y.org'', ''a@y.org''), (''b@y.org'', ''b@y.org'')] sample_gateway = (None, sample_gateway)"
    by (simp add: check_suppressed_def first_suppressed_def sample_admission_parts)
  have t: "render_template (sc_render sample_send_config) (Inr None) sample_note =
      Inr (rq_subject sample_note, rq_body_html sample_note, ''Hello'')"
    by (simp add: render_template_def)
  have o: "screen_outbound sample_admission sample_admission_env ''t1'' sample_note as ?m sample_gateway =
      (Inr (OutboxStatusPending, None), sample_gateway)" for as
    by (simp add: screen_outbound_def screen_def no_decision_def Let_def)
  have q: "\<exists>db. enqueue sample_admission_env ''t1'' sample_note OutboxStatusPending (gw_outbox sample_gateway) = Queued db"
    by (simp add: enqueue_def outbox_create_def outbox_insert_def sample_gateway_def Let_def)
  then show ?thesis
    by (auto simp: send_email_client_def b k r s t sample_admission_parts(3) admit_rendered_def o)
qed

theorem admission_all_or_nothing_witness:
  "\<exists>g'. send_email_client sample_admission sample_admission_env ''t1'' sample_note sample_gateway = (Inr ''m1'', g') \<and>
     length (db_rows (gw_outbox g')) = 1 \<and> has_event ''t1'' ''m1'' EventPending ''b@y.org'' (gw_log g')"
proof -
  obtain g' where s: "send_email_client sample_admission sample_admission_env ''t1'' sample_note sample_gateway = (Inr ''m1'', g')"
    using sample_admitted by (metis prod.collapse)
  have empty: "db_rows (gw_outbox sample_gateway) = []" "db_keys (gw_outbox sample_gateway) = []"
    by (simp_all add: sample_gateway_def)
  have pre: "ec_internal_id (sc_events (ac_send sample_admission)) (ae_message_id sample_admission_env)"
    "norm_sups (el_sups (gw_log sample_gateway))" "\<forall>r t. re_write_ok (ae_event sample_admission_env r t)"
    "\<forall>r. \<not> has_event ''t1'' (ae_message_id sample_admission_env) EventPending r (gw_log sample_gateway)"
    using sample_pass_facts(2,5) by (simp_all add: sample_gateway_def Delivery_Pass.sample_world_def sample_log_def
      has_event_def sample_record_env_def)
  have no: "\<not> answered sample_admission_env ''t1'' sample_note (gw_outbox sample_gateway) mid" for mid
    by (simp add: answered_def empty)
  have rs: "request_recipients sample_note = [''a@y.org'', ''b@y.org'']" by (simp add: sample_admission_parts(5))
  show ?thesis
  proof (rule disjE [OF admission_all_or_nothing [OF s pre]], elim exE conjE)
    fix bytes status
    assume "db_rows (gw_outbox g') =
        db_rows (gw_outbox sample_gateway) @ [row_of (queued_email sample_admission_env ''t1'' bytes status)]"
      "\<forall>r. has_event ''t1'' (ae_message_id sample_admission_env) EventPending r (gw_log g') =
        (r \<in> set (request_recipients sample_note))"
    then have "length (db_rows (gw_outbox g')) = 1" "has_event ''t1'' ''m1'' EventPending ''b@y.org'' (gw_log g')"
      unfolding empty rs by simp_all
    with s show ?thesis by blast
  qed (use no in blast)
qed

end
