(* ===== verification/Queue_Worker.thy ===== *)
theory Queue_Worker
  imports Send_Admission
begin

text \<open>
  The outbox worker of \<open>internal/email/usecases\<close> (\<open>queue_worker.go\<close>, \<open>queue_worker_lease.go\<close>): it
  claims a batch, holds the lease of each message while the message is sent, and settles the row from
  the outcome of the pass.

  A pass over one message is one operation of the model. While it runs, the background renewal of the
  lease interleaves with whatever other instances do to the outbox: a tick is a list of their
  operations followed by one renewal. \<open>protojson.Unmarshal\<close> is the parameter \<open>wc_decode\<close>.
\<close>

section \<open>Durations and schedules\<close>

text \<open>
  \<open>time.ParseDuration\<close>. The fraction of a number is exact where Go computes it in \<open>float64\<close>.
\<close>

definition max_int63 :: nat where "max_int63 = 2 ^ 63"

definition digit_val :: "char \<Rightarrow> nat" where "digit_val c = of_char c - 48"

fun leading_int :: "nat \<Rightarrow> string \<Rightarrow> (nat \<times> string) option" where
  "leading_int v [] = Some (v, [])"
| "leading_int v (c # cs) =
     (if \<not> is_digit c then Some (v, c # cs)
      else if v > max_int63 div 10 then None
      else let v' = v * 10 + digit_val c in if v' > max_int63 then None else leading_int v' cs)"

fun leading_fraction :: "nat \<Rightarrow> nat \<Rightarrow> bool \<Rightarrow> string \<Rightarrow> (nat \<times> nat) \<times> string" where
  "leading_fraction f scale full [] = ((f, scale), [])"
| "leading_fraction f scale full (c # cs) =
     (if \<not> is_digit c then ((f, scale), c # cs)
      else if full \<or> f > (max_int63 - 1) div 10 then leading_fraction f scale True cs
      else
        let f' = f * 10 + digit_val c
        in if f' > max_int63 then leading_fraction f scale True cs
           else leading_fraction f' (scale * 10) False cs)"

definition unit_map :: "(string \<times> nat) list" where
  "unit_map =
     [(''ns'', 1), (''us'', 1000), ([CHR 0xC2, CHR 0xB5, CHR ''s''], 1000), ([CHR 0xCE, CHR 0xBC, CHR ''s''], 1000),
      (''ms'', 1000000), (''s'', 1000000000), (''m'', 60000000000), (''h'', 3600000000000)]"

definition number_char :: "char \<Rightarrow> bool" where
  "number_char c \<longleftrightarrow> c = CHR ''.'' \<or> is_digit c"

text \<open>One number with its unit: the nanoseconds, and what follows.\<close>

definition duration_term :: "string \<Rightarrow> (nat \<times> string) option" where
  "duration_term s =
     (if s = [] \<or> \<not> number_char (hd s) then None
      else case leading_int 0 s of
        None \<Rightarrow> None
      | Some (v, s1) \<Rightarrow>
          let pre = length s1 \<noteq> length s;
              ((f, scale), s2) = (if s1 \<noteq> [] \<and> hd s1 = CHR ''.'' then leading_fraction 0 1 False (tl s1) else ((0, 1), s1));
              post = s1 \<noteq> [] \<and> hd s1 = CHR ''.'' \<and> length s2 \<noteq> length (tl s1);
              u = takeWhile (\<lambda>c. \<not> number_char c) s2
          in if \<not> pre \<and> \<not> post then None
             else if u = [] then None
             else case map_of unit_map u of
               None \<Rightarrow> None
             | Some unit \<Rightarrow>
                 if v > max_int63 div unit then None
                 else
                   let v' = v * unit + f * unit div scale
                   in if v' > max_int63 then None else Some (v', drop (length u) s2))"

fun duration_sum :: "nat \<Rightarrow> nat \<Rightarrow> string \<Rightarrow> nat option" where
  "duration_sum 0 d s = None"
| "duration_sum (Suc n) d s =
     (if s = [] then Some d
      else case duration_term s of
        None \<Rightarrow> None
      | Some (v, s') \<Rightarrow> if d + v > max_int63 then None else duration_sum n (d + v) s')"

definition parse_duration :: "string \<Rightarrow> duration option" where
  "parse_duration s =
     (let signed = s \<noteq> [] \<and> (hd s = CHR ''-'' \<or> hd s = CHR ''+'');
          neg = s \<noteq> [] \<and> hd s = CHR ''-'';
          body = (if signed then tl s else s)
      in if body = ''0'' then Some 0
         else if body = [] then None
         else case duration_sum (Suc (length body)) 0 body of
           None \<Rightarrow> None
         | Some d \<Rightarrow> if neg then Some (- int d) else if d > max_int63 - 1 then None else Some (int d))"

definition default_retry_pattern :: "string list" where
  "default_retry_pattern = [''5m'', ''15m'', ''30m'', ''1h'', ''3h'', ''6h'', ''12h'', ''24h'']"

text \<open>The attempt counts from 1. The code indexes the schedule with it, so an attempt below 1 would
  panic; no caller passes one.\<close>

definition next_retry_delay :: "bool \<Rightarrow> int \<Rightarrow> string list \<Rightarrow> duration option" where
  "next_retry_delay retryable attempt pattern =
     (if \<not> retryable \<or> attempt > int (length pattern) then None
      else case parse_duration (pattern ! nat (attempt - 1)) of
        None \<Rightarrow> Some (attempt * attempt * minute)
      | Some d \<Rightarrow> Some d)"

section \<open>State and environment\<close>

definition outbox_batch_size :: nat where "outbox_batch_size = 500"
definition bookkeeping_attempts :: nat where "bookkeeping_attempts = 3"
definition retry_pattern_ttl :: duration where "retry_pattern_ttl = minute"
definition message_lease :: duration where "message_lease = 2 * minute"
definition prune_period :: duration where "prune_period = hour"

record worker =
  qw_gateway :: gateway
  qw_patterns :: "string list ttl_cache"
  qw_last_prune :: time
  qw_retention :: duration

record worker_config =
  wc_admission :: admission_config
  wc_decode :: "string \<Rightarrow> send_request option"

record lease_tick =
  lt_others :: "outbox_op list"
  lt_ok :: bool
  lt_now :: time

record work_env =
  we_now :: time
  we_renew_ok :: bool
  we_listed :: "email_provider list option"
  we_by_id :: "(string, email_provider option) result"
  we_pass :: pass_env
  we_ticks :: "lease_tick list"
  we_finished_ok :: bool
  we_tenant_pattern :: "string list option"
  we_global_pattern :: "string list"
  we_event :: "string \<Rightarrow> email_event_type \<Rightarrow> record_env"
  we_sup_ok :: "string \<Rightarrow> bool"
  we_sup_id :: "string \<Rightarrow> string"
  we_writes :: "bool list"

definition global_pattern :: "string list \<Rightarrow> string list" where
  "global_pattern src = (if src \<noteq> [] then src else default_retry_pattern)"

definition get_retry_pattern ::
  "work_env \<Rightarrow> string \<Rightarrow> string list ttl_cache \<Rightarrow> string list \<times> string list ttl_cache" where
  "get_retry_pattern env tenant cache =
     (case cache_get (we_now env) tenant cache of
        (Some p, cache') \<Rightarrow> (p, cache')
      | (None, cache') \<Rightarrow>
          let p = (case we_tenant_pattern env of
                     Some tp \<Rightarrow> if tp \<noteq> [] then tp else global_pattern (we_global_pattern env)
                   | None \<Rightarrow> global_pattern (we_global_pattern env))
          in (p, cache_put (we_now env) tenant p cache'))"

text \<open>A settling write, tried up to three times. \<open>oks\<close> says which of the tries is carried out.\<close>

fun bookkeep_tries :: "nat \<Rightarrow> (bool \<Rightarrow> 's \<Rightarrow> (outbox_error, unit) result \<times> 's) \<Rightarrow> bool list \<Rightarrow> 's \<Rightarrow> bool \<times> 's" where
  "bookkeep_tries 0 write oks s = (False, s)"
| "bookkeep_tries (Suc n) write oks s =
     (case write (case oks of [] \<Rightarrow> False | b # _ \<Rightarrow> b) s of
        (Inr _, s') \<Rightarrow> (True, s')
      | (Inl _, s') \<Rightarrow> bookkeep_tries n write (tl oks) s')"

definition bookkeep :: "(bool \<Rightarrow> 's \<Rightarrow> (outbox_error, unit) result \<times> 's) \<Rightarrow> bool list \<Rightarrow> 's \<Rightarrow> bool \<times> 's" where
  "bookkeep write oks s = bookkeep_tries bookkeeping_attempts write oks s"

definition set_outbox :: "outbox_db \<Rightarrow> worker \<Rightarrow> worker" where
  "set_outbox db wk = wk\<lparr>qw_gateway := (qw_gateway wk)\<lparr>gw_outbox := db\<rparr>\<rparr>"

definition set_delivery :: "delivery_world \<Rightarrow> worker \<Rightarrow> worker" where
  "set_delivery w wk = wk\<lparr>qw_gateway := (qw_gateway wk)\<lparr>gw_delivery := w\<rparr>\<rparr>"

abbreviation qw_outbox :: "worker \<Rightarrow> outbox_db" where "qw_outbox wk \<equiv> gw_outbox (qw_gateway wk)"
abbreviation qw_world :: "worker \<Rightarrow> delivery_world" where "qw_world wk \<equiv> gw_delivery (qw_gateway wk)"
abbreviation qw_log :: "worker \<Rightarrow> event_log" where "qw_log wk \<equiv> dw_log (gw_delivery (qw_gateway wk))"

definition update_outbox :: "work_env \<Rightarrow> outbox_email \<Rightarrow> worker \<Rightarrow> worker" where
  "update_outbox env e wk = set_outbox (snd (bookkeep (\<lambda>ok. outbox_update ok e) (we_writes env) (qw_outbox wk))) wk"

definition delete_outbox :: "work_env \<Rightarrow> string \<Rightarrow> worker \<Rightarrow> worker" where
  "delete_outbox env mid wk = set_outbox (snd (bookkeep (\<lambda>ok. outbox_delete ok mid) (we_writes env) (qw_outbox wk))) wk"

section \<open>Settling a failure\<close>

definition worker_record ::
  "worker_config \<Rightarrow> work_env \<Rightarrow> outbox_email \<Rightarrow> send_request \<Rightarrow> email_event_type \<Rightarrow> string \<Rightarrow> string \<Rightarrow> worker \<Rightarrow> worker" where
  "worker_record cfg env e req t r err wk =
     set_delivery ((qw_world wk)\<lparr>dw_log := snd (record_event (sc_events (ac_send (wc_admission cfg))) (we_event env r t)
        (oe_tenant_id e) (rq_provider_id req) (oe_mail_id e) t r (rq_subject req) err [] (qw_log wk))\<rparr>) wk"

definition record_for_each ::
  "worker_config \<Rightarrow> work_env \<Rightarrow> outbox_email \<Rightarrow> send_request \<Rightarrow> string list \<Rightarrow> email_event_type \<Rightarrow> worker \<Rightarrow> worker" where
  "record_for_each cfg env e req rs t wk = fold (\<lambda>r. worker_record cfg env e req t r (oe_last_error e)) rs wk"

definition suppress_one ::
  "worker_config \<Rightarrow> work_env \<Rightarrow> outbox_email \<Rightarrow> string \<Rightarrow> string \<Rightarrow> worker \<Rightarrow> worker" where
  "suppress_one cfg env e err r wk =
     set_delivery ((qw_world wk)\<lparr>dw_log := (qw_log wk)\<lparr>el_sups := snd (sup_add
        (ec_norm_addr (sc_events (ac_send (wc_admission cfg)))) (we_sup_ok env r) (we_sup_id env r) (we_now env)
        (oe_tenant_id e) r (''Automatic suppression due to EMAIL_EVENT_TYPE_UNSUBSCRIBED: '' @ err)
        (el_sups (qw_log wk)))\<rparr>\<rparr>) wk"

definition unfinished_recipients :: "work_env \<Rightarrow> outbox_email \<Rightarrow> string list \<Rightarrow> worker \<Rightarrow> string list" where
  "unfinished_recipients env e rs wk =
     (case finished_recipients (we_finished_ok env) (oe_tenant_id e) (oe_mail_id e) (qw_log wk) of
        None \<Rightarrow> rs
      | Some finished \<Rightarrow> filter (\<lambda>r. \<not> finished r) rs)"

definition reschedule_paced :: "work_env \<Rightarrow> outbox_email \<Rightarrow> duration \<Rightarrow> worker \<Rightarrow> worker" where
  "reschedule_paced env e after wk =
     update_outbox env (e\<lparr>oe_status := OutboxStatusDeferred, oe_next_retry_at := we_now env + after,
       oe_updated_at := we_now env\<rparr>) wk"

definition record_recipient_failure ::
  "worker_config \<Rightarrow> work_env \<Rightarrow> outbox_email \<Rightarrow> send_request \<Rightarrow> recipient_failure \<Rightarrow> worker \<Rightarrow> worker" where
  "record_recipient_failure cfg env e req f wk =
     worker_record cfg env e req (cl_type (rf_class f)) (rf_recipient f) (rf_err f) wk"

text \<open>The final word for a recipient that will not be tried again.\<close>

definition settle_permanent ::
  "worker_config \<Rightarrow> work_env \<Rightarrow> outbox_email \<Rightarrow> send_request \<Rightarrow> recipient_failure \<Rightarrow> worker \<Rightarrow> worker" where
  "settle_permanent cfg env e req f wk =
     (let wk1 = record_recipient_failure cfg env e req f wk
      in if cl_type (rf_class f) = EventUnsubscribed then suppress_one cfg env e (rf_err f) (rf_recipient f) wk1
         else wk1)"

definition handle_recipient_failures ::
  "worker_config \<Rightarrow> work_env \<Rightarrow> outbox_email \<Rightarrow> send_request \<Rightarrow> recipient_failure list \<Rightarrow> nat \<Rightarrow> worker \<Rightarrow> worker" where
  "handle_recipient_failures cfg env e req fs delivered wk =
     (let e1 = e\<lparr>oe_updated_at := we_now env, oe_last_error := error_text (RecipientFailures fs delivered)\<rparr>;
          wk1 = fold (settle_permanent cfg env e1 req) (failures_where False fs) wk;
          retry = failures_where True fs
      in if retry = []
         then (if delivered > 0 then delete_outbox env (oe_mail_id e1) wk1
               else update_outbox env (e1\<lparr>oe_status := OutboxStatusFailed\<rparr>) wk1)
         else
           let e2 = (if delivered = 0 then e1\<lparr>oe_retry_count := oe_retry_count e1 + 1\<rparr> else e1);
               (pattern, cache) = get_retry_pattern env (oe_tenant_id e2) (qw_patterns wk1);
               wk2 = wk1\<lparr>qw_patterns := cache\<rparr>
           in case next_retry_delay (cl_retryable (rf_class (hd retry))) (max (oe_retry_count e2) 1) pattern of
                Some delay \<Rightarrow>
                  update_outbox env (e2\<lparr>oe_status := OutboxStatusDeferred, oe_next_retry_at := we_now env + delay\<rparr>) wk2
              | None \<Rightarrow>
                  update_outbox env (e2\<lparr>oe_status := OutboxStatusFailed\<rparr>)
                    (fold (record_recipient_failure cfg env e2 req) retry wk2))"

definition message_verdict :: "send_error \<Rightarrow> classification" where
  "message_verdict err =
     (if permanent_refusal err
      then \<lparr>cl_type = EventRejected, cl_recipient_at_fault = False, cl_retryable = False\<rparr>
      else classify_error (error_text err))"

definition handle_message_failure ::
  "worker_config \<Rightarrow> work_env \<Rightarrow> outbox_email \<Rightarrow> send_request \<Rightarrow> send_error \<Rightarrow> worker \<Rightarrow> worker" where
  "handle_message_failure cfg env e req err wk =
     (let e1 = e\<lparr>oe_retry_count := oe_retry_count e + 1, oe_updated_at := we_now env, oe_last_error := error_text err\<rparr>;
          c = message_verdict err;
          rs = unfinished_recipients env e1 (request_recipients req) wk;
          (pattern, cache) = get_retry_pattern env (oe_tenant_id e1) (qw_patterns wk);
          wk1 = wk\<lparr>qw_patterns := cache\<rparr>
      in case next_retry_delay (cl_retryable c) (oe_retry_count e1) pattern of
           Some delay \<Rightarrow>
             update_outbox env (e1\<lparr>oe_status := OutboxStatusDeferred, oe_next_retry_at := we_now env + delay\<rparr>)
               (record_for_each cfg env e1 req rs EventDeferred wk1)
         | None \<Rightarrow>
             let wk2 = record_for_each cfg env e1 req rs (cl_type c) wk1;
                 wk3 = (if cl_type c = EventUnsubscribed
                        then fold (suppress_one cfg env e1 (oe_last_error e1)) rs wk2 else wk2)
             in update_outbox env (e1\<lparr>oe_status := OutboxStatusFailed\<rparr>) wk3)"

definition handle_failure ::
  "worker_config \<Rightarrow> work_env \<Rightarrow> outbox_email \<Rightarrow> send_request \<Rightarrow> send_error \<Rightarrow> worker \<Rightarrow> worker" where
  "handle_failure cfg env e req err wk =
     (case err of
        DeliveryPaced after \<Rightarrow> reschedule_paced env e after wk
      | RecipientFailures fs n \<Rightarrow> handle_recipient_failures cfg env e req fs n wk
      | _ \<Rightarrow> handle_message_failure cfg env e req err wk)"

section \<open>A pass over one message\<close>

text \<open>The background renewal: a renewal that fails is tried again at the next tick, one that finds
  the claim gone ends the pass.\<close>

fun keep_lease :: "string \<Rightarrow> string \<Rightarrow> lease_tick list \<Rightarrow> outbox_db \<Rightarrow> bool \<times> outbox_db" where
  "keep_lease mid token [] db = (False, db)"
| "keep_lease mid token (t # ts) db =
     (case renew_claim (lt_ok t) mid token (lt_now t + message_lease) (run outbox_step (lt_others t) db) of
        (Inr False, db') \<Rightarrow> (True, db')
      | (_, db') \<Rightarrow> keep_lease mid token ts db')"

definition process_email :: "worker_config \<Rightarrow> work_env \<Rightarrow> outbox_email \<Rightarrow> worker \<Rightarrow> worker" where
  "process_email cfg env e wk =
     (case renew_claim (we_renew_ok env) (oe_mail_id e) (oe_claim_token e) (we_now env + message_lease) (qw_outbox wk) of
        (Inr True, db) \<Rightarrow>
          let wk1 = set_outbox db wk
          in (case wc_decode cfg (oe_request e) of
                None \<Rightarrow> delete_outbox env (oe_mail_id e) wk1
              | Some req \<Rightarrow>
                  let (res, w) = send_email_worker (wc_admission cfg) (we_listed env) (we_by_id env) (we_pass env)
                        (oe_tenant_id e) req (oe_mail_id e) (qw_world wk1);
                      (lost, db') = keep_lease (oe_mail_id e) (oe_claim_token e) (we_ticks env) (qw_outbox wk1);
                      wk2 = set_outbox db' (set_delivery w wk1)
                  in if lost then wk2
                     else case res of
                            Inr _ \<Rightarrow> delete_outbox env (oe_mail_id e) wk2
                          | Inl err \<Rightarrow> handle_failure cfg env e req err wk2)
      | (_, db) \<Rightarrow> set_outbox db wk)"

text \<open>A batch: each message has its own environment, or none when shutdown came before its turn. The
  messages of a batch run concurrently; the model takes them one after another in the given order.\<close>

fun process_batch :: "worker_config \<Rightarrow> (outbox_email \<times> work_env option) list \<Rightarrow> worker \<Rightarrow> worker" where
  "process_batch cfg [] wk = wk"
| "process_batch cfg ((e, None) # es) wk = process_batch cfg es wk"
| "process_batch cfg ((e, Some env) # es) wk = process_batch cfg es (process_email cfg env e wk)"

definition process_pending ::
  "worker_config \<Rightarrow> bool \<Rightarrow> bool \<Rightarrow> time \<Rightarrow> string \<Rightarrow> (outbox_email list \<Rightarrow> (outbox_email \<times> work_env option) list)
    \<Rightarrow> worker \<Rightarrow> nat \<times> worker" where
  "process_pending cfg exec_ok read_ok now token turns wk =
     (case claim_pending exec_ok read_ok now token outbox_batch_size message_lease (qw_outbox wk) of
        (Inl _, db) \<Rightarrow> (0, set_outbox db wk)
      | (Inr es, db) \<Rightarrow> (length es, process_batch cfg (turns es) (set_outbox db wk)))"

definition prune_if_due :: "bool \<Rightarrow> bool \<Rightarrow> time \<Rightarrow> worker \<Rightarrow> worker" where
  "prune_if_due keys_ok rows_ok now wk =
     (if qw_last_prune wk \<noteq> zero_time \<and> now - qw_last_prune wk < prune_period then wk
      else
        let wk1 = set_outbox (snd (prune_idempotency_keys keys_ok (now - idempotency_key_window) (qw_outbox wk)))
                    (wk\<lparr>qw_last_prune := now\<rparr>)
        in if qw_retention wk1 \<le> 0 then wk1
           else set_outbox (snd (outbox_prune_terminal rows_ok (now - qw_retention wk1) (qw_outbox wk1))) wk1)"

section \<open>Who a verdict is recorded against\<close>

lemma set_outbox_simps [simp]:
  "qw_outbox (set_outbox db wk) = db" "qw_world (set_outbox db wk) = qw_world wk"
  "qw_patterns (set_outbox db wk) = qw_patterns wk" "set_outbox (qw_outbox wk) wk = wk"
  by (simp_all add: set_outbox_def)

lemma set_delivery_simps [simp]:
  "qw_world (set_delivery w wk) = w" "qw_outbox (set_delivery w wk) = qw_outbox wk"
  "qw_patterns (set_delivery w wk) = qw_patterns wk"
  by (simp_all add: set_delivery_def)

lemma settle_writes_world [simp]:
  "qw_world (update_outbox env e wk) = qw_world wk" "qw_patterns (update_outbox env e wk) = qw_patterns wk"
  "qw_world (delete_outbox env mid wk) = qw_world wk" "qw_patterns (delete_outbox env mid wk) = qw_patterns wk"
  by (simp_all add: update_outbox_def delete_outbox_def)

lemma worker_record_frame [simp]:
  "qw_outbox (worker_record cfg env e req t r err wk) = qw_outbox wk"
  "qw_patterns (worker_record cfg env e req t r err wk) = qw_patterns wk"
  by (simp_all add: worker_record_def)

lemma suppress_one_frame [simp]:
  "qw_outbox (suppress_one cfg env e err r wk) = qw_outbox wk"
  "qw_patterns (suppress_one cfg env e err r wk) = qw_patterns wk"
  "el_events (qw_log (suppress_one cfg env e err r wk)) = el_events (qw_log wk)"
  by (simp_all add: suppress_one_def)

text \<open>Two states in which a set of recipients has the same events.\<close>

definition same_events :: "(string \<Rightarrow> bool) \<Rightarrow> worker \<Rightarrow> worker \<Rightarrow> bool" where
  "same_events P wk wk' \<longleftrightarrow>
     (\<forall>tenant mid t r. P r \<longrightarrow> has_event tenant mid t r (qw_log wk') = has_event tenant mid t r (qw_log wk))"

lemma same_events_refl [simp]: "same_events P wk wk"
  by (simp add: same_events_def)

lemma same_events_trans: "same_events P wk wk1 \<Longrightarrow> same_events P wk1 wk2 \<Longrightarrow> same_events P wk wk2"
  by (simp add: same_events_def)

lemma same_events_outbox [simp]:
  "same_events P wk (update_outbox env e wk') = same_events P wk wk'"
  "same_events P wk (delete_outbox env mid wk') = same_events P wk wk'"
  "same_events P wk (wk'\<lparr>qw_patterns := c\<rparr>) = same_events P wk wk'"
  by (simp_all add: same_events_def)

lemma same_events_fold:
  "(\<And>x wk. x \<in> set xs \<Longrightarrow> same_events P wk (f x wk)) \<Longrightarrow> same_events P wk (fold f xs wk)"
proof (induction xs arbitrary: wk)
  case (Cons x xs)
  have "same_events P wk (f x wk)" using Cons.prems by simp
  moreover have "same_events P (f x wk) (fold f xs (f x wk))" using Cons.prems by (intro Cons.IH) simp
  ultimately show ?case by (simp add: same_events_trans [of P wk "f x wk"])
qed simp

definition own_id :: "worker_config \<Rightarrow> outbox_email \<Rightarrow> bool" where
  "own_id cfg e \<longleftrightarrow> ec_internal_id (sc_events (ac_send (wc_admission cfg))) (oe_mail_id e)"

lemma worker_record_same:
  assumes "own_id cfg e" "lower_trim r = r" "r \<noteq> []" "\<not> P r"
  shows "same_events P wk (worker_record cfg env e req t r err wk)"
  using assms by (auto simp: same_events_def worker_record_def own_id_def record_event_has)

lemma suppress_one_same [simp]: "same_events P wk (suppress_one cfg env e err r wk)"
  by (simp add: same_events_def has_event_def)

definition clean :: "string list \<Rightarrow> bool" where
  "clean rs \<longleftrightarrow> (\<forall>r \<in> set rs. lower_trim r = r \<and> r \<noteq> [])"

lemma record_for_each_same:
  "own_id cfg e \<Longrightarrow> clean rs \<Longrightarrow> (\<And>r. r \<in> set rs \<Longrightarrow> \<not> P r) \<Longrightarrow> same_events P wk (record_for_each cfg env e req rs t wk)"
  unfolding record_for_each_def clean_def by (intro same_events_fold worker_record_same) auto

lemma record_recipient_same:
  "own_id cfg e \<Longrightarrow> clean [rf_recipient f] \<Longrightarrow> \<not> P (rf_recipient f) \<Longrightarrow>
   same_events P wk (record_recipient_failure cfg env e req f wk)"
  unfolding record_recipient_failure_def clean_def by (intro worker_record_same) auto

lemma settle_permanent_same:
  assumes "own_id cfg e" "clean [rf_recipient f]" "\<not> P (rf_recipient f)"
  shows "same_events P wk (settle_permanent cfg env e req f wk)"
proof -
  let ?wk = "record_recipient_failure cfg env e req f wk"
  have "same_events P wk ?wk" using assms by (rule record_recipient_same)
  then show ?thesis
    using same_events_trans [OF _ suppress_one_same] by (simp add: settle_permanent_def Let_def)
qed

lemma own_id_update [simp]:
  "own_id cfg (e\<lparr>oe_retry_count := a\<rparr>) = own_id cfg e" "own_id cfg (e\<lparr>oe_updated_at := b\<rparr>) = own_id cfg e"
  "own_id cfg (e\<lparr>oe_last_error := c\<rparr>) = own_id cfg e"
  by (simp_all add: own_id_def)

lemma handle_recipient_failures_same:
  assumes "own_id cfg e" "clean (map rf_recipient fs)" "\<And>f. f \<in> set fs \<Longrightarrow> \<not> P (rf_recipient f)"
  shows "same_events P wk (handle_recipient_failures cfg env e req fs n wk)"
proof -
  have cl: "clean [rf_recipient f]" if "f \<in> set fs" for f using assms(2) that by (simp add: clean_def)
  define e1 where "e1 = e\<lparr>oe_updated_at := we_now env, oe_last_error := error_text (RecipientFailures fs n)\<rparr>"
  define wk1 where "wk1 = fold (settle_permanent cfg env e1 req) (failures_where False fs) wk"
  have s1: "same_events P wk wk1"
    unfolding wk1_def using assms cl
    by (intro same_events_fold settle_permanent_same) (auto simp: failures_where_def e1_def)
  have s2: "same_events P wk (fold (record_recipient_failure cfg env e2 req) (failures_where True fs) (wk1\<lparr>qw_patterns := c\<rparr>))"
    if "own_id cfg e2" for e2 c
  proof (rule same_events_trans [of P wk "wk1\<lparr>qw_patterns := c\<rparr>"])
    show "same_events P wk (wk1\<lparr>qw_patterns := c\<rparr>)" using s1 by simp
    show "same_events P (wk1\<lparr>qw_patterns := c\<rparr>)
        (fold (record_recipient_failure cfg env e2 req) (failures_where True fs) (wk1\<lparr>qw_patterns := c\<rparr>))"
      using that assms(3) cl by (intro same_events_fold record_recipient_same) (auto simp: failures_where_def)
  qed
  have own: "own_id cfg e1" using assms(1) by (simp add: e1_def)
  show ?thesis
    unfolding handle_recipient_failures_def Let_def e1_def [symmetric] wk1_def [symmetric]
    using s1 s2 own by (simp split: prod.split option.split)
qed

lemma finished_recipients_at:
  "finished_recipients True tenant mid (qw_log wk) = Some (finished_at tenant mid (qw_world wk))"
  by (simp add: finished_recipients_def finished_at_def list_by_message_id_def fun_eq_iff)

lemma clean_recipients [simp]: "clean (request_recipients req)"
  using unique_recipients_props(2) by (auto simp: clean_def)

lemma clean_filter: "clean rs \<Longrightarrow> clean (filter P rs)"
  by (auto simp: clean_def)

lemma handle_message_failure_same:
  assumes "own_id cfg e" "we_finished_ok env"
    "\<And>r. P r \<Longrightarrow> finished_at (oe_tenant_id e) (oe_mail_id e) (qw_world wk) r"
  shows "same_events P wk (handle_message_failure cfg env e req err wk)"
proof -
  define e1 where "e1 = e\<lparr>oe_retry_count := oe_retry_count e + 1, oe_updated_at := we_now env, oe_last_error := error_text err\<rparr>"
  define rs where "rs = unfinished_recipients env e1 (request_recipients req) wk"
  have own: "own_id cfg e1" using assms(1) by (simp add: e1_def)
  have rs: "rs = filter (\<lambda>r. \<not> finished_at (oe_tenant_id e) (oe_mail_id e) (qw_world wk) r) (request_recipients req)"
    by (simp add: rs_def unfinished_recipients_def assms(2) finished_recipients_at e1_def)
  have rec: "same_events P wk (record_for_each cfg env e1 req rs t (wk\<lparr>qw_patterns := c\<rparr>))" for t c
  proof (rule same_events_trans [of P wk "wk\<lparr>qw_patterns := c\<rparr>"])
    show "same_events P (wk\<lparr>qw_patterns := c\<rparr>) (record_for_each cfg env e1 req rs t (wk\<lparr>qw_patterns := c\<rparr>))"
      using assms(3) unfolding rs by (intro record_for_each_same [OF own] clean_filter) auto
  qed simp
  have sup: "same_events P wk (fold (suppress_one cfg env e1 x) rs (record_for_each cfg env e1 req rs t (wk\<lparr>qw_patterns := c\<rparr>)))"
    for t c x
    by (rule same_events_trans [OF rec [of t c]]) (intro same_events_fold suppress_one_same)
  show ?thesis
    unfolding handle_message_failure_def Let_def e1_def [symmetric] rs_def [symmetric]
    using rec sup by (simp split: prod.split option.split)
qed

text \<open>The recipients a pass is done with: finished before it, or handed a copy in it.\<close>

definition done_with :: "string \<Rightarrow> string \<Rightarrow> delivery_world \<Rightarrow> delivery_world \<Rightarrow> string \<Rightarrow> bool" where
  "done_with tenant mid w w' r \<longleftrightarrow>
     finished_at tenant mid w r \<or> (\<exists>c \<in> set (drop (length (dw_accepted w)) (dw_accepted w')). is_copy tenant mid r c)"

lemma worker_mode_cases:
  assumes "send_email_worker cfg listed_ps by_id pe tenant req mid w = (res, w')"
  obtains (stopped) e where "res = Inl e" "\<forall>fs n. e \<noteq> RecipientFailures fs n" "events_kept w w'"
      "dw_accepted w' = dw_accepted w"
  | (passed) "do_send (ac_send cfg) pe tenant req mid w = (res, w')"
proof (cases "begin_send cfg listed_ps by_id tenant req")
  case (Inl e)
  then have "\<forall>fs n. e \<noteq> RecipientFailures fs n"
    by (auto simp: begin_send_def split: sum.splits option.splits)
  with Inl assms show ?thesis using stopped by (auto simp: send_email_worker_def)
next
  case (Inr x)
  with assms show ?thesis using passed by (simp add: send_email_worker_def)
qed

lemma finished_at_kept: "events_kept w w' \<Longrightarrow> finished_at tenant mid w r \<Longrightarrow> finished_at tenant mid w' r"
  by (auto simp: finished_at_def finished_iff list_by_message_id_def events_kept_def)

lemma distinct_sub_mset: "mset xs \<subseteq># mset ys \<Longrightarrow> distinct ys \<Longrightarrow> distinct xs"
  by (metis distinct_count_atmost_1 count_mset_0_iff mset_subset_eq_count one_le_numeral le_antisym le_0_eq less_one not_le)

text \<open>The failures of a pass are its recipients that it is not done with.\<close>

lemma failures_not_done:
  assumes "do_send cfg pe tenant req mid w = (Inl (RecipientFailures fs n), w')" "f \<in> set fs"
  shows "\<not> done_with tenant mid w w' (rf_recipient f)" "rf_recipient f \<in> set (request_recipients req)"
  using assms(1)
proof (atomize(full), cases rule: do_send_cases)
  case (stopped e)
  then show "\<not> done_with tenant mid w w' (rf_recipient f) \<and> rf_recipient f \<in> set (request_recipients req)" by auto
next
  case (looped a ps subject w1 live fs' n')
  then have fs: "fs' = fs" by (auto split: if_splits)
  obtain cs where cs: "dw_accepted w' = dw_accepted w1 @ copies_of tenant mid req subject cs"
    "mset (map fst cs) + mset (map rf_recipient fs) \<subseteq># mset live"
    using looped(3) unfolding loop_outcome_def fs by (elim conjE exE) (rule that)
  let ?open = "filter (\<lambda>r. \<not> finished_at tenant mid w r) (request_recipients req)"
  have "mset (map fst cs @ map rf_recipient fs) \<subseteq># mset live" unfolding mset_append by (rule cs(2))
  then have sub: "mset (map fst cs @ map rf_recipient fs) \<subseteq># mset ?open"
    using looped(7) by (rule subset_mset.order_trans)
  have "distinct ?open" by (intro distinct_filter unique_recipients_props(1))
  with sub have dist: "distinct (map fst cs @ map rf_recipient fs)" by (rule distinct_sub_mset)
  have mem: "rf_recipient f \<in> set (map rf_recipient fs)" using assms(2) by simp
  have "rf_recipient f \<in># mset (map fst cs @ map rf_recipient fs)" using mem by simp
  with sub have unf: "rf_recipient f \<in> set ?open" by (metis mset_subset_eqD set_mset_mset)
  have "\<not> is_copy tenant mid (rf_recipient f) c" if "c \<in> set (drop (length (dw_accepted w)) (dw_accepted w'))" for c
  proof -
    have "c \<in> set (copies_of tenant mid req subject cs)" using that cs(1) looped(5) by simp
    then obtain r p where "(r, p) \<in> set cs" "c = (tenant, mid, copy_for req subject r p)" by (auto simp: copies_of_def)
    moreover have "rf_recipient f \<notin> set (map fst cs)" using dist mem by auto
    ultimately show ?thesis by force
  qed
  with unf show "\<not> done_with tenant mid w w' (rf_recipient f) \<and> rf_recipient f \<in> set (request_recipients req)"
    by (auto simp: done_with_def)
qed

text \<open>A pass that holds its lease: what it leaves to settle.\<close>

lemma process_email_held:
  assumes "renew_claim (we_renew_ok env) (oe_mail_id e) (oe_claim_token e) (we_now env + message_lease) (qw_outbox wk) =
      (Inr True, db)" "wc_decode cfg (oe_request e) = Some req"
    "send_email_worker (wc_admission cfg) (we_listed env) (we_by_id env) (we_pass env) (oe_tenant_id e) req
      (oe_mail_id e) (qw_world wk) = (res, w)"
    "keep_lease (oe_mail_id e) (oe_claim_token e) (we_ticks env) db = (lost, db')"
  shows "process_email cfg env e wk =
    (let wk2 = set_outbox db' (set_delivery w (set_outbox db wk))
     in if lost then wk2
        else case res of Inr _ \<Rightarrow> delete_outbox env (oe_mail_id e) wk2 | Inl err \<Rightarrow> handle_failure cfg env e req err wk2)"
  using assms by (simp add: process_email_def Let_def)

lemma handle_failure_same:
  assumes "own_id cfg e" "we_finished_ok env"
    "send_email_worker ac ls bi pe (oe_tenant_id e) req (oe_mail_id e) w0 = (Inl err, qw_world wk)"
  shows "same_events (done_with (oe_tenant_id e) (oe_mail_id e) w0 (qw_world wk)) wk (handle_failure cfg env e req err wk)"
  using assms(3)
proof (cases rule: worker_mode_cases)
  case (stopped e')
  have "finished_at (oe_tenant_id e) (oe_mail_id e) (qw_world wk) r"
    if "done_with (oe_tenant_id e) (oe_mail_id e) w0 (qw_world wk) r" for r
    using that stopped finished_at_kept by (auto simp: done_with_def)
  then have "same_events (done_with (oe_tenant_id e) (oe_mail_id e) w0 (qw_world wk)) wk
      (handle_message_failure cfg env e req err wk)"
    by (rule handle_message_failure_same [OF assms(1,2)])
  with stopped show ?thesis by (auto simp: handle_failure_def reschedule_paced_def split: send_error.split)
next
  case passed
  show ?thesis
  proof (cases "\<exists>fs n. err = RecipientFailures fs n")
    case True
    then obtain fs n where err: "err = RecipientFailures fs n" by blast
    note nd = failures_not_done [OF passed [unfolded err]]
    have "clean (map rf_recipient fs)" using nd(2) clean_recipients [of req] by (auto simp: clean_def)
    with nd(1) assms(1) show ?thesis
      unfolding err handle_failure_def by (simp add: handle_recipient_failures_same)
  next
    case False
    from passed have "events_kept w0 (qw_world wk) \<and> dw_accepted (qw_world wk) = dw_accepted w0"
      by (cases rule: do_send_cases) (use False in \<open>auto split: if_splits\<close>)
    then have "finished_at (oe_tenant_id e) (oe_mail_id e) (qw_world wk) r"
      if "done_with (oe_tenant_id e) (oe_mail_id e) w0 (qw_world wk) r" for r
      using that finished_at_kept by (auto simp: done_with_def)
    then have "same_events (done_with (oe_tenant_id e) (oe_mail_id e) w0 (qw_world wk)) wk
        (handle_message_failure cfg env e req err wk)"
      by (rule handle_message_failure_same [OF assms(1,2)])
    with False show ?thesis by (auto simp: handle_failure_def reschedule_paced_def split: send_error.split)
  qed
qed

text \<open>
  C9. A recipient the message is finished with is left out of every verdict on it: neither one that was
  delivered to or settled by an earlier pass, nor one whose copy a provider took in this pass, has an
  event recorded by the settling of the pass, whatever the failure and however it is classified.
\<close>

theorem verdict_spares_finished:
  assumes "fst (renew_claim (we_renew_ok env) (oe_mail_id e) (oe_claim_token e) (we_now env + message_lease)
      (qw_outbox wk)) = Inr True" "wc_decode cfg (oe_request e) = Some req"
    "send_email_worker (wc_admission cfg) (we_listed env) (we_by_id env) (we_pass env) (oe_tenant_id e) req
      (oe_mail_id e) (qw_world wk) = (res, w)"
    "own_id cfg e" "we_finished_ok env" "done_with (oe_tenant_id e) (oe_mail_id e) (qw_world wk) w r"
  shows "has_event tenant mid t r (qw_log (process_email cfg env e wk)) = has_event tenant mid t r (dw_log w)"
proof -
  obtain db where db: "renew_claim (we_renew_ok env) (oe_mail_id e) (oe_claim_token e) (we_now env + message_lease)
      (qw_outbox wk) = (Inr True, db)" using assms(1) by (metis prod.collapse)
  obtain lost db' where k: "keep_lease (oe_mail_id e) (oe_claim_token e) (we_ticks env) db = (lost, db')"
    by (rule prod.exhaust)
  define wk2 where "wk2 = set_outbox db' (set_delivery w (set_outbox db wk))"
  have w: "qw_world wk2 = w" by (simp add: wk2_def)
  have eq: "process_email cfg env e wk =
      (if lost then wk2
       else case res of Inr _ \<Rightarrow> delete_outbox env (oe_mail_id e) wk2 | Inl err \<Rightarrow> handle_failure cfg env e req err wk2)"
    unfolding process_email_held [OF db assms(2,3) k] wk2_def Let_def ..
  show ?thesis
  proof (cases "lost \<or> (\<exists>m. res = Inr m)")
    case True
    then show ?thesis unfolding eq using w by auto
  next
    case False
    then obtain err where err: "res = Inl err" by (cases res) auto
    have "same_events (done_with (oe_tenant_id e) (oe_mail_id e) (qw_world wk) (qw_world wk2)) wk2
        (handle_failure cfg env e req err wk2)"
      using assms(3) unfolding err w [symmetric] by (rule handle_failure_same [OF assms(4,5)])
    with False err assms(6) show ?thesis unfolding eq by (simp add: same_events_def w)
  qed
qed

section \<open>Instances\<close>

definition sample_worker_config :: worker_config where
  "sample_worker_config = \<lparr>wc_admission = sample_admission, wc_decode = (\<lambda>s. if s = ''letter'' then Some sample_letter else None)\<rparr>"

definition sample_work_env :: work_env where
  "sample_work_env =
     \<lparr>we_now = 20, we_renew_ok = True, we_listed = Some [sample_provider], we_by_id = Inr None,
      we_pass = sample_pass [''b@y.org''], we_ticks = [], we_finished_ok = True, we_tenant_pattern = None,
      we_global_pattern = [], we_event = (\<lambda>r t. sample_record_env), we_sup_ok = (\<lambda>r. True), we_sup_id = (\<lambda>r. ''s9''),
      we_writes = [True]\<rparr>"

definition sample_claimed_row :: outbox_row where
  "sample_claimed_row =
     \<lparr>ob_id = ''m1'', ob_tenant_id = ''t1'', ob_request = ''letter'', ob_status = OutboxStatusSending, ob_retry_count = 0,
      ob_next_retry_at = 0, ob_last_error = [], ob_created_at = 0, ob_updated_at = 0,
      ob_claim_token = Some ''tok'', ob_claimed_until = Some 30\<rparr>"

definition sample_worker :: worker where
  "sample_worker =
     \<lparr>qw_gateway = sample_gateway\<lparr>gw_outbox := \<lparr>db_rows = [sample_claimed_row], db_keys = [], db_wake = False\<rparr>\<rparr>,
      qw_patterns = new_cache retry_pattern_ttl, qw_last_prune = zero_time, qw_retention = 0\<rparr>"

lemma sample_worker_pass:
  "\<exists>w. send_email_worker sample_admission (Some [sample_provider]) (Inr None) (sample_pass [''b@y.org'']) ''t1''
        sample_letter ''m1'' (qw_world sample_worker) =
      (Inl (RecipientFailures [failure_of ''b@y.org'' ''421 try again later''] 1), w) \<and>
     dw_accepted w = [(''t1'', ''m1'', copy_for sample_letter ''Hi'' ''a@y.org'' sample_provider)]"
proof -
  have "check_request sample_admission ''t1'' sample_letter =
      Inr [(''a@y.org'', ''a@y.org''), (''b@y.org'', ''b@y.org''), (''old@x.org'', ''old@x.org'')]"
    by code_simp
  moreover have "rq_provider_id sample_letter = ''p1''" by (simp add: sample_letter_def)
  ultimately have "\<exists>x. begin_send sample_admission (Some [sample_provider]) (Inr None) ''t1'' sample_letter = Inr x"
    by (simp add: begin_send_def sample_admission_parts)
  moreover have "qw_world sample_worker = Delivery_Pass.sample_world" by (simp add: sample_worker_def sample_gateway_def)
  ultimately show ?thesis using sample_first_pass by (auto simp: send_email_worker_def)
qed

theorem verdict_spares_finished_witness:
  "\<exists>w. done_with ''t1'' ''m1'' (qw_world sample_worker) w ''a@y.org'' \<and> length (dw_accepted w) = 1 \<and>
     has_event ''t1'' ''m1'' EventDeferred ''a@y.org''
       (qw_log (process_email sample_worker_config sample_work_env (email_of ''tok'' sample_claimed_row) sample_worker)) =
     has_event ''t1'' ''m1'' EventDeferred ''a@y.org'' (dw_log w)"
proof -
  obtain w where w: "send_email_worker sample_admission (Some [sample_provider]) (Inr None) (sample_pass [''b@y.org''])
      ''t1'' sample_letter ''m1'' (qw_world sample_worker) =
      (Inl (RecipientFailures [failure_of ''b@y.org'' ''421 try again later''] 1), w)"
    "dw_accepted w = [(''t1'', ''m1'', copy_for sample_letter ''Hi'' ''a@y.org'' sample_provider)]"
    using sample_worker_pass by blast
  let ?e = "email_of ''tok'' sample_claimed_row"
  have e: "oe_mail_id ?e = ''m1''" "oe_tenant_id ?e = ''t1''" "oe_request ?e = ''letter''" "oe_claim_token ?e = ''tok''"
    by (simp_all add: email_of_def sample_claimed_row_def)
  have own: "own_id sample_worker_config ?e"
    using sample_pass_facts(5) by (simp add: own_id_def e sample_worker_config_def)
  have env: "we_renew_ok sample_work_env" "we_listed sample_work_env = Some [sample_provider]"
    "we_by_id sample_work_env = Inr None" "we_pass sample_work_env = sample_pass [''b@y.org'']" "we_finished_ok sample_work_env"
    by (simp_all add: sample_work_env_def)
  have cfg: "wc_admission sample_worker_config = sample_admission" "wc_decode sample_worker_config ''letter'' = Some sample_letter"
    by (simp_all add: sample_worker_config_def)
  have ren: "fst (renew_claim (we_renew_ok sample_work_env) (oe_mail_id ?e) (oe_claim_token ?e)
      (we_now sample_work_env + message_lease) (qw_outbox sample_worker)) = Inr True"
    by (simp add: renew_claim_def env email_of_def sample_worker_def renewable_def sample_claimed_row_def affected_def)
  have dn: "done_with ''t1'' ''m1'' (qw_world sample_worker) w ''a@y.org''"
    by (simp add: done_with_def w(2) sample_worker_def sample_gateway_def Delivery_Pass.sample_world_def is_copy_def copy_for_def)
  have "has_event ''t1'' ''m1'' EventDeferred ''a@y.org'' (qw_log (process_email sample_worker_config sample_work_env ?e sample_worker)) =
     has_event ''t1'' ''m1'' EventDeferred ''a@y.org'' (dw_log w)"
    using ren by (rule verdict_spares_finished [where req = sample_letter]) (use own env dn w(1) in \<open>simp_all only: e cfg env\<close>)
  with dn w(2) show ?thesis by auto
qed

end
