(* ===== verification/Worker_Progress.thy ===== *)
theory Worker_Progress
  imports Queue_Worker
begin

text \<open>
  The outbox worker makes progress: a message that is taken up is settled for good after a bounded
  number of passes. The runs are sequences of store operations, by this worker's claims or by anyone
  else, and of passes over claimed messages. A pass works on the row that carries its claim; nobody
  else writes that row while the claim stands, so the row is the copy the claim returned.
\<close>

section \<open>Runs of the worker\<close>

datatype worker_op = WStore outbox_op | WProcess work_env string string

definition claimed_row :: "string \<Rightarrow> string \<Rightarrow> worker \<Rightarrow> outbox_row option" where
  "claimed_row mid tok wk = find_row (\<lambda>r. ob_id r = mid \<and> ob_claim_token r = Some tok) (db_rows (qw_outbox wk))"

primrec worker_step :: "worker_config \<Rightarrow> worker_op \<Rightarrow> worker \<Rightarrow> worker" where
  "worker_step cfg (WStore op) wk = set_outbox (outbox_step op (qw_outbox wk)) wk"
| "worker_step cfg (WProcess env mid tok) wk =
     (case claimed_row mid tok wk of None \<Rightarrow> wk | Some r \<Rightarrow> process_email cfg env (email_of tok r) wk)"

text \<open>The operations of others that do not start a message over: identifiers are fresh, a queued
  message is not written by anyone but its worker, and it is not a held one.\<close>

primrec leaves_count :: "string \<Rightarrow> outbox_op \<Rightarrow> bool" where
  "leaves_count i (OCreate ok e) = (oe_mail_id e \<noteq> i)"
| "leaves_count i (OCreateKeyed kok qok e k ls) = (oe_mail_id e \<noteq> i)"
| "leaves_count i (OClaim ex rd now tok limit lease) = True"
| "leaves_count i (ORenew ok mid tok until) = True"
| "leaves_count i (OUpdate ok e) = (oe_mail_id e \<noteq> i)"
| "leaves_count i (ODelete ok mid) = True"
| "leaves_count i (OPruneTerminal ok before) = True"
| "leaves_count i (OPruneHeld ok before reviews) = True"
| "leaves_count i (OPruneKeys ok before) = True"
| "leaves_count i (ORelease g u hw now tenant mid) = (mid \<noteq> i)"
| "leaves_count i (ODiscard g d tenant mid) = True"

text \<open>A pass that counts: it holds the lease to its end, is not told to wait for the pace, and its
  settling write is carried out.\<close>

definition settles :: "worker_config \<Rightarrow> work_env \<Rightarrow> outbox_email \<Rightarrow> worker \<Rightarrow> bool" where
  "settles cfg env e wk \<longleftrightarrow>
     (case renew_claim (we_renew_ok env) (oe_mail_id e) (oe_claim_token e) (we_now env + message_lease) (qw_outbox wk) of
        (Inr True, db) \<Rightarrow>
          (case wc_decode cfg (oe_request e) of
             None \<Rightarrow> True
           | Some req \<Rightarrow>
               \<not> fst (keep_lease (oe_mail_id e) (oe_claim_token e) (we_ticks env) db) \<and>
               (case fst (send_email_worker (wc_admission cfg) (we_listed env) (we_by_id env) (we_pass env)
                      (oe_tenant_id e) req (oe_mail_id e) (qw_world wk)) of
                  Inl (DeliveryPaced after) \<Rightarrow> False
                | _ \<Rightarrow> True))
      | _ \<Rightarrow> False) \<and>
     True \<in> set (take bookkeeping_attempts (we_writes env))"

definition counts :: "worker_config \<Rightarrow> string \<Rightarrow> worker_op \<Rightarrow> worker \<Rightarrow> bool" where
  "counts cfg mid op wk \<longleftrightarrow>
     (case op of
        WStore _ \<Rightarrow> False
      | WProcess env mid' tok \<Rightarrow>
          mid' = mid \<and> (case claimed_row mid tok wk of None \<Rightarrow> False | Some r \<Rightarrow> settles cfg env (email_of tok r) wk))"

section \<open>The budget of a message\<close>

definition still_open :: "string \<Rightarrow> string \<Rightarrow> send_request \<Rightarrow> delivery_world \<Rightarrow> string list" where
  "still_open tenant mid req w = filter (\<lambda>r. \<not> finished_at tenant mid w r) (request_recipients req)"

definition budget :: "worker_config \<Rightarrow> nat \<Rightarrow> outbox_row \<Rightarrow> delivery_world \<Rightarrow> nat" where
  "budget cfg L r w =
     Suc ((case wc_decode cfg (ob_request r) of
             None \<Rightarrow> 0
           | Some req \<Rightarrow> length (still_open (ob_tenant_id r) (ob_id r) req w)) +
          nat (int L + 1 - ob_retry_count r))"

definition waiting :: "string \<Rightarrow> worker \<Rightarrow> outbox_row option" where
  "waiting mid wk = find_row (\<lambda>r. ob_id r = mid \<and> undelivered r) (db_rows (qw_outbox wk))"

definition passes_left :: "worker_config \<Rightarrow> nat \<Rightarrow> string \<Rightarrow> worker \<Rightarrow> nat" where
  "passes_left cfg L mid wk = (case waiting mid wk of None \<Rightarrow> 0 | Some r \<Rightarrow> budget cfg L r (qw_world wk))"

definition schedules_within :: "nat \<Rightarrow> string list ttl_cache \<Rightarrow> bool" where
  "schedules_within L c \<longleftrightarrow> (\<forall>x \<in> set (tc_entries c). length (fst (snd x)) \<le> L)"

definition fair_env :: "nat \<Rightarrow> string \<Rightarrow> work_env \<Rightarrow> bool" where
  "fair_env L mid env \<longleftrightarrow>
     (case we_tenant_pattern env of None \<Rightarrow> True | Some p \<Rightarrow> length p \<le> L) \<and> length (we_global_pattern env) \<le> L \<and>
     list_all (\<lambda>t. list_all (leaves_count mid) (lt_others t)) (we_ticks env)"

definition fair_op :: "worker_config \<Rightarrow> nat \<Rightarrow> string \<Rightarrow> worker_op \<Rightarrow> bool" where
  "fair_op cfg L mid op \<longleftrightarrow>
     (case op of
        WStore o' \<Rightarrow> leaves_count mid o'
      | WProcess env mid' tok \<Rightarrow>
          fair_env L mid env \<and>
          (mid' = mid \<longrightarrow> delivered_recorded (we_pass env) \<and> ec_internal_id (sc_events (ac_send (wc_admission cfg))) mid))"

definition sound_worker :: "nat \<Rightarrow> worker \<Rightarrow> bool" where
  "sound_worker L wk \<longleftrightarrow> wf_outbox (qw_outbox wk) \<and> schedules_within L (qw_patterns wk) \<and> length default_retry_pattern \<le> L"

section \<open>What the store keeps of a message\<close>

definition same_message :: "outbox_row \<Rightarrow> outbox_row \<Rightarrow> bool" where
  "same_message r r' \<longleftrightarrow>
     ob_id r' = ob_id r \<and> ob_tenant_id r' = ob_tenant_id r \<and> ob_request r' = ob_request r \<and>
     ob_retry_count r' = ob_retry_count r \<and> (undelivered r' \<longrightarrow> undelivered r)"

definition message_kept :: "string \<Rightarrow> outbox_db \<Rightarrow> outbox_db \<Rightarrow> bool" where
  "message_kept mid db db' \<longleftrightarrow>
     (\<forall>r' \<in> set (db_rows db'). ob_id r' = mid \<longrightarrow> (\<exists>r \<in> set (db_rows db). same_message r r'))"

lemma same_message_refl [simp]: "same_message r r"
  by (simp add: same_message_def)

lemma message_kept_rows:
  "(\<And>r. r \<in> set (db_rows db') \<Longrightarrow> ob_id r = mid \<Longrightarrow> r \<in> set (db_rows db)) \<Longrightarrow> message_kept mid db db'"
  unfolding message_kept_def by (metis same_message_refl)

lemma message_kept_refl [simp]: "message_kept mid db db"
  by (rule message_kept_rows)

lemma message_kept_other [simp]:
  "message_kept mid db (db'\<lparr>db_keys := ks\<rparr>) = message_kept mid db db'"
  "message_kept mid db (db'\<lparr>db_wake := b\<rparr>) = message_kept mid db db'"
  by (simp_all add: message_kept_def)

lemma message_kept_trans: "message_kept mid db db1 \<Longrightarrow> message_kept mid db1 db2 \<Longrightarrow> message_kept mid db db2"
  unfolding message_kept_def same_message_def by (metis (no_types, lifting))

lemma message_kept_updated:
  assumes "\<And>r. r \<in> set (db_rows db) \<Longrightarrow> p r \<Longrightarrow> ob_id r = mid \<Longrightarrow> same_message r (f r)" "\<And>r. ob_id (f r) = ob_id r"
  shows "message_kept mid db (db\<lparr>db_rows := update_where p f (db_rows db)\<rparr>)"
  unfolding message_kept_def
proof (intro ballI impI)
  fix r' assume r': "r' \<in> set (db_rows (db\<lparr>db_rows := update_where p f (db_rows db)\<rparr>))" "ob_id r' = mid"
  then obtain r where r: "r \<in> set (db_rows db)" "r' = (if p r then f r else r)" by (auto simp: set_update_where)
  with r'(2) assms have "same_message r r'" by (cases "p r") auto
  with r(1) show "\<exists>r \<in> set (db_rows db). same_message r r'" by blast
qed

lemma message_kept_deleted: "message_kept mid db (db\<lparr>db_rows := delete_where p (db_rows db)\<rparr>)"
  by (rule message_kept_rows) (simp add: in_delete_where)

lemma message_kept_claim:
  assumes "wf_outbox db"
  shows "message_kept mid db (snd (claim_pending ex rd now tok limit lease db))"
proof -
  have "undelivered r" if r: "r \<in> set (db_rows db)" "ob_id r \<in> set (claim_batch now limit (db_rows db))" for r
  proof -
    obtain x where x: "x \<in> set (db_rows db)" "ob_id x = ob_id r" "claimable now x" using claim_batch_row r(2) by blast
    then have "x = r" using assms r(1) same_id_same_row [of ob_id "db_rows db" x r] by (simp add: wf_outbox_def)
    with x(3) show ?thesis by (auto simp: claimable_def undelivered_def)
  qed
  then have "message_kept mid db (db\<lparr>db_rows := claim_rows limit now tok (now + lease) (db_rows db)\<rparr>)"
    unfolding claim_rows_def by (intro message_kept_updated) (auto simp: same_message_def take_claim_def)
  then show ?thesis by (cases ex) (simp_all add: message_kept_def [of _ _ "snd _"] message_kept_def [of _ _ "db\<lparr>db_rows := _\<rparr>"]
    rows_claim message_kept_rows [unfolded message_kept_def])
qed

lemma message_kept_renew: "message_kept mid db (snd (renew_claim ok i tok until db))"
  unfolding renew_claim_def
  by (auto intro!: message_kept_updated simp: same_message_def undelivered_def)

lemma message_kept_step:
  assumes "wf_outbox db" "leaves_count mid op"
  shows "message_kept mid db (outbox_step op db)"
proof (cases op)
  case (OCreate ok e)
  with assms(2) show ?thesis
    by (auto simp: outbox_create_def committed_def row_of_def split: sum.split dest!: rows_create intro!: message_kept_rows)
next
  case (OCreateKeyed kok qok e k ls)
  with assms(2) show ?thesis
    by (auto simp: committed_def row_of_def split: sum.split dest!: rows_keyed intro!: message_kept_rows)
next
  case (OUpdate ok e)
  with assms(2) show ?thesis by (auto simp: outbox_update_def intro!: message_kept_updated)
next
  case (ORelease g u hw now tenant i)
  have "message_kept mid db (snd (outbox_update u (x\<lparr>oe_status := s, oe_next_retry_at := now, oe_updated_at := now\<rparr>) db))"
    if "get_by_id g i db = Inr (Some x)" for x s
    using get_by_id_Some [OF that] assms(2) ORelease
    by (auto simp: outbox_update_def email_of_def intro!: message_kept_updated)
  then have upd: "message_kept mid db (d\<lparr>db_wake := b\<rparr>)" "message_kept mid db d"
    if "get_by_id g i db = Inr (Some x)"
      "outbox_update u (x\<lparr>oe_status := OutboxStatusPending, oe_next_retry_at := now, oe_updated_at := now\<rparr>) db = (res, d)"
    for x res d b
    using that(1) that(2) [THEN arg_cong, of snd] by (auto simp: message_kept_def)
  show ?thesis
    using ORelease upd by (simp add: release_held_def split: sum.split option.split prod.split)
next
  case (ODiscard g d tenant i)
  then show ?thesis
    by (auto simp: discard_held_def outbox_delete_def message_kept_deleted split: sum.split option.split)
qed (use assms in \<open>auto simp: message_kept_claim message_kept_renew outbox_delete_def outbox_prune_terminal_def
    outbox_prune_held_def prune_idempotency_keys_def message_kept_deleted Let_def\<close>)

lemma message_kept_run:
  "wf_outbox db \<Longrightarrow> list_all (leaves_count mid) ops \<Longrightarrow>
   wf_outbox (run outbox_step ops db) \<and> message_kept mid db (run outbox_step ops db)"
proof (induction ops arbitrary: db)
  case (Cons op ops)
  then have "wf_outbox (outbox_step op db)" "message_kept mid db (outbox_step op db)"
    by (simp_all add: wf_outbox_step message_kept_step)
  with Cons message_kept_trans show ?case by fastforce
qed simp

lemma wf_renew: "wf_outbox db \<Longrightarrow> wf_outbox (snd (renew_claim ok i tok until db))"
  using wf_outbox_step [of db "ORenew ok i tok until"] by simp

lemma message_kept_lease:
  "wf_outbox db \<Longrightarrow> list_all (\<lambda>t. list_all (leaves_count mid) (lt_others t)) ts \<Longrightarrow>
   wf_outbox (snd (keep_lease i tok ts db)) \<and> message_kept mid db (snd (keep_lease i tok ts db))"
proof (induction ts arbitrary: db)
  case (Cons t ts)
  define db1 where "db1 = run outbox_step (lt_others t) db"
  obtain res db2 where r: "renew_claim (lt_ok t) i tok (lt_now t + message_lease) db1 = (res, db2)" by (rule prod.exhaust)
  have 1: "wf_outbox db1" "message_kept mid db db1"
    using message_kept_run [of db mid "lt_others t"] Cons.prems by (simp_all add: db1_def)
  have 2: "wf_outbox db2" "message_kept mid db db2"
    using wf_renew [OF 1(1)] message_kept_trans [OF 1(2) message_kept_renew] r by (metis snd_conv)+
  have "wf_outbox (snd (keep_lease i tok ts db2)) \<and> message_kept mid db2 (snd (keep_lease i tok ts db2))"
    using Cons.prems(2) by (intro Cons.IH 2(1)) simp
  with 2 message_kept_trans [OF 2(2)] show ?case
    by (auto simp: db1_def [symmetric] r split: sum.split bool.split)
qed simp

section \<open>Settling writes\<close>

lemma bookkeep_update:
  "snd (bookkeep (\<lambda>ok. outbox_update ok e) oks db) =
     (if True \<in> set (take bookkeeping_attempts oks) then snd (outbox_update True e db) else db)"
proof -
  have "snd (bookkeep_tries n (\<lambda>ok. outbox_update ok e) oks db) =
     (if True \<in> set (take n oks) then snd (outbox_update True e db) else db)" for n
    by (induction n arbitrary: oks) (auto simp: outbox_update_def take_Suc split: list.split)
  then show ?thesis by (simp add: bookkeep_def)
qed

lemma bookkeep_delete:
  "snd (bookkeep (\<lambda>ok. outbox_delete ok mid) oks db) =
     (if True \<in> set (take bookkeeping_attempts oks) then snd (outbox_delete True mid db) else db)"
proof -
  have "snd (bookkeep_tries n (\<lambda>ok. outbox_delete ok mid) oks db) =
     (if True \<in> set (take n oks) then snd (outbox_delete True mid db) else db)" for n
    by (induction n arbitrary: oks) (auto simp: outbox_delete_def take_Suc split: list.split)
  then show ?thesis by (simp add: bookkeep_def)
qed

lemma settled_outbox:
  "qw_outbox (update_outbox env e wk) =
     (if True \<in> set (take bookkeeping_attempts (we_writes env)) then snd (outbox_update True e (qw_outbox wk)) else qw_outbox wk)"
  "qw_outbox (delete_outbox env mid wk) =
     (if True \<in> set (take bookkeeping_attempts (we_writes env)) then snd (outbox_delete True mid (qw_outbox wk)) else qw_outbox wk)"
  by (simp_all add: update_outbox_def delete_outbox_def bookkeep_update bookkeep_delete)

lemma wf_settled:
  "wf_outbox (qw_outbox wk) \<Longrightarrow> wf_outbox (qw_outbox (update_outbox env e wk))"
  "wf_outbox (qw_outbox wk) \<Longrightarrow> wf_outbox (qw_outbox (delete_outbox env mid wk))"
  using wf_outbox_step [of "qw_outbox wk" "ODelete True mid"]
  by (simp_all add: settled_outbox wf_outbox_update)

lemma message_kept_settled:
  "oe_mail_id e \<noteq> i \<Longrightarrow> message_kept i (qw_outbox wk) (qw_outbox (update_outbox env e wk))"
  "message_kept i (qw_outbox wk) (qw_outbox (delete_outbox env mid wk))"
  by (auto simp: settled_outbox outbox_update_def outbox_delete_def message_kept_deleted intro!: message_kept_updated)

section \<open>What settling a failure does\<close>

lemma update_entries: "x \<in> set (AList.update k v al) \<Longrightarrow> x = (k, v) \<or> x \<in> set al"
  by (induction al) (auto split: if_splits)

lemma schedules_put: "schedules_within L c \<Longrightarrow> length p \<le> L \<Longrightarrow> schedules_within L (cache_put now k p c)"
  by (auto simp: schedules_within_def cache_put_def evict_expired_def Let_def dest!: update_entries)

lemma schedules_get:
  assumes "schedules_within L c" "cache_get now k c = (v, c')"
  shows "schedules_within L c'" "v = Some p \<Longrightarrow> length p \<le> L"
  using assms
  by (auto simp: schedules_within_def cache_get_def AList.delete_eq split: option.splits if_splits prod.splits dest!: map_of_SomeD)

lemma get_retry_pattern_within:
  assumes "schedules_within L c" "fair_env L mid env" "length default_retry_pattern \<le> L"
    "get_retry_pattern env tenant c = (p, c')"
  shows "length p \<le> L" "schedules_within L c'"
proof -
  obtain v c1 where g: "cache_get (we_now env) tenant c = (v, c1)" by (rule prod.exhaust)
  note sg = schedules_get [OF assms(1) g]
  have "length (global_pattern (we_global_pattern env)) \<le> L" using assms(2,3) by (simp add: global_pattern_def fair_env_def)
  with assms(2,4) sg have "length p \<le> L \<and> schedules_within L c'"
    by (auto simp: get_retry_pattern_def g fair_env_def schedules_put Let_def split: option.splits if_splits)
  then show "length p \<le> L" "schedules_within L c'" by simp_all
qed

lemma next_retry_within: "next_retry_delay b n p = Some d \<Longrightarrow> n \<le> int (length p)"
  by (auto simp: next_retry_delay_def split: if_splits)

text \<open>How much of the schedule a failure uses up.\<close>

definition retry_cost :: "send_error \<Rightarrow> int" where
  "retry_cost err = (case err of DeliveryPaced _ \<Rightarrow> 0 | RecipientFailures fs n \<Rightarrow> if n > 0 then 0 else 1 | _ \<Rightarrow> 1)"

text \<open>The pass only adds events, keeps the schedules and leaves the outbox to the settling write.\<close>

definition noted :: "nat \<Rightarrow> worker \<Rightarrow> worker \<Rightarrow> bool" where
  "noted L wk wk' \<longleftrightarrow> qw_outbox wk' = qw_outbox wk \<and> events_kept (qw_world wk) (qw_world wk') \<and>
     (schedules_within L (qw_patterns wk) \<longrightarrow> schedules_within L (qw_patterns wk'))"

lemma noted_refl [simp]: "noted L wk wk"
  by (simp add: noted_def)

lemma noted_trans: "noted L wk wk1 \<Longrightarrow> noted L wk1 wk2 \<Longrightarrow> noted L wk wk2"
  using events_kept_trans unfolding noted_def by fastforce

lemma noted_fold: "(\<And>x wk. noted L wk (f x wk)) \<Longrightarrow> noted L wk (fold f xs wk)"
proof (induction xs arbitrary: wk)
  case (Cons x xs)
  then show ?case using noted_trans [of L wk "f x wk"] by simp
qed simp

lemma noted_record [simp]: "noted L wk (worker_record cfg env e req t r err wk)"
  by (simp add: noted_def worker_record_def events_kept_def record_event_grows)

lemma noted_suppress [simp]: "noted L wk (suppress_one cfg env e err r wk)"
  by (simp add: noted_def suppress_one_def events_kept_def)

lemma noted_patterns [simp]: "schedules_within L c \<Longrightarrow> noted L wk (wk\<lparr>qw_patterns := c\<rparr>)"
  by (simp add: noted_def)

lemma noted_failure [simp]: "noted L wk (record_recipient_failure cfg env e req f wk)"
  by (simp add: record_recipient_failure_def)

lemma noted_permanent [simp]: "noted L wk (settle_permanent cfg env e req f wk)"
  unfolding settle_permanent_def Let_def using noted_trans [OF noted_failure noted_suppress] by simp

lemma noted_for_each [simp]: "noted L wk (record_for_each cfg env e req rs t wk)"
  by (simp add: record_for_each_def noted_fold)

definition settled_as :: "nat \<Rightarrow> work_env \<Rightarrow> outbox_email \<Rightarrow> int \<Rightarrow> worker \<Rightarrow> worker \<Rightarrow> bool" where
  "settled_as L env e cost wk wk' \<longleftrightarrow>
     (\<exists>wk1. noted L wk wk1 \<and>
        (wk' = delete_outbox env (oe_mail_id e) wk1 \<or>
         (\<exists>e'. wk' = update_outbox env e' wk1 \<and> oe_mail_id e' = oe_mail_id e \<and>
            (oe_status e' = OutboxStatusFailed \<or>
             oe_status e' = OutboxStatusDeferred \<and> oe_retry_count e' = oe_retry_count e + cost \<and>
               (cost = 1 \<longrightarrow> oe_retry_count e' \<le> int L)))))"

lemma settled_deleted: "noted L wk wk1 \<Longrightarrow> settled_as L env e cost wk (delete_outbox env (oe_mail_id e) wk1)"
  by (auto simp: settled_as_def)

lemma settled_failed:
  "noted L wk wk1 \<Longrightarrow> oe_mail_id e' = oe_mail_id e \<Longrightarrow> oe_status e' = OutboxStatusFailed \<Longrightarrow>
   settled_as L env e cost wk (update_outbox env e' wk1)"
  by (auto simp: settled_as_def)

lemma settled_deferred:
  "noted L wk wk1 \<Longrightarrow> oe_mail_id e' = oe_mail_id e \<Longrightarrow> oe_status e' = OutboxStatusDeferred \<Longrightarrow>
   oe_retry_count e' = oe_retry_count e + cost \<Longrightarrow> (cost = 1 \<Longrightarrow> oe_retry_count e' \<le> int L) \<Longrightarrow>
   settled_as L env e cost wk (update_outbox env e' wk1)"
  unfolding settled_as_def by (rule exI [of _ wk1], intro conjI disjI2 exI [of _ e']) simp_all

lemma handle_message_failure_settles:
  assumes "schedules_within L (qw_patterns wk)" "fair_env L mid env" "length default_retry_pattern \<le> L"
  shows "settled_as L env e 1 wk (handle_message_failure cfg env e req err wk)"
proof -
  define e1 where "e1 = e\<lparr>oe_retry_count := oe_retry_count e + 1, oe_updated_at := we_now env, oe_last_error := error_text err\<rparr>"
  define rs where "rs = unfinished_recipients env e1 (request_recipients req) wk"
  obtain p c where pc: "get_retry_pattern env (oe_tenant_id e1) (qw_patterns wk) = (p, c)" by (rule prod.exhaust)
  note within = get_retry_pattern_within [OF assms pc]
  have rec: "noted L wk (record_for_each cfg env e1 req rs t (wk\<lparr>qw_patterns := c\<rparr>))" for t
    by (rule noted_trans [OF noted_patterns [OF within(2)] noted_for_each])
  have sup: "noted L wk (fold (suppress_one cfg env e1 x) rs (record_for_each cfg env e1 req rs t (wk\<lparr>qw_patterns := c\<rparr>)))" for x t
    by (rule noted_trans [OF rec [of t]]) (simp add: noted_fold)
  have e1: "oe_mail_id e1 = oe_mail_id e" "oe_retry_count e1 = oe_retry_count e + 1" by (simp_all add: e1_def)
  show ?thesis
  proof (cases "next_retry_delay (cl_retryable (message_verdict err)) (oe_retry_count e1) p")
    case None
    then show ?thesis
      unfolding handle_message_failure_def Let_def e1_def [symmetric] rs_def [symmetric] pc
      using rec sup by (simp add: settled_failed e1)
  next
    case (Some d)
    have "oe_retry_count e1 \<le> int L" using next_retry_within [OF Some] within(1) by linarith
    with Some show ?thesis
      unfolding handle_message_failure_def Let_def e1_def [symmetric] rs_def [symmetric] pc
      using rec by (simp add: settled_deferred e1)
  qed
qed

lemma handle_recipient_failures_settles:
  assumes "schedules_within L (qw_patterns wk)" "fair_env L mid env" "length default_retry_pattern \<le> L"
  shows "settled_as L env e (if n > 0 then 0 else 1) wk (handle_recipient_failures cfg env e req fs n wk)"
proof -
  define e1 where "e1 = e\<lparr>oe_updated_at := we_now env, oe_last_error := error_text (RecipientFailures fs n)\<rparr>"
  define wk1 where "wk1 = fold (settle_permanent cfg env e1 req) (failures_where False fs) wk"
  define e2 where "e2 = (if n = 0 then e1\<lparr>oe_retry_count := oe_retry_count e1 + 1\<rparr> else e1)"
  have n1: "noted L wk wk1" by (simp add: wk1_def noted_fold)
  obtain p c where pc: "get_retry_pattern env (oe_tenant_id e2) (qw_patterns wk1) = (p, c)" by (rule prod.exhaust)
  have sw: "schedules_within L (qw_patterns wk1)" using n1 assms(1) by (simp add: noted_def)
  note within = get_retry_pattern_within [OF sw assms(2,3) pc]
  have n2: "noted L wk (wk1\<lparr>qw_patterns := c\<rparr>)" by (rule noted_trans [OF n1 noted_patterns [OF within(2)]])
  have n3: "noted L wk (fold (record_recipient_failure cfg env e2 req) (failures_where True fs) (wk1\<lparr>qw_patterns := c\<rparr>))"
    by (rule noted_trans [OF n2]) (simp add: noted_fold)
  have e1: "oe_mail_id e1 = oe_mail_id e" by (simp add: e1_def)
  have e2: "oe_mail_id e2 = oe_mail_id e" "oe_retry_count e2 = oe_retry_count e + (if n > 0 then 0 else 1)"
    by (simp_all add: e1_def e2_def)
  show ?thesis
  proof (cases "failures_where True fs = []")
    case True
    then show ?thesis
      unfolding handle_recipient_failures_def Let_def e1_def [symmetric] wk1_def [symmetric]
      using n1 settled_deleted [OF n1, of env e] by (simp add: settled_failed e1)
  next
    case False
    let ?d = "next_retry_delay (cl_retryable (rf_class (hd (failures_where True fs)))) (max (oe_retry_count e2) 1) p"
    have le: "oe_retry_count e2 \<le> int L" if "?d = Some d" for d using next_retry_within [OF that] within(1) by linarith
    show ?thesis
    proof (cases ?d)
      case None
      with False show ?thesis
        unfolding handle_recipient_failures_def Let_def e1_def [symmetric] wk1_def [symmetric] e2_def [symmetric] pc
        using n3 by (simp add: settled_failed e2)
    next
      case (Some d)
      with False show ?thesis
        unfolding handle_recipient_failures_def Let_def e1_def [symmetric] wk1_def [symmetric] e2_def [symmetric] pc
        using settled_deferred [OF n2, of "e2\<lparr>oe_status := OutboxStatusDeferred, oe_next_retry_at := we_now env + d\<rparr>" e] le [OF Some] e2
        by simp
    qed
  qed
qed

lemma handle_failure_settles:
  assumes "schedules_within L (qw_patterns wk)" "fair_env L mid env" "length default_retry_pattern \<le> L"
  shows "settled_as L env e (retry_cost err) wk (handle_failure cfg env e req err wk)"
  using handle_message_failure_settles [OF assms] handle_recipient_failures_settles [OF assms]
  by (cases err) (auto simp: handle_failure_def retry_cost_def reschedule_paced_def intro!: settled_deferred)

section \<open>What a pass leaves open\<close>

lemma still_open_kept: "events_kept w w' \<Longrightarrow> set (still_open tenant mid req w') \<subseteq> set (still_open tenant mid req w)"
  using finished_at_kept by (auto simp: still_open_def)

lemma still_open_length: "length (still_open tenant mid req w) = card (set (still_open tenant mid req w))"
  unfolding still_open_def by (intro distinct_card [symmetric] distinct_filter unique_recipients_props(1))

lemma still_open_mono: "events_kept w w' \<Longrightarrow> length (still_open tenant mid req w') \<le> length (still_open tenant mid req w)"
  unfolding still_open_length by (intro card_mono still_open_kept) simp_all

lemma worker_events_kept:
  assumes "send_email_worker cfg ls bi pe tenant req mid w = (res, w')"
  shows "events_kept w w'"
  using assms
proof (cases rule: worker_mode_cases)
  case passed
  then show ?thesis
    by (cases rule: do_send_cases) (auto simp: loop_outcome_def intro: events_kept_trans)
qed

lemma delivery_closes:
  assumes "send_email_worker cfg ls bi pe tenant req mid w = (Inl (RecipientFailures fs n), w')" "0 < n"
    "delivered_recorded pe" "ec_internal_id (sc_events (ac_send cfg)) mid"
  shows "length (still_open tenant mid req w') < length (still_open tenant mid req w)"
proof -
  have "do_send (ac_send cfg) pe tenant req mid w = (Inl (RecipientFailures fs n), w')"
    using assms(1) by (cases rule: worker_mode_cases) auto
  then obtain ps subject w1 live fs' where l: "loop_outcome (ac_send cfg) pe tenant req mid subject ps live w1 fs' n w'"
      "mset live \<subseteq># mset (filter (\<lambda>r. \<not> finished_at tenant mid w r) (request_recipients req))"
    by (cases rule: do_send_cases) (auto split: if_splits)
  have "\<exists>cs :: (string \<times> email_provider) list. n = length cs \<and> mset (map fst cs) + mset (map rf_recipient fs') \<subseteq># mset live \<and>
      (ec_internal_id (sc_events (ac_send cfg)) mid \<and> delivered_recorded pe \<longrightarrow>
        (\<forall>r \<in> fst ` set cs. has_event tenant mid EventDelivered r (dw_log w')))"
    using l(1) unfolding loop_outcome_def by (elim conjE exE) (intro exI conjI, assumption+)
  then obtain cs :: "(string \<times> email_provider) list" where cs: "n = length cs" "mset (map fst cs) + mset (map rf_recipient fs') \<subseteq># mset live"
    "\<forall>r \<in> fst ` set cs. has_event tenant mid EventDelivered r (dw_log w')"
    using assms(3,4) by blast
  from cs(1) assms(2) obtain r p where rp: "(r, p) \<in> set cs" by (cases cs) auto
  have "r \<in># mset (map fst cs) + mset (map rf_recipient fs')" using rp by force
  then have "r \<in># mset live" using cs(2) by (rule mset_subset_eqD [rotated])
  then have "r \<in># mset (still_open tenant mid req w)" unfolding still_open_def using l(2) by (rule mset_subset_eqD [rotated])
  then have "r \<in> set (still_open tenant mid req w)" by simp
  moreover have "r \<notin> set (still_open tenant mid req w')"
    using cs(3) rp finished_if_delivered unfolding still_open_def by force
  ultimately have "set (still_open tenant mid req w') \<subset> set (still_open tenant mid req w)"
    using still_open_kept [OF worker_events_kept [OF assms(1)], of tenant mid req] by blast
  then show ?thesis unfolding still_open_length by (intro psubset_card_mono) simp_all
qed

section \<open>The budget over a step\<close>

lemma passes_left_at:
  assumes "wf_outbox (qw_outbox wk)" "r \<in> set (db_rows (qw_outbox wk))" "ob_id r = mid" "undelivered r"
  shows "passes_left cfg L mid wk = budget cfg L r (qw_world wk)"
  using find_row_unique [of ob_id "db_rows (qw_outbox wk)" r "\<lambda>r. ob_id r = mid \<and> undelivered r"] assms
  by (simp add: passes_left_def waiting_def wf_outbox_def)

lemma passes_left_le:
  assumes "\<And>r. r \<in> set (db_rows (qw_outbox wk)) \<Longrightarrow> ob_id r = mid \<Longrightarrow> undelivered r \<Longrightarrow> budget cfg L r (qw_world wk) \<le> n"
  shows "passes_left cfg L mid wk \<le> n"
  using assms by (auto simp: passes_left_def waiting_def split: option.split dest!: find_row_Some)

lemma budget_mono:
  assumes "events_kept w w'" "ob_id r' = ob_id r" "ob_tenant_id r' = ob_tenant_id r" "ob_request r' = ob_request r"
    "ob_retry_count r \<le> ob_retry_count r'"
  shows "budget cfg L r' w' \<le> budget cfg L r w"
  using assms(5) still_open_mono [OF assms(1), of "ob_tenant_id r" "ob_id r"]
  by (auto simp: budget_def assms(2-4) intro!: add_mono split: option.split)

lemma passes_left_kept:
  assumes "wf_outbox (qw_outbox wk)" "message_kept mid (qw_outbox wk) (qw_outbox wk')"
    "events_kept (qw_world wk) (qw_world wk')"
  shows "passes_left cfg L mid wk' \<le> passes_left cfg L mid wk"
proof (rule passes_left_le)
  fix r' assume r': "r' \<in> set (db_rows (qw_outbox wk'))" "ob_id r' = mid" "undelivered r'"
  with assms(2) obtain r where r: "r \<in> set (db_rows (qw_outbox wk))" "same_message r r'" by (auto simp: message_kept_def)
  with r' have "ob_id r = mid" "undelivered r" by (simp_all add: same_message_def)
  with r(1) assms(1) have "passes_left cfg L mid wk = budget cfg L r (qw_world wk)" by (simp add: passes_left_at)
  with r(2) assms(3) show "budget cfg L r' (qw_world wk') \<le> passes_left cfg L mid wk"
    by (simp add: budget_mono same_message_def)
qed

text \<open>A settled message: deleted, failed, or deferred with what is left of its budget.\<close>

lemma settled_as_facts:
  assumes "settled_as L env e cost wk wk'"
  shows "events_kept (qw_world wk) (qw_world wk')"
    "schedules_within L (qw_patterns wk) \<Longrightarrow> schedules_within L (qw_patterns wk')"
    "wf_outbox (qw_outbox wk) \<Longrightarrow> wf_outbox (qw_outbox wk')"
    "oe_mail_id e \<noteq> i \<Longrightarrow> message_kept i (qw_outbox wk) (qw_outbox wk')"
proof -
  from assms obtain wk1 e' where 1: "noted L wk wk1" "oe_mail_id e' = oe_mail_id e"
    "wk' = delete_outbox env (oe_mail_id e) wk1 \<or> wk' = update_outbox env e' wk1"
    by (auto simp: settled_as_def)
  then show "events_kept (qw_world wk) (qw_world wk')"
    "schedules_within L (qw_patterns wk) \<Longrightarrow> schedules_within L (qw_patterns wk')"
    "wf_outbox (qw_outbox wk) \<Longrightarrow> wf_outbox (qw_outbox wk')"
    by (auto simp: noted_def wf_settled)
  have same: "qw_outbox wk1 = qw_outbox wk" using 1(1) by (simp add: noted_def)
  show "oe_mail_id e \<noteq> i \<Longrightarrow> message_kept i (qw_outbox wk) (qw_outbox wk')"
    using 1(2,3) message_kept_settled(1) [of e' i wk1 env] message_kept_settled(2) [of i wk1 env "oe_mail_id e"]
    by (auto simp: same)
qed

lemma settled_as_row:
  assumes "settled_as L env e cost wk wk'" "r' \<in> set (db_rows (qw_outbox wk'))" "ob_id r' = oe_mail_id e" "undelivered r'"
  obtains (unwritten) "r' \<in> set (db_rows (qw_outbox wk))" "True \<notin> set (take bookkeeping_attempts (we_writes env))"
  | (deferred) r where "r \<in> set (db_rows (qw_outbox wk))" "ob_id r' = ob_id r" "ob_tenant_id r' = ob_tenant_id r"
      "ob_request r' = ob_request r" "ob_retry_count r' = oe_retry_count e + cost"
      "cost = 1 \<longrightarrow> ob_retry_count r' \<le> int L"
proof -
  from assms(1) obtain wk1 where 1: "noted L wk wk1" and 2: "wk' = delete_outbox env (oe_mail_id e) wk1 \<or>
      (\<exists>e'. wk' = update_outbox env e' wk1 \<and> oe_mail_id e' = oe_mail_id e \<and>
            (oe_status e' = OutboxStatusFailed \<or>
             oe_status e' = OutboxStatusDeferred \<and> oe_retry_count e' = oe_retry_count e + cost \<and>
               (cost = 1 \<longrightarrow> oe_retry_count e' \<le> int L)))"
    by (auto simp: settled_as_def)
  have same: "qw_outbox wk1 = qw_outbox wk" using 1 by (simp add: noted_def)
  show ?thesis
  proof (cases "True \<in> set (take bookkeeping_attempts (we_writes env))")
    case False
    then have "qw_outbox wk' = qw_outbox wk" using 2 by (auto simp: settled_outbox same)
    with False assms(2) show ?thesis using unwritten by simp
  next
    case True
    from 2 show ?thesis
    proof (elim disjE exE conjE)
      assume "wk' = delete_outbox env (oe_mail_id e) wk1"
      with True assms(2,3) have False by (simp add: settled_outbox outbox_delete_def in_delete_where)
      then show ?thesis ..
    next
      fix e' assume e': "wk' = update_outbox env e' wk1" "oe_mail_id e' = oe_mail_id e" "oe_status e' = OutboxStatusFailed"
      with True assms(2,3) obtain r where "r' = settle_row e' r"
        by (auto simp: settled_outbox outbox_update_def set_update_where split: if_splits)
      with e'(3) assms(4) have False by (simp add: settle_row_def undelivered_def)
      then show ?thesis ..
    next
      fix e' assume e': "wk' = update_outbox env e' wk1" "oe_mail_id e' = oe_mail_id e"
        "oe_retry_count e' = oe_retry_count e + cost" "cost = 1 \<longrightarrow> oe_retry_count e' \<le> int L"
      with True assms(2,3) obtain r where r: "r \<in> set (db_rows (qw_outbox wk))" "r' = settle_row e' r"
        by (auto simp: settled_outbox outbox_update_def set_update_where same split: if_splits)
      with e'(3,4) show ?thesis using deferred [OF r(1)] by (simp add: settle_row_def)
    qed
  qed
qed

lemma deferred_budget:
  assumes "send_email_worker (wc_admission cfg) ls bi pe (ob_tenant_id r) req (ob_id r) w = (Inl err, w1)" "events_kept w1 w'"
    "ob_id r' = ob_id r" "ob_tenant_id r' = ob_tenant_id r" "ob_request r' = ob_request r"
    "wc_decode cfg (ob_request r) = Some req"
    "ob_retry_count r' = ob_retry_count r + retry_cost err" "retry_cost err = 1 \<longrightarrow> ob_retry_count r' \<le> int L"
    "delivered_recorded pe" "ec_internal_id (sc_events (ac_send (wc_admission cfg))) (ob_id r)"
  shows "budget cfg L r' w' \<le> budget cfg L r w"
    and "(\<forall>a. err \<noteq> DeliveryPaced a) \<Longrightarrow> budget cfg L r' w' < budget cfg L r w"
proof -
  let ?open = "\<lambda>w. length (still_open (ob_tenant_id r) (ob_id r) req w)"
  have kept: "?open w1 \<le> ?open w" "?open w' \<le> ?open w1"
    using still_open_mono worker_events_kept [OF assms(1)] assms(2) by blast+
  have b: "budget cfg L r w = Suc (?open w + nat (int L + 1 - ob_retry_count r))"
    "budget cfg L r' w' = Suc (?open w' + nat (int L + 1 - (ob_retry_count r + retry_cost err)))"
    by (simp_all add: budget_def assms(3-7))
  have cost: "retry_cost err = 0 \<or> retry_cost err = 1" by (simp add: retry_cost_def split: send_error.split)
  then show "budget cfg L r' w' \<le> budget cfg L r w" unfolding b using kept by auto
  assume np: "\<forall>a. err \<noteq> DeliveryPaced a"
  show "budget cfg L r' w' < budget cfg L r w"
  proof (cases "retry_cost err = 1")
    case True
    with assms(7,8) kept show ?thesis unfolding b by simp
  next
    case False
    with np obtain fs n where "err = RecipientFailures fs n" "0 < n"
      by (cases err) (auto simp: retry_cost_def split: if_splits)
    then have "?open w1 < ?open w" using delivery_closes assms(1,9,10) by blast
    with kept(2) cost False show ?thesis unfolding b by simp
  qed
qed

lemma process_email_cases:
  obtains (unheld) res db where
      "renew_claim (we_renew_ok env) (oe_mail_id e) (oe_claim_token e) (we_now env + message_lease) (qw_outbox wk) = (res, db)"
      "res \<noteq> Inr True" "process_email cfg env e wk = set_outbox db wk"
  | (undecodable) db where
      "renew_claim (we_renew_ok env) (oe_mail_id e) (oe_claim_token e) (we_now env + message_lease) (qw_outbox wk) = (Inr True, db)"
      "wc_decode cfg (oe_request e) = None"
      "process_email cfg env e wk = delete_outbox env (oe_mail_id e) (set_outbox db wk)"
  | (held) db wk2 req res lost where
      "renew_claim (we_renew_ok env) (oe_mail_id e) (oe_claim_token e) (we_now env + message_lease) (qw_outbox wk) = (Inr True, db)"
      "wc_decode cfg (oe_request e) = Some req"
      "send_email_worker (wc_admission cfg) (we_listed env) (we_by_id env) (we_pass env) (oe_tenant_id e) req
        (oe_mail_id e) (qw_world wk) = (res, qw_world wk2)"
      "keep_lease (oe_mail_id e) (oe_claim_token e) (we_ticks env) db = (lost, qw_outbox wk2)"
      "qw_patterns wk2 = qw_patterns wk"
      "process_email cfg env e wk = (if lost then wk2 else case res of
         Inr _ \<Rightarrow> delete_outbox env (oe_mail_id e) wk2 | Inl err \<Rightarrow> handle_failure cfg env e req err wk2)"
proof -
  obtain rr db where ren: "renew_claim (we_renew_ok env) (oe_mail_id e) (oe_claim_token e) (we_now env + message_lease)
      (qw_outbox wk) = (rr, db)" by (rule prod.exhaust)
  show ?thesis
  proof (cases "rr = Inr True")
    case False
    then have "process_email cfg env e wk = set_outbox db wk"
      by (simp add: process_email_def ren split: sum.split bool.split)
    with ren False show ?thesis by (rule unheld)
  next
    case True
    note ren = ren [unfolded True]
    show ?thesis
    proof (cases "wc_decode cfg (oe_request e)")
      case None
      then have "process_email cfg env e wk = delete_outbox env (oe_mail_id e) (set_outbox db wk)"
        by (simp add: process_email_def ren Let_def)
      with ren None show ?thesis by (rule undecodable)
    next
      case (Some req)
      obtain res w where s: "send_email_worker (wc_admission cfg) (we_listed env) (we_by_id env) (we_pass env)
          (oe_tenant_id e) req (oe_mail_id e) (qw_world wk) = (res, w)" by (rule prod.exhaust)
      obtain lost db' where k: "keep_lease (oe_mail_id e) (oe_claim_token e) (we_ticks env) db = (lost, db')"
        by (rule prod.exhaust)
      show ?thesis
        using held [OF ren Some, of res "set_outbox db' (set_delivery w (set_outbox db wk))" lost] s k
          process_email_held [OF ren Some s k] by (simp add: Let_def)
    qed
  qed
qed

lemma renew_kept:
  assumes "renew_claim ok i tok u db = (res, db')"
  shows "wf_outbox db \<Longrightarrow> wf_outbox db'" "message_kept mid db db'"
  using assms wf_renew [of db ok i tok u] message_kept_renew [of mid db ok i tok u] by simp_all

text \<open>A pass, held or not, whatever its message: what every step keeps.\<close>

lemma process_email_keeps:
  assumes "sound_worker L wk" "fair_env L mid env"
  shows "sound_worker L (process_email cfg env e wk)" (is "?A")
    "events_kept (qw_world wk) (qw_world (process_email cfg env e wk))" (is "?B")
    "oe_mail_id e \<noteq> mid \<Longrightarrow> message_kept mid (qw_outbox wk) (qw_outbox (process_email cfg env e wk))"
proof -
  have wf: "wf_outbox (qw_outbox wk)" and sch: "schedules_within L (qw_patterns wk)" "length default_retry_pattern \<le> L"
    using assms(1) by (simp_all add: sound_worker_def)
  have ticks: "list_all (\<lambda>t. list_all (leaves_count mid) (lt_others t)) (we_ticks env)"
    using assms(2) by (simp add: fair_env_def)
  have "?A \<and> ?B \<and> (oe_mail_id e \<noteq> mid \<longrightarrow> message_kept mid (qw_outbox wk) (qw_outbox (process_email cfg env e wk)))"
  proof (cases rule: process_email_cases [where cfg = cfg and env = env and e = e and wk = wk])
    case (unheld res db)
    with wf sch renew_kept [OF unheld(1)] show ?thesis by (simp add: sound_worker_def)
  next
    case (undecodable db)
    note rk = renew_kept [OF undecodable(1)]
    have "message_kept mid db (qw_outbox (delete_outbox env (oe_mail_id e) (set_outbox db wk)))"
      using message_kept_settled(2) [of mid "set_outbox db wk" env "oe_mail_id e"] by simp
    with undecodable wf sch rk(1) message_kept_trans [OF rk(2)] wf_settled(2) [of "set_outbox db wk"] show ?thesis
      by (simp add: sound_worker_def)
  next
    case (held db wk2 req res lost)
    note rk = renew_kept [OF held(1)]
    have k: "wf_outbox (qw_outbox wk2)" "message_kept mid (qw_outbox wk) (qw_outbox wk2)"
      using message_kept_lease [OF rk(1) [OF wf] ticks, of "oe_mail_id e" "oe_claim_token e"] message_kept_trans [OF rk(2)] held(4)
      by simp_all
    have ev: "events_kept (qw_world wk) (qw_world wk2)" using held(3) by (rule worker_events_kept)
    have sch2: "schedules_within L (qw_patterns wk2)" using sch(1) held(5) by simp
    show ?thesis
    proof (cases "lost \<or> (\<exists>m. res = Inr m)")
      case True
      with k ev sch sch2 held(6) message_kept_trans [OF k(2) message_kept_settled(2)] show ?thesis
        by (auto simp: sound_worker_def wf_settled)
    next
      case False
      then obtain err where err: "res = Inl err" by (cases res) auto
      note st = settled_as_facts [OF handle_failure_settles [OF sch2 assms(2) sch(2), of e err cfg req]]
      have "process_email cfg env e wk = handle_failure cfg env e req err wk2" using held(6) False err by simp
      with st k sch2 sch(2) events_kept_trans [OF ev st(1)] message_kept_trans [OF k(2) st(4)] show ?thesis
        by (simp add: sound_worker_def)
    qed
  qed
  then show ?A ?B "oe_mail_id e \<noteq> mid \<Longrightarrow> message_kept mid (qw_outbox wk) (qw_outbox (process_email cfg env e wk))"
    by simp_all
qed

lemma renewed_row:
  assumes "renew_claim ok mid tok u db = (Inr True, db')" "wf_outbox db" "r \<in> set (db_rows db)" "ob_id r = mid"
  shows "undelivered r"
proof -
  have "affected (renewable mid tok) (db_rows db) \<noteq> 0" using assms(1) by (auto simp: renew_claim_def split: if_splits)
  then obtain x where x: "x \<in> set (db_rows db)" "renewable mid tok x" by (auto simp: affected_0_iff)
  with assms(2-4) have "x = r" using same_id_same_row [of ob_id "db_rows db" x r] by (simp add: wf_outbox_def renewable_def)
  with x(2) show ?thesis by (simp add: renewable_def undelivered_def)
qed

lemma deleted_passes_left:
  assumes "wf_outbox (qw_outbox wk)" "r \<in> set (db_rows (qw_outbox wk))" "ob_id r = mid" "undelivered r"
    "message_kept mid (qw_outbox wk) (qw_outbox wk2)" "events_kept (qw_world wk) (qw_world wk2)"
  shows "passes_left cfg L mid (delete_outbox env mid wk2) \<le> passes_left cfg L mid wk"
    and "True \<in> set (take bookkeeping_attempts (we_writes env)) \<Longrightarrow>
      passes_left cfg L mid (delete_outbox env mid wk2) < passes_left cfg L mid wk"
proof -
  show "passes_left cfg L mid (delete_outbox env mid wk2) \<le> passes_left cfg L mid wk"
    using assms(1) message_kept_trans [OF assms(5) message_kept_settled(2)] assms(6)
    by (intro passes_left_kept) simp_all
  assume "True \<in> set (take bookkeeping_attempts (we_writes env))"
  then have "passes_left cfg L mid (delete_outbox env mid wk2) = 0"
    by (auto simp: passes_left_def waiting_def settled_outbox outbox_delete_def in_delete_where split: option.split
      dest!: find_row_Some)
  then show "passes_left cfg L mid (delete_outbox env mid wk2) < passes_left cfg L mid wk"
    by (simp add: passes_left_at [OF assms(1-4)] budget_def)
qed

lemma settled_budget:
  assumes "settled_as L env e (retry_cost err) wk2 wk'"
    "r' \<in> set (db_rows (qw_outbox wk'))" "ob_id r' = ob_id r" "undelivered r'"
    "wf_outbox (qw_outbox wk)" "r \<in> set (db_rows (qw_outbox wk))" "e = email_of tok r"
    "message_kept (ob_id r) (qw_outbox wk) (qw_outbox wk2)" "wc_decode cfg (ob_request r) = Some req"
    "send_email_worker (wc_admission cfg) ls bi pe (ob_tenant_id r) req (ob_id r) (qw_world wk) = (Inl err, qw_world wk2)"
    "delivered_recorded pe" "ec_internal_id (sc_events (ac_send (wc_admission cfg))) (ob_id r)"
  shows "budget cfg L r' (qw_world wk') \<le> budget cfg L r (qw_world wk)"
    "True \<in> set (take bookkeeping_attempts (we_writes env)) \<Longrightarrow> \<forall>a. err \<noteq> DeliveryPaced a \<Longrightarrow>
      budget cfg L r' (qw_world wk') < budget cfg L r (qw_world wk)"
proof -
  have ev: "events_kept (qw_world wk2) (qw_world wk')" using assms(1) by (rule settled_as_facts)
  have same: "same_message r x" if x: "x \<in> set (db_rows (qw_outbox wk2))" "ob_id x = ob_id r" for x
  proof -
    obtain y where y: "y \<in> set (db_rows (qw_outbox wk))" "same_message y x"
      using assms(8) x by (auto simp: message_kept_def)
    have "ob_id y = ob_id r" using y(2) x(2) by (simp add: same_message_def)
    with y(1) have "y = r" using assms(5,6) same_id_same_row [of ob_id "db_rows (qw_outbox wk)" y r]
      by (simp add: wf_outbox_def)
    with y(2) show ?thesis by simp
  qed
  have e: "oe_mail_id e = ob_id r" "oe_retry_count e = ob_retry_count r" using assms(7) by (simp_all add: email_of_def)
  have "budget cfg L r' (qw_world wk') \<le> budget cfg L r (qw_world wk) \<and>
      (True \<in> set (take bookkeeping_attempts (we_writes env)) \<and> (\<forall>a. err \<noteq> DeliveryPaced a) \<longrightarrow>
       budget cfg L r' (qw_world wk') < budget cfg L r (qw_world wk))"
    using assms(1,2) assms(3) [folded e(1)] assms(4)
  proof (cases rule: settled_as_row)
    case unwritten
    have "budget cfg L r' (qw_world wk') \<le> budget cfg L r (qw_world wk)"
      using same [OF unwritten(1) assms(3)] events_kept_trans [OF worker_events_kept [OF assms(10)] ev]
      by (intro budget_mono) (simp_all add: same_message_def)
    with unwritten(2) show ?thesis by simp
  next
    case (deferred x)
    have sx: "same_message r x" using deferred(1,2) assms(3) same by simp
    have f: "ob_id r' = ob_id r" "ob_tenant_id r' = ob_tenant_id r" "ob_request r' = ob_request r"
      "ob_retry_count r' = ob_retry_count r + retry_cost err"
      using sx deferred e(2) by (simp_all add: same_message_def)
    show ?thesis
      using deferred_budget [OF assms(10) ev f(1-3) assms(9) f(4) deferred(6) assms(11,12)] by simp
  qed
  then show "budget cfg L r' (qw_world wk') \<le> budget cfg L r (qw_world wk)"
    "True \<in> set (take bookkeeping_attempts (we_writes env)) \<Longrightarrow> \<forall>a. err \<noteq> DeliveryPaced a \<Longrightarrow>
      budget cfg L r' (qw_world wk') < budget cfg L r (qw_world wk)" by simp_all
qed

text \<open>A pass over the message itself never adds to the budget, and takes from it when it counts.\<close>

lemma process_own_budget:
  assumes "sound_worker L wk" "fair_env L mid env" "claimed_row mid tok wk = Some r"
    "delivered_recorded (we_pass env)" "ec_internal_id (sc_events (ac_send (wc_admission cfg))) mid"
  defines "e \<equiv> email_of tok r"
  shows "passes_left cfg L mid (process_email cfg env e wk) \<le> passes_left cfg L mid wk \<and>
    (settles cfg env e wk \<longrightarrow> passes_left cfg L mid (process_email cfg env e wk) < passes_left cfg L mid wk)"
proof (cases rule: process_email_cases [where cfg = cfg and env = env and e = e and wk = wk])
  case (unheld res db)
  have wf: "wf_outbox (qw_outbox wk)" using assms(1) by (simp add: sound_worker_def)
  have "passes_left cfg L mid (set_outbox db wk) \<le> passes_left cfg L mid wk"
    using renew_kept(2) [OF unheld(1)] by (intro passes_left_kept wf) simp_all
  moreover have "\<not> settles cfg env e wk" using unheld(1,2) by (auto simp: settles_def split: sum.split bool.split)
  ultimately show ?thesis using unheld(3) by simp
next
  case (undecodable db)
  have wf: "wf_outbox (qw_outbox wk)" using assms(1) by (simp add: sound_worker_def)
  have r: "r \<in> set (db_rows (qw_outbox wk))" "ob_id r = mid" and e: "oe_mail_id e = mid" "oe_claim_token e = tok"
    using find_row_Some [OF assms(3) [unfolded claimed_row_def]] by (simp_all add: e_def email_of_def)
  have "undelivered r" using renewed_row [OF undecodable(1) wf r(1)] r(2) e(1) by simp
  note dl = deleted_passes_left [OF wf r this, of "set_outbox db wk", unfolded set_outbox_simps, OF renew_kept(2) [OF undecodable(1)] events_kept_refl]
  show ?thesis using dl undecodable(3) e(1) by (auto simp: settles_def)
next
  case (held db wk2 req res lost)
  have wf: "wf_outbox (qw_outbox wk)" and sch: "schedules_within L (qw_patterns wk2)" "length default_retry_pattern \<le> L"
    using assms(1) held(5) by (simp_all add: sound_worker_def)
  have r: "r \<in> set (db_rows (qw_outbox wk))" "ob_id r = mid" and e: "oe_mail_id e = mid" "oe_claim_token e = tok"
      "oe_tenant_id e = ob_tenant_id r" "oe_request e = ob_request r" "oe_retry_count e = ob_retry_count r"
    using find_row_Some [OF assms(3) [unfolded claimed_row_def]] by (simp_all add: e_def email_of_def)
  have und: "undelivered r" using renewed_row [OF held(1) wf r(1)] r(2) e(1) by simp
  have "wf_outbox db" using renew_kept(1) [OF held(1)] wf by simp
  then have mk: "message_kept mid (qw_outbox wk) (qw_outbox wk2)"
    using message_kept_lease [of db mid "we_ticks env" "oe_mail_id e" "oe_claim_token e"] held(4) assms(2)
      message_kept_trans [OF renew_kept(2) [OF held(1)]] by (simp add: fair_env_def)
  have ev: "events_kept (qw_world wk) (qw_world wk2)" using held(3) by (rule worker_events_kept)
  note at = passes_left_at [OF wf r und, of cfg L]
  consider (lost) "lost" | (sent) m where "\<not> lost" "res = Inr m" | (failed) err where "\<not> lost" "res = Inl err"
    by (cases res) auto
  then show ?thesis
  proof cases
    case lost
    then have "\<not> settles cfg env e wk" using held(1,2,4) by (simp add: settles_def)
    with lost held(6) passes_left_kept [OF wf mk ev] show ?thesis by simp
  next
    case sent
    note dl = deleted_passes_left [OF wf r und mk ev]
    from sent held(6) e(1) have eq: "process_email cfg env e wk = delete_outbox env mid wk2" by simp
    show ?thesis unfolding eq using dl by (simp add: settles_def)
  next
    case (failed err)
    then have st: "settled_as L env e (retry_cost err) wk2 (process_email cfg env e wk)"
      using held(6) handle_failure_settles [OF sch(1) assms(2) sch(2)] by simp
    let ?wk' = "process_email cfg env e wk"
    have mk': "message_kept (ob_id r) (qw_outbox wk) (qw_outbox wk2)" using mk r(2) by simp
    have dec: "wc_decode cfg (ob_request r) = Some req" using held(2) e(4) by simp
    have snd': "send_email_worker (wc_admission cfg) (we_listed env) (we_by_id env) (we_pass env) (ob_tenant_id r) req (ob_id r)
        (qw_world wk) = (Inl err, qw_world wk2)" using held(3) failed(2) e(1,3) r(2) by simp
    have int: "ec_internal_id (sc_events (ac_send (wc_admission cfg))) (ob_id r)" using assms(5) r(2) by simp
    note row = settled_budget [OF st _ _ _ wf r(1) e_def [THEN meta_eq_to_obj_eq] mk' dec snd' assms(4) int]
    have le: "passes_left cfg L mid ?wk' \<le> budget cfg L r (qw_world wk)"
      using row(1) r(2) by (intro passes_left_le) simp
    have less: "passes_left cfg L mid ?wk' \<le> budget cfg L r (qw_world wk) - 1" if "settles cfg env e wk"
    proof (rule passes_left_le)
      fix r' assume r': "r' \<in> set (db_rows (qw_outbox ?wk'))" "ob_id r' = mid" "undelivered r'"
      have "True \<in> set (take bookkeeping_attempts (we_writes env)) \<and> (\<forall>a. err \<noteq> DeliveryPaced a)"
        using that held(1-3) failed(2) by (auto simp: settles_def split: send_error.splits)
      with row(2) [OF r'(1)] r' r(2) show "budget cfg L r' (qw_world ?wk') \<le> budget cfg L r (qw_world wk) - 1" by simp
    qed
    from less have "settles cfg env e wk \<longrightarrow> passes_left cfg L mid ?wk' < budget cfg L r (qw_world wk)"
      by (auto simp: budget_def)
    with le show ?thesis unfolding at by simp
  qed
qed

interpretation progress: ranked_steps "worker_step cfg" "fair_op cfg L mid" "sound_worker L" "passes_left cfg L mid" "counts cfg mid"
proof
  fix op wk
  assume op: "fair_op cfg L mid op" and wk: "sound_worker L wk"
  have wf: "wf_outbox (qw_outbox wk)" using wk by (simp add: sound_worker_def)
  have store: "sound_worker L (worker_step cfg (WStore o') wk) \<and>
      passes_left cfg L mid (worker_step cfg (WStore o') wk) \<le> passes_left cfg L mid wk" if "op = WStore o'" for o'
    using that op wk wf passes_left_kept [of wk mid "set_outbox (outbox_step o' (qw_outbox wk)) wk"]
    by (simp add: fair_op_def sound_worker_def wf_outbox_step message_kept_step)
  have proc: "sound_worker L (worker_step cfg op wk) \<and>
      passes_left cfg L mid (worker_step cfg op wk) \<le> passes_left cfg L mid wk \<and>
      (counts cfg mid op wk \<longrightarrow> passes_left cfg L mid (worker_step cfg op wk) < passes_left cfg L mid wk)"
    if o': "op = WProcess env i tok" for env i tok
  proof (cases "claimed_row i tok wk")
    case None
    with o' wk show ?thesis by (auto simp: counts_def)
  next
    case (Some r)
    have fe: "fair_env L mid env" using op o' by (simp add: fair_op_def)
    note keeps = process_email_keeps [OF wk fe]
    show ?thesis
    proof (cases "i = mid")
      case True
      with Some have c: "claimed_row mid tok wk = Some r" by simp
      have "delivered_recorded (we_pass env)" "ec_internal_id (sc_events (ac_send (wc_admission cfg))) mid"
        using op o' True by (simp_all add: fair_op_def)
      from process_own_budget [OF wk fe c this] keeps(1) show ?thesis by (simp add: o' True c counts_def)
    next
      case False
      have "oe_mail_id (email_of tok r) \<noteq> mid"
        using find_row_Some [OF Some [unfolded claimed_row_def]] False by (simp add: email_of_def)
      with keeps(3) have "passes_left cfg L mid (process_email cfg env (email_of tok r) wk) \<le> passes_left cfg L mid wk"
        by (intro passes_left_kept [OF wf] keeps(2)) simp
      with keeps(1) False Some show ?thesis by (simp add: o' counts_def)
    qed
  qed
  show "sound_worker L (worker_step cfg op wk)" "passes_left cfg L mid (worker_step cfg op wk) \<le> passes_left cfg L mid wk"
    using store proc by (cases op; simp)+
  show "passes_left cfg L mid (worker_step cfg op wk) < passes_left cfg L mid wk" if "counts cfg mid op wk"
    using that proc by (cases op) (auto simp: counts_def)
qed

text \<open>
  C6. A message does not stay in the queue for ever. Whatever claims, sends and other work surround it,
  a queued message whose recipients number \<open>n\<close> is settled by at most \<open>n + L + 2\<close> passes that hold
  their lease and get their outcome written, where no retry schedule in use is longer than \<open>L\<close>; once
  that many have run it is delivered, failed or deleted.
\<close>

theorem retries_end:
  assumes "sound_worker L wk" "list_all (fair_op cfg L mid) ops"
    "\<And>r. r \<in> set (db_rows (qw_outbox wk)) \<Longrightarrow> ob_id r = mid \<Longrightarrow>
      0 \<le> ob_retry_count r \<and> (\<exists>req. wc_decode cfg (ob_request r) = Some req \<and> length (request_recipients req) \<le> n)"
  defines "passes \<equiv> length (filter (\<lambda>(op, t). counts cfg mid op t) (trace (worker_step cfg) ops wk))"
  shows "passes \<le> n + L + 2 \<and> (passes = n + L + 2 \<longrightarrow> waiting mid (run (worker_step cfg) ops wk) = None)"
proof -
  have b: "budget cfg L r (qw_world wk) \<le> n + L + 2"
    if r: "r \<in> set (db_rows (qw_outbox wk))" "ob_id r = mid" for r
  proof -
    obtain req where req: "0 \<le> ob_retry_count r" "wc_decode cfg (ob_request r) = Some req" "length (request_recipients req) \<le> n"
      using assms(3) [OF r] by blast
    have "length (still_open (ob_tenant_id r) (ob_id r) req (qw_world wk)) \<le> n"
      using req(3) length_filter_le unfolding still_open_def by (rule le_trans [rotated])
    with req(1,2) show ?thesis by (simp add: budget_def)
  qed
  have "passes_left cfg L mid wk \<le> n + L + 2" by (rule passes_left_le) (rule b)
  moreover have "passes + passes_left cfg L mid (run (worker_step cfg) ops wk) \<le> passes_left cfg L mid wk"
    unfolding passes_def using assms(2,1) by (rule progress.spending_bounded)
  ultimately show ?thesis
    by (auto simp: passes_left_def budget_def split: option.splits)
qed

section \<open>Instances\<close>

lemma sample_pass_settles: "counts sample_worker_config ''m1'' (WProcess sample_work_env ''m1'' ''tok'') sample_worker"
proof -
  obtain w where w: "send_email_worker sample_admission (Some [sample_provider]) (Inr None) (sample_pass [''b@y.org''])
      ''t1'' sample_letter ''m1'' (qw_world sample_worker) =
      (Inl (RecipientFailures [failure_of ''b@y.org'' ''421 try again later''] 1), w)"
    using sample_worker_pass by blast
  have c: "claimed_row ''m1'' ''tok'' sample_worker = Some sample_claimed_row"
    by (simp add: claimed_row_def find_row_def sample_worker_def sample_claimed_row_def)
  have e: "oe_mail_id (email_of ''tok'' sample_claimed_row) = ''m1''" "oe_tenant_id (email_of ''tok'' sample_claimed_row) = ''t1''"
    "oe_request (email_of ''tok'' sample_claimed_row) = ''letter''" "oe_claim_token (email_of ''tok'' sample_claimed_row) = ''tok''"
    by (simp_all add: email_of_def sample_claimed_row_def)
  have ren: "fst (renew_claim True ''m1'' ''tok'' u (qw_outbox sample_worker)) = Inr True" for u
    by (simp add: renew_claim_def sample_worker_def renewable_def sample_claimed_row_def affected_def)
  have env: "we_renew_ok sample_work_env" "we_listed sample_work_env = Some [sample_provider]" "we_by_id sample_work_env = Inr None"
    "we_pass sample_work_env = sample_pass [''b@y.org'']" "we_ticks sample_work_env = []" "we_writes sample_work_env = [True]"
    by (simp_all add: sample_work_env_def)
  have cfg: "wc_admission sample_worker_config = sample_admission" "wc_decode sample_worker_config ''letter'' = Some sample_letter"
    by (simp_all add: sample_worker_config_def)
  obtain db where db: "renew_claim True ''m1'' ''tok'' (we_now sample_work_env + message_lease) (qw_outbox sample_worker) = (Inr True, db)"
    using ren by (metis prod.collapse)
  show ?thesis by (simp add: counts_def c settles_def e env cfg w db bookkeeping_attempts_def)
qed

theorem retries_end_witness:
  "counts sample_worker_config ''m1'' (WProcess sample_work_env ''m1'' ''tok'') sample_worker \<and>
   length (filter (\<lambda>(op, t). counts sample_worker_config ''m1'' op t)
     (trace (worker_step sample_worker_config)
       [WProcess sample_work_env ''m1'' ''tok'', WStore (OClaim True True 90000 ''tok2'' 500 message_lease),
        WProcess sample_work_env ''m1'' ''tok2''] sample_worker)) \<le> 3 + 8 + 2"
proof -
  have rows: "db_rows (qw_outbox sample_worker) = [sample_claimed_row]" "db_keys (qw_outbox sample_worker) = []"
    by (simp_all add: sample_worker_def)
  have s: "sound_worker 8 sample_worker"
    by (simp add: sound_worker_def wf_outbox_def rows schedules_within_def sample_worker_def new_cache_def
      new_cache_with_limit_def default_retry_pattern_def)
  have "fair_env 8 ''m1'' sample_work_env" by (simp add: fair_env_def sample_work_env_def)
  moreover have "we_pass sample_work_env = sample_pass [''b@y.org'']" by (simp add: sample_work_env_def)
  ultimately have f: "fair_op sample_worker_config 8 ''m1'' (WProcess sample_work_env ''m1'' tok)" for tok
    using sample_pass_facts(4,5) by (simp add: fair_op_def sample_worker_config_def)
  have fs: "list_all (fair_op sample_worker_config 8 ''m1'') [WProcess sample_work_env ''m1'' ''tok'',
      WStore (OClaim True True 90000 ''tok2'' 500 message_lease), WProcess sample_work_env ''m1'' ''tok2'']"
    using f by (simp add: fair_op_def [of _ _ _ "WStore _"])
  have rq: "wc_decode sample_worker_config (ob_request sample_claimed_row) = Some sample_letter" "ob_retry_count sample_claimed_row = 0"
    by (simp_all add: sample_worker_config_def sample_claimed_row_def)
  have "length (request_recipients sample_letter) = 3" using sample_parts(3) by (simp add: sample_letter_def)
  then have n: "0 \<le> ob_retry_count r \<and> (\<exists>req. wc_decode sample_worker_config (ob_request r) = Some req \<and>
      length (request_recipients req) \<le> 3)" if "r \<in> set (db_rows (qw_outbox sample_worker))" for r
    using that rq by (simp add: rows)
  show ?thesis using retries_end [OF s fs n] sample_pass_settles by blast
qed

section \<open>Mail through a receiving provider\<close>

text \<open>
  C32. A message that names a receiving (IMAP or POP3) provider is never handed to anyone, and yet a
  pass can report it delivered: then its row is deleted and no recipient has a copy, a failure or a
  retry.
\<close>

theorem receiver_mail_deleted:
  assumes "find_provider (rq_provider_id req) (pe_listed (we_pass env)) = Some p" "receives_only p" "rq_provider_id req \<noteq> []"
    "wc_decode cfg (oe_request e) = Some req" "settles cfg env e wk"
    "send_email_worker (wc_admission cfg) (we_listed env) (we_by_id env) (we_pass env) (oe_tenant_id e) req
      (oe_mail_id e) (qw_world wk) = (res, w)"
  shows "dw_accepted w = dw_accepted (qw_world wk) \<and>
    (res = Inr m \<longrightarrow> (\<forall>r \<in> set (db_rows (qw_outbox (process_email cfg env e wk))). ob_id r \<noteq> oe_mail_id e))"
proof (intro conjI impI)
  show "dw_accepted w = dw_accepted (qw_world wk)"
    using assms(6)
  proof (cases rule: worker_mode_cases)
    case passed
    then show ?thesis
    proof (cases rule: do_send_cases)
      case (looped a ps subject w1 live fs n)
      have "ps = [p]" using looped(2) assms(1,3) by (auto simp: select_providers_def Let_def split: if_splits)
      have "\<exists>cs. dw_accepted w = dw_accepted w1 @ copies_of (oe_tenant_id e) (oe_mail_id e) req subject cs \<and>
          (\<forall>(r, q) \<in> set cs. q \<in> set ps \<and> \<not> receives_only q \<and> pe_send (we_pass env) r (pv_id q) = None)"
        using looped(3) unfolding loop_outcome_def by (elim conjE exE) (intro exI conjI, assumption+)
      then obtain cs where cs: "dw_accepted w = dw_accepted w1 @ copies_of (oe_tenant_id e) (oe_mail_id e) req subject cs"
        "\<forall>(r, q) \<in> set cs. q \<in> set ps \<and> \<not> receives_only q \<and> pe_send (we_pass env) r (pv_id q) = None" by blast
      from cs(2) \<open>ps = [p]\<close> assms(2) have "cs = []" by (cases cs) auto
      with cs(1) looped(5) show ?thesis by (simp add: copies_of_def)
    qed
  qed
  assume sent: "res = Inr m"
  show "\<forall>r \<in> set (db_rows (qw_outbox (process_email cfg env e wk))). ob_id r \<noteq> oe_mail_id e"
  proof (cases rule: process_email_cases [where cfg = cfg and env = env and e = e and wk = wk])
    case (held db wk2 req' res' lost)
    have "process_email cfg env e wk = delete_outbox env (oe_mail_id e) wk2"
      using held sent assms(4-6) by (simp add: settles_def)
    with assms(5) show ?thesis by (auto simp: settles_def settled_outbox outbox_delete_def in_delete_where)
  next
    case unheld
    with assms(5) show ?thesis by (auto simp: settles_def split: sum.splits bool.splits)
  qed (use assms(4) in simp)
qed

definition sample_mailbox :: email_provider where
  "sample_mailbox = sample_provider\<lparr>pv_type := ProviderIMAP\<rparr>"

definition sample_mailbox_pass :: pass_env where
  "sample_mailbox_pass = (sample_pass [])\<lparr>pe_listed := Some [sample_mailbox]\<rparr>"

definition sample_mailbox_env :: work_env where
  "sample_mailbox_env = sample_work_env\<lparr>we_listed := Some [sample_mailbox], we_pass := sample_mailbox_pass\<rparr>"

lemma sample_mailbox_sent:
  "\<exists>w. send_email_worker sample_admission (Some [sample_mailbox]) (Inr None) sample_mailbox_pass ''t1'' sample_letter ''m1''
      (qw_world sample_worker) = (Inr ''m1'', w)"
proof -
  have h: "list_by_message_id True ''t1'' ''m1'' sample_log = Some []"
    by (simp add: list_by_message_id_def sample_log_def)
  have s: "el_sups sample_log = sample_sups" by (simp add: sample_log_def)
  have p: "select_providers ''t1'' ''me@x.org'' ''p1'' (Some [sample_mailbox]) None (Inr [sample_provider]) = Inr [sample_mailbox]"
    "receives_only sample_mailbox" "get_provider ''p1'' (Some [sample_mailbox]) (Inr None) = Inr (Some sample_mailbox)"
    by code_simp+
  have d: "\<exists>w. do_send sample_send_config sample_mailbox_pass ''t1'' sample_letter ''m1'' Delivery_Pass.sample_world = (Inr ''m1'', w)"
    using sample_parts(4)
    by (simp add: do_send_def deliver_copies_def drop_suppressed_at_delivery_def sample_send_config_def sample_pass_def
      sample_mailbox_pass_def sample_letter_def Delivery_Pass.sample_world_def sample_parts(1,3,5) p h s render_template_def
      finished_from_def delivered_map_def settled_map_def pace_delivery_def)
  have "check_request sample_admission ''t1'' sample_letter =
      Inr [(''a@y.org'', ''a@y.org''), (''b@y.org'', ''b@y.org''), (''old@x.org'', ''old@x.org'')]"
    by code_simp
  moreover have "rq_provider_id sample_letter = ''p1''" by (simp add: sample_letter_def)
  ultimately have "\<exists>x. begin_send sample_admission (Some [sample_mailbox]) (Inr None) ''t1'' sample_letter = Inr x"
    by (simp add: begin_send_def p)
  moreover have "qw_world sample_worker = Delivery_Pass.sample_world" by (simp add: sample_worker_def sample_gateway_def)
  ultimately show ?thesis using d by (auto simp: send_email_worker_def)
qed

theorem receiver_mail_deleted_witness:
  "\<exists>w. send_email_worker sample_admission (Some [sample_mailbox]) (Inr None) sample_mailbox_pass ''t1'' sample_letter ''m1''
      (qw_world sample_worker) = (Inr ''m1'', w) \<and> dw_accepted w = [] \<and>
     (\<forall>r \<in> set (db_rows (qw_outbox (process_email sample_worker_config sample_mailbox_env
        (email_of ''tok'' sample_claimed_row) sample_worker))). ob_id r \<noteq> ''m1'')"
proof -
  obtain w where w: "send_email_worker sample_admission (Some [sample_mailbox]) (Inr None) sample_mailbox_pass ''t1''
      sample_letter ''m1'' (qw_world sample_worker) = (Inr ''m1'', w)"
    using sample_mailbox_sent by blast
  let ?e = "email_of ''tok'' sample_claimed_row"
  have e: "oe_mail_id ?e = ''m1''" "oe_tenant_id ?e = ''t1''" "oe_request ?e = ''letter''" "oe_claim_token ?e = ''tok''"
    by (simp_all add: email_of_def sample_claimed_row_def)
  have env: "we_renew_ok sample_mailbox_env" "we_listed sample_mailbox_env = Some [sample_mailbox]"
    "we_by_id sample_mailbox_env = Inr None" "we_pass sample_mailbox_env = sample_mailbox_pass"
    "we_ticks sample_mailbox_env = []" "we_writes sample_mailbox_env = [True]"
    by (simp_all add: sample_mailbox_env_def sample_work_env_def)
  have cfg: "wc_admission sample_worker_config = sample_admission" "wc_decode sample_worker_config ''letter'' = Some sample_letter"
    by (simp_all add: sample_worker_config_def)
  have "fst (renew_claim True ''m1'' ''tok'' u (qw_outbox sample_worker)) = Inr True" for u
    by (simp add: renew_claim_def sample_worker_def renewable_def sample_claimed_row_def affected_def)
  then obtain db where db: "renew_claim True ''m1'' ''tok'' (we_now sample_mailbox_env + message_lease) (qw_outbox sample_worker) = (Inr True, db)"
    by (metis prod.collapse)
  have st: "settles sample_worker_config sample_mailbox_env ?e sample_worker"
    by (simp add: settles_def e env cfg w db bookkeeping_attempts_def)
  have p: "find_provider (rq_provider_id sample_letter) (pe_listed (we_pass sample_mailbox_env)) = Some sample_mailbox"
    "receives_only sample_mailbox" "rq_provider_id sample_letter \<noteq> []"
    by (simp_all add: env(4) sample_mailbox_pass_def find_provider_def sample_letter_def sample_mailbox_def sample_provider_def
      receives_only_def)
  have "dw_accepted w = dw_accepted (qw_world sample_worker) \<and>
      (Inr ''m1'' = (Inr ''m1'' :: (send_error, string) result) \<longrightarrow>
        (\<forall>r \<in> set (db_rows (qw_outbox (process_email sample_worker_config sample_mailbox_env ?e sample_worker))).
           ob_id r \<noteq> oe_mail_id ?e))"
    using p by (rule receiver_mail_deleted) (use st w in \<open>simp_all only: e env cfg\<close>)
  moreover have "dw_accepted (qw_world sample_worker) = []"
    by (simp add: sample_worker_def sample_gateway_def Delivery_Pass.sample_world_def)
  ultimately show ?thesis using w e(1) by simp
qed

end
