(* ===== verification/Webhook_Queue.thy ===== *)
theory Webhook_Queue
  imports Lease_Queue "HOL-Library.List_Lexorder" "HOL-Library.Char_ord" "HOL-Library.Product_Lexorder" "HOL-Library.Multiset"
begin

text \<open>
  The queue of webhook notifications of \<open>internal/webhook\<close>: the stored notifications
  (\<open>repositories/entities/delivery.go\<close>) and the operations of \<open>stores/postgres/delivery_store.go\<close> with
  their SQL. A claim is fair across subscriptions, an outcome is written only under the claim it was
  reached under.

  An operation takes one Boolean per database round trip. Times and tokens are arguments. Rows that
  SQL leaves in no particular order keep the order of the table.
\<close>

section \<open>Rows\<close>

datatype delivery_status =
    DeliveryStatusUnset | DeliveryStatusPending | DeliveryStatusDeferred | DeliveryStatusDelivered
  | DeliveryStatusFailed | DeliveryStatusSending

record webhook_delivery =
  wd_id :: string
  wd_tenant_id :: string
  wd_webhook_id :: string
  wd_event :: string
  wd_payload :: string
  wd_status :: delivery_status
  wd_attempt_count :: int
  wd_claim_token :: string
  wd_next_attempt_at :: time
  wd_last_error :: string
  wd_created_at :: time
  wd_updated_at :: time

record delivery_row =
  dr_id :: string
  dr_tenant_id :: string
  dr_webhook_id :: string
  dr_event :: string
  dr_payload :: string
  dr_status :: delivery_status
  dr_attempt_count :: int
  dr_next_attempt_at :: time
  dr_last_error :: string
  dr_created_at :: time
  dr_updated_at :: time
  dr_claim_token :: "string option"
  dr_claimed_until :: "time option"

datatype delivery_error = DeliveryUnavailable | DeliveryDuplicateId | ErrClaimLost

definition delivery_of :: "string \<Rightarrow> delivery_row \<Rightarrow> webhook_delivery" where
  "delivery_of token r =
     \<lparr>wd_id = dr_id r, wd_tenant_id = dr_tenant_id r, wd_webhook_id = dr_webhook_id r, wd_event = dr_event r,
      wd_payload = dr_payload r, wd_status = dr_status r, wd_attempt_count = dr_attempt_count r,
      wd_claim_token = token, wd_next_attempt_at = dr_next_attempt_at r, wd_last_error = dr_last_error r,
      wd_created_at = dr_created_at r, wd_updated_at = dr_updated_at r\<rparr>"

section \<open>Operations\<close>

definition delivery_create ::
  "bool \<Rightarrow> time \<Rightarrow> webhook_delivery \<Rightarrow> delivery_row list \<Rightarrow> (delivery_error, unit) result \<times> delivery_row list" where
  "delivery_create ok now d rows =
     (let r = \<lparr>dr_id = wd_id d, dr_tenant_id = wd_tenant_id d, dr_webhook_id = wd_webhook_id d, dr_event = wd_event d,
               dr_payload = wd_payload d,
               dr_status = (if wd_status d = DeliveryStatusUnset then DeliveryStatusPending else wd_status d),
               dr_attempt_count = wd_attempt_count d,
               dr_next_attempt_at = (if wd_next_attempt_at d = zero_time then now else wd_next_attempt_at d),
               dr_last_error = wd_last_error d,
               dr_created_at = (if wd_created_at d = zero_time then now else wd_created_at d),
               dr_updated_at = now, dr_claim_token = None, dr_claimed_until = None\<rparr>
      in if \<not> ok then (Inl DeliveryUnavailable, rows)
         else if \<exists>x \<in> set rows. dr_id x = wd_id d then (Inl DeliveryDuplicateId, rows)
         else (Inr (), rows @ [r]))"

definition delivery_due :: "time \<Rightarrow> delivery_row \<Rightarrow> bool" where
  "delivery_due now r \<longleftrightarrow>
     dr_next_attempt_at r \<le> now \<and>
     (dr_status r = DeliveryStatusPending \<or> dr_status r = DeliveryStatusDeferred \<or>
      dr_status r = DeliveryStatusSending \<and>
        (case dr_claimed_until r of None \<Rightarrow> True | Some u \<Rightarrow> u < now))"

text \<open>\<open>ROW_NUMBER() OVER (PARTITION BY webhook_id ORDER BY created_at, id)\<close> among the due rows.\<close>

definition turn :: "time \<Rightarrow> delivery_row list \<Rightarrow> delivery_row \<Rightarrow> nat" where
  "turn now rows r =
     Suc (length (filter (\<lambda>x. delivery_due now x \<and> dr_webhook_id x = dr_webhook_id r \<and>
            (dr_created_at x, dr_id x) < (dr_created_at r, dr_id r)) rows))"

definition ranked :: "time \<Rightarrow> nat \<Rightarrow> delivery_row list \<Rightarrow> delivery_row list" where
  "ranked now per rows =
     sort_key (\<lambda>r. (turn now rows r, dr_created_at r))
       (filter (\<lambda>r. delivery_due now r \<and> turn now rows r \<le> per) rows)"

definition due_batch :: "time \<Rightarrow> nat \<Rightarrow> nat \<Rightarrow> delivery_row list \<Rightarrow> string list" where
  "due_batch now limit per rows = map dr_id (take limit (ranked now per rows))"

definition take_delivery :: "string \<Rightarrow> time \<Rightarrow> time \<Rightarrow> delivery_row \<Rightarrow> delivery_row" where
  "take_delivery token until now r =
     r\<lparr>dr_status := DeliveryStatusSending, dr_claim_token := Some token, dr_claimed_until := Some until,
       dr_updated_at := now\<rparr>"

definition claim_delivery_rows ::
  "nat \<Rightarrow> nat \<Rightarrow> time \<Rightarrow> string \<Rightarrow> time \<Rightarrow> delivery_row list \<Rightarrow> delivery_row list" where
  "claim_delivery_rows limit per now token until rows =
     update_where (\<lambda>r. dr_id r \<in> set (due_batch now limit per rows)) (take_delivery token until now) rows"

definition claim_due ::
  "bool \<Rightarrow> bool \<Rightarrow> time \<Rightarrow> string \<Rightarrow> nat \<Rightarrow> int \<Rightarrow> duration \<Rightarrow> delivery_row list
    \<Rightarrow> (delivery_error, webhook_delivery list) result \<times> delivery_row list" where
  "claim_due exec_ok read_ok now token limit per_subscription lease rows =
     (if \<not> exec_ok then (Inl DeliveryUnavailable, rows)
      else
        let per = (if per_subscription < 1 then 1 else nat per_subscription);
            rows' = claim_delivery_rows limit per now token (now + lease) rows
        in if \<not> read_ok then (Inl DeliveryUnavailable, rows')
           else (Inr (map (delivery_of token) (sort_key dr_created_at (holders dr_claim_token token rows'))), rows'))"

definition held_under :: "string \<Rightarrow> string \<Rightarrow> delivery_row \<Rightarrow> bool" where
  "held_under i token r \<longleftrightarrow> dr_id r = i \<and> dr_claim_token r = Some token"

definition settle_delivery :: "time \<Rightarrow> webhook_delivery \<Rightarrow> delivery_row \<Rightarrow> delivery_row" where
  "settle_delivery now d r =
     r\<lparr>dr_status := wd_status d, dr_attempt_count := wd_attempt_count d,
       dr_next_attempt_at := wd_next_attempt_at d, dr_last_error := wd_last_error d, dr_updated_at := now,
       dr_claim_token := None, dr_claimed_until := None\<rparr>"

text \<open>\<open>count_ok\<close> is false when the driver does not report how many rows the update changed.\<close>

definition delivery_update ::
  "bool \<Rightarrow> bool \<Rightarrow> time \<Rightarrow> webhook_delivery \<Rightarrow> delivery_row list
    \<Rightarrow> (delivery_error, unit) result \<times> delivery_row list" where
  "delivery_update ok count_ok now d rows =
     (if wd_claim_token d = [] then (Inl ErrClaimLost, rows)
      else if \<not> ok then (Inl DeliveryUnavailable, rows)
      else
        let p = held_under (wd_id d) (wd_claim_token d);
            rows' = update_where p (settle_delivery now d) rows
        in if \<not> count_ok then (Inl DeliveryUnavailable, rows')
           else if affected p rows = 0 then (Inl ErrClaimLost, rows')
           else (Inr (), rows'))"

definition deferrable :: "string \<Rightarrow> time \<Rightarrow> delivery_row \<Rightarrow> bool" where
  "deferrable wid until r \<longleftrightarrow>
     dr_webhook_id r = wid \<and> dr_status r \<in> {DeliveryStatusPending, DeliveryStatusDeferred} \<and>
     dr_next_attempt_at r < until"

definition defer_subscription ::
  "bool \<Rightarrow> string \<Rightarrow> time \<Rightarrow> time \<Rightarrow> delivery_row list \<Rightarrow> (delivery_error, unit) result \<times> delivery_row list" where
  "defer_subscription ok wid until now rows =
     (if \<not> ok then (Inl DeliveryUnavailable, rows)
      else (Inr (), update_where (deferrable wid until)
             (\<lambda>r. r\<lparr>dr_next_attempt_at := until, dr_updated_at := now\<rparr>) rows))"

definition delivery_delete ::
  "bool \<Rightarrow> string \<Rightarrow> delivery_row list \<Rightarrow> (delivery_error, unit) result \<times> delivery_row list" where
  "delivery_delete ok i rows =
     (if \<not> ok then (Inl DeliveryUnavailable, rows) else (Inr (), delete_where (\<lambda>r. dr_id r = i) rows))"

definition delivery_terminal :: "delivery_row \<Rightarrow> bool" where
  "delivery_terminal r \<longleftrightarrow> dr_status r \<in> {DeliveryStatusDelivered, DeliveryStatusFailed}"

definition delivery_prune_terminal ::
  "bool \<Rightarrow> bool \<Rightarrow> time \<Rightarrow> delivery_row list \<Rightarrow> (delivery_error, nat) result \<times> delivery_row list" where
  "delivery_prune_terminal ok count_ok older_than rows =
     (let p = (\<lambda>r. delivery_terminal r \<and> dr_updated_at r < older_than)
      in if \<not> ok then (Inl DeliveryUnavailable, rows)
         else (Inr (if count_ok then affected p rows else 0), delete_where p rows))"

definition delivery_stats :: "bool \<Rightarrow> delivery_row list \<Rightarrow> (delivery_error, nat \<times> time option) result" where
  "delivery_stats ok rows =
     (if \<not> ok then Inl DeliveryUnavailable
      else
        let waiting = filter (\<lambda>r. dr_status r \<in> {DeliveryStatusPending, DeliveryStatusDeferred, DeliveryStatusSending}) rows
        in Inr (length waiting,
                if waiting = [] then None else Some (foldr min (map dr_created_at waiting) (dr_created_at (hd waiting)))))"

section \<open>Leases\<close>

lemma ids_take_delivery [simp]: "dr_id (take_delivery tok u now r) = dr_id r"
  by (simp add: take_delivery_def)

lemma ids_settle_delivery [simp]: "dr_id (settle_delivery now d r) = dr_id r"
  by (simp add: settle_delivery_def)

lemma ids_claim_delivery [simp]: "map dr_id (claim_delivery_rows limit per now tok u rows) = map dr_id rows"
  by (simp add: claim_delivery_rows_def map_update_where)

lemma ranked_row: "r \<in> set (ranked now per rows) \<longleftrightarrow> r \<in> set rows \<and> delivery_due now r \<and> turn now rows r \<le> per"
  by (auto simp: ranked_def)

lemma due_batch_row:
  "i \<in> set (due_batch now limit per rows) \<Longrightarrow> \<exists>r \<in> set rows. dr_id r = i \<and> delivery_due now r \<and> turn now rows r \<le> per"
proof -
  assume "i \<in> set (due_batch now limit per rows)"
  then obtain r where "i = dr_id r" "r \<in> set (take limit (ranked now per rows))" by (auto simp: due_batch_def)
  with in_set_takeD ranked_row show ?thesis by metis
qed

definition delivery_leased :: "time \<Rightarrow> delivery_row \<Rightarrow> bool" where
  "delivery_leased u r \<longleftrightarrow> dr_status r = DeliveryStatusSending \<and> dr_claimed_until r = Some u"

interpretation webhook_lease: lease_table dr_id dr_claim_token delivery_leased delivery_due "claim_delivery_rows limit per"
proof
  fix now tok u rows r
  show "map dr_id (claim_delivery_rows limit per now tok u rows) = map dr_id rows" by simp
  show "r \<in> set (claim_delivery_rows limit per now tok u rows)"
    if "distinct (map dr_id rows)" "r \<in> set rows" "\<not> delivery_due now r"
  proof -
    have "dr_id r \<notin> set (due_batch now limit per rows)"
      using due_batch_row same_id_same_row that by metis
    with that(2) show ?thesis unfolding claim_delivery_rows_def by (rule update_where_miss)
  qed
  show "dr_claim_token r = Some tok \<and> delivery_leased u r \<and> (\<exists>r0 \<in> set rows. dr_id r0 = dr_id r \<and> delivery_due now r0)"
    if "r \<in> set (claim_delivery_rows limit per now tok u rows)" "r \<notin> set rows"
  proof -
    from that(1) obtain r0 where r0: "r0 \<in> set rows"
      "r = (if dr_id r0 \<in> set (due_batch now limit per rows) then take_delivery tok u now r0 else r0)"
      by (auto simp: claim_delivery_rows_def set_update_where)
    with that(2) have "dr_id r0 \<in> set (due_batch now limit per rows)" "r = take_delivery tok u now r0"
      by (auto split: if_splits)
    then show ?thesis using due_batch_row [of "dr_id r0" now limit per rows] by (auto simp: take_delivery_def delivery_leased_def)
  qed
  show "\<not> delivery_due now r" if "delivery_leased u r" "now \<le> u"
    using that by (simp add: delivery_leased_def delivery_due_def)
qed

section \<open>Turns\<close>

abbreviation place :: "delivery_row \<Rightarrow> time \<times> string" where
  "place r \<equiv> (dr_created_at r, dr_id r)"

lemma filter_shorter:
  "(\<And>x. x \<in> set xs \<Longrightarrow> P x \<Longrightarrow> Q x) \<Longrightarrow> x \<in> set xs \<Longrightarrow> Q x \<Longrightarrow> \<not> P x \<Longrightarrow> length (filter P xs) < length (filter Q xs)"
proof -
  assume *: "\<And>x. x \<in> set xs \<Longrightarrow> P x \<Longrightarrow> Q x" "x \<in> set xs" "Q x" "\<not> P x"
  have "filter P xs = filter P (filter Q xs)" using *(1) by (auto intro: filter_cong)
  also have "length \<dots> < length (filter Q xs)" using *(2-4) by (intro length_filter_less [of x]) auto
  finally show ?thesis .
qed

lemma turn_less:
  assumes "r \<in> set rows" "delivery_due now r" "dr_webhook_id r = dr_webhook_id s" "place r < place s"
  shows "turn now rows r < turn now rows s"
proof -
  have "length (filter (\<lambda>x. delivery_due now x \<and> dr_webhook_id x = dr_webhook_id r \<and> place x < place r) rows)
      < length (filter (\<lambda>x. delivery_due now x \<and> dr_webhook_id x = dr_webhook_id s \<and> place x < place s) rows)"
    using assms by (intro filter_shorter [where x = r]) auto
  then show ?thesis by (simp add: turn_def)
qed

lemma turn_inj:
  assumes "distinct (map dr_id rows)" "r \<in> set rows" "s \<in> set rows" "delivery_due now r" "delivery_due now s"
    "dr_webhook_id r = dr_webhook_id s" "turn now rows r = turn now rows s"
  shows "r = s"
proof (rule ccontr)
  assume "r \<noteq> s"
  then have "dr_id r \<noteq> dr_id s" using assms(1-3) same_id_same_row by metis
  then have "place r < place s \<or> place s < place r" by auto
  then show False using turn_less assms by (metis less_irrefl)
qed

text \<open>The first of a subscription's due notifications has turn 1.\<close>

lemma first_turn:
  assumes "r \<in> set rows" "delivery_due now r"
  shows "\<exists>f \<in> set rows. delivery_due now f \<and> dr_webhook_id f = dr_webhook_id r \<and> turn now rows f = 1"
proof -
  let ?S = "{x \<in> set rows. delivery_due now x \<and> dr_webhook_id x = dr_webhook_id r}"
  define f where "f = arg_min_on place ?S"
  have S: "finite ?S" "?S \<noteq> {}" using assms by auto
  have f: "f \<in> ?S" unfolding f_def using S by (rule arg_min_if_finite(1))
  have "\<not> place x < place f" if "x \<in> ?S" for x
    unfolding f_def using arg_min_if_finite(2) [OF S, of place] that by blast
  then have "filter (\<lambda>x. delivery_due now x \<and> dr_webhook_id x = dr_webhook_id f \<and> place x < place f) rows = []"
    using f by (auto simp: filter_empty_conv)
  then have "turn now rows f = 1" by (simp add: turn_def)
  with f show ?thesis by blast
qed

section \<open>What a claim returns\<close>

lemma holders_claim:
  assumes "holders dr_claim_token tok rows = []"
  shows "holders dr_claim_token tok (claim_delivery_rows limit per now tok u rows) =
    map (take_delivery tok u now) (filter (\<lambda>r. dr_id r \<in> set (due_batch now limit per rows)) rows)"
proof -
  have "filter (\<lambda>r. dr_claim_token r = Some tok) (map (\<lambda>r. if p r then take_delivery tok u now r else r) xs) =
      map (take_delivery tok u now) (filter p xs)" if "\<forall>r \<in> set xs. dr_claim_token r \<noteq> Some tok" for p xs
    using that by (induction xs) (auto simp: take_delivery_def)
  with assms show ?thesis
    by (simp add: holders_def claim_delivery_rows_def update_where_def filter_empty_conv)
qed

lemma take_sorted_below:
  assumes "sorted (map key xs)" "x \<in> set (take n xs)" "y \<in> set xs" "key y < key x"
  shows "y \<in> set (take n xs)"
proof (rule ccontr)
  assume "y \<notin> set (take n xs)"
  with assms(3) have y: "y \<in> set (drop n xs)" by (metis append_take_drop_id Un_iff set_append)
  have "sorted (map key (take n xs) @ map key (drop n xs))"
    using assms(1) by (metis append_take_drop_id map_append)
  with assms(2) y have "key x \<le> key y" by (auto simp: sorted_append)
  with assms(4) show False by simp
qed

lemma ranked_distinct: "distinct (map dr_id rows) \<Longrightarrow> distinct (map dr_id (ranked now per rows))"
  by (simp add: ranked_def distinct_map_filter distinct_map inj_on_def)

lemma claim_due_mset:
  assumes "distinct (map dr_id rows)" "holders dr_claim_token tok rows = []"
    "claim_due True True now tok limit per lease rows = (Inr ds, rows')"
  shows "mset ds = mset (map (\<lambda>r. delivery_of tok (take_delivery tok (now + lease) now r))
    (take limit (ranked now (if per < 1 then 1 else nat per) rows)))"
proof -
  let ?per = "if per < 1 then 1 else nat per"
  let ?T = "take limit (ranked now ?per rows)"
  let ?R = "filter (\<lambda>r. dr_id r \<in> set (due_batch now limit ?per rows)) rows"
  have T: "set ?T \<subseteq> set rows" using ranked_row by (meson in_set_takeD subsetI)
  have "set ?R = set ?T"
  proof (intro equalityI subsetI)
    fix r assume "r \<in> set ?R"
    then obtain t where "t \<in> set ?T" "dr_id t = dr_id r" "r \<in> set rows" by (auto simp: due_batch_def)
    then show "r \<in> set ?T" using T assms(1) same_id_same_row by (metis subsetD)
  qed (use T in \<open>auto simp: due_batch_def\<close>)
  moreover have "distinct ?R" "distinct ?T"
    using assms(1) ranked_distinct [OF assms(1), of now ?per] by (auto simp: distinct_map)
  ultimately have "mset ?R = mset ?T" using set_eq_iff_mset_eq_distinct by blast
  moreover have "mset ds = image_mset (\<lambda>r. delivery_of tok (take_delivery tok (now + lease) now r)) (mset ?R)"
    using assms(2,3) by (auto simp: claim_due_def Let_def holders_claim image_mset.compositionality comp_def)
  ultimately show ?thesis by simp
qed

lemma delivery_of_taken [simp]:
  "wd_id (delivery_of tok (take_delivery tok' u now r)) = dr_id r"
  "wd_webhook_id (delivery_of tok (take_delivery tok' u now r)) = dr_webhook_id r"
  "wd_created_at (delivery_of tok (take_delivery tok' u now r)) = dr_created_at r"
  by (simp_all add: delivery_of_def take_delivery_def)

lemma length_filter_mset: "mset xs = mset ys \<Longrightarrow> length (filter P xs) = length (filter P ys)"
  by (metis mset_filter size_mset)

lemma turns_capped:
  assumes "distinct (map dr_id rows)"
  shows "length (filter (\<lambda>r. dr_webhook_id r = w) (take limit (ranked now per rows))) \<le> per"
proof -
  let ?F = "filter (\<lambda>r. dr_webhook_id r = w) (take limit (ranked now per rows))"
  have mem: "r \<in> set rows \<and> delivery_due now r \<and> turn now rows r \<le> per \<and> dr_webhook_id r = w" if "r \<in> set ?F" for r
    using that ranked_row [of r now per rows] in_set_takeD [of r limit "ranked now per rows"] by auto
  have "distinct ?F" using ranked_distinct [OF assms, of now per] by (simp add: distinct_map)
  then have "length ?F = card (set ?F)" by (rule distinct_card [symmetric])
  also have "\<dots> = card (turn now rows ` set ?F)"
    using turn_inj [OF assms] mem by (intro card_image [symmetric] inj_onI) metis
  also have "\<dots> \<le> card {1..per}"
    using mem by (intro card_mono) (auto simp: turn_def Suc_le_eq)
  finally show ?thesis by simp
qed

text \<open>When a due row is left out of the batch the batch is full, and every row in it comes no later.\<close>

lemma left_out:
  assumes "f \<in> set (ranked now per rows)" "f \<notin> set (take limit (ranked now per rows))"
  shows "length (take limit (ranked now per rows)) = limit"
    and "t \<in> set (take limit (ranked now per rows)) \<Longrightarrow> turn now rows t \<le> turn now rows f"
proof -
  show "length (take limit (ranked now per rows)) = limit"
  proof (rule ccontr)
    assume "length (take limit (ranked now per rows)) \<noteq> limit"
    then have "take limit (ranked now per rows) = ranked now per rows" by simp
    with assms show False by simp
  qed
  assume t: "t \<in> set (take limit (ranked now per rows))"
  have "sorted (map (\<lambda>r. (turn now rows r, dr_created_at r)) (ranked now per rows))" by (simp add: ranked_def)
  then have "\<not> (turn now rows f, dr_created_at f) < (turn now rows t, dr_created_at t)"
    using take_sorted_below [OF _ t assms(1)] assms(2) by blast
  then show "turn now rows t \<le> turn now rows f" by auto
qed

text \<open>
  C17. A claim of notifications is fair. It takes no more than the limit, and no more of any one
  subscription than its share; of each subscription it takes the oldest due ones; and a subscription
  that has a notification due is left out only when the batch is full with one notification each from
  as many other subscriptions.
\<close>

theorem claim_fair:
  assumes "distinct (map dr_id rows)" "holders dr_claim_token tok rows = []"
    "claim_due True True now tok limit per lease rows = (Inr ds, rows')"
  shows "length ds \<le> limit \<and>
    (\<forall>w. length (filter (\<lambda>d. wd_webhook_id d = w) ds) \<le> max 1 (nat per)) \<and>
    (\<forall>d \<in> set ds. \<forall>r \<in> set rows. delivery_due now r \<and> dr_webhook_id r = wd_webhook_id d \<and>
       (dr_created_at r, dr_id r) < (wd_created_at d, wd_id d) \<longrightarrow> dr_id r \<in> wd_id ` set ds) \<and>
    (\<forall>r \<in> set rows. delivery_due now r \<and> (\<forall>d \<in> set ds. wd_webhook_id d \<noteq> dr_webhook_id r) \<longrightarrow>
       length ds = limit \<and> distinct (map wd_webhook_id ds))"
proof -
  define p where "p = (if per < 1 then 1 else nat per)"
  define T where "T = take limit (ranked now p rows)"
  let ?d = "\<lambda>r. delivery_of tok (take_delivery tok (now + lease) now r)"
  have ms: "mset ds = mset (map ?d T)" unfolding T_def p_def by (rule claim_due_mset [OF assms])
  then have set: "set ds = ?d ` set T" by (metis list.set_map set_mset_mset)
  have len: "length ds = length T" using ms by (metis length_map size_mset)
  have p: "1 \<le> p" "p = max 1 (nat per)" by (auto simp: p_def)
  have T: "t \<in> set rows \<and> delivery_due now t \<and> turn now rows t \<le> p" if "t \<in> set T" for t
    using that ranked_row in_set_takeD unfolding T_def by metis
  have "length (filter (\<lambda>d. wd_webhook_id d = w) ds) \<le> max 1 (nat per)" for w
    using length_filter_mset [OF ms, of "\<lambda>d. wd_webhook_id d = w"] turns_capped [OF assms(1), of w limit now p] p(2)
    by (simp add: filter_map comp_def T_def)
  moreover have "dr_id r \<in> wd_id ` set ds"
    if d: "d \<in> set ds" and r: "r \<in> set rows" "delivery_due now r" "dr_webhook_id r = wd_webhook_id d"
      "(dr_created_at r, dr_id r) < (wd_created_at d, wd_id d)" for d r
  proof -
    obtain t where t: "t \<in> set T" "d = ?d t" using d set by blast
    have lt: "turn now rows r < turn now rows t" using r t(2) by (intro turn_less) auto
    then have "r \<in> set (ranked now p rows)" using r T [OF t(1)] by (simp add: ranked_row)
    then have "r \<in> set T" using left_out(2) [of r now p rows limit t] t(1) lt unfolding T_def by fastforce
    then show ?thesis unfolding set by force
  qed
  moreover have "length ds = limit \<and> distinct (map wd_webhook_id ds)"
    if r: "r \<in> set rows" "delivery_due now r" and out: "\<forall>d \<in> set ds. wd_webhook_id d \<noteq> dr_webhook_id r" for r
  proof -
    obtain f where f: "f \<in> set rows" "delivery_due now f" "dr_webhook_id f = dr_webhook_id r" "turn now rows f = 1"
      using first_turn [OF r] by blast
    have "f \<notin> set T" using out f(3) unfolding set by auto
    note lo = left_out [OF _ this [unfolded T_def]]
    have fr: "f \<in> set (ranked now p rows)" using f p(1) by (simp add: ranked_row)
    have one: "turn now rows t = 1" if "t \<in> set T" for t
      using lo(2) [OF fr that [unfolded T_def]] f(4) by (simp add: turn_def)
    have "inj_on dr_webhook_id (set T)"
      using turn_inj [OF assms(1)] T one by (intro inj_onI) metis
    moreover have "distinct T" using ranked_distinct [OF assms(1), of now p] by (simp add: T_def distinct_map)
    ultimately have "distinct (map dr_webhook_id T)" by (simp add: distinct_map)
    moreover have "mset (map wd_webhook_id ds) = mset (map dr_webhook_id T)"
      using arg_cong [OF ms, of "image_mset wd_webhook_id"] by (simp add: image_mset.compositionality comp_def)
    ultimately have "distinct (map wd_webhook_id ds)" using mset_eq_imp_distinct_iff by blast
    with lo(1) [OF fr] len show ?thesis by (simp add: T_def)
  qed
  ultimately show ?thesis using len by (auto simp: T_def)
qed

section \<open>Runs\<close>

datatype delivery_op =
    DCreate bool time webhook_delivery
  | DClaim bool bool time string nat int duration
  | DUpdate bool bool time webhook_delivery
  | DDefer bool string time time
  | DDelete bool string
  | DPrune bool bool time

primrec delivery_queue_step :: "delivery_op \<Rightarrow> delivery_row list \<Rightarrow> delivery_row list" where
  "delivery_queue_step (DCreate ok now d) rows = snd (delivery_create ok now d rows)"
| "delivery_queue_step (DClaim ex rd now tok limit per lease) rows = snd (claim_due ex rd now tok limit per lease rows)"
| "delivery_queue_step (DUpdate ok cok now d) rows = snd (delivery_update ok cok now d rows)"
| "delivery_queue_step (DDefer ok wid until now) rows = snd (defer_subscription ok wid until now rows)"
| "delivery_queue_step (DDelete ok i) rows = snd (delivery_delete ok i rows)"
| "delivery_queue_step (DPrune ok cok older) rows = snd (delivery_prune_terminal ok cok older rows)"

lemma distinct_updated:
  "(\<And>r. dr_id (f r) = dr_id r) \<Longrightarrow> distinct (map dr_id (update_where p f rows)) = distinct (map dr_id rows)"
  by (simp add: map_update_where)

interpretation delivery_ids: invariant_steps delivery_queue_step "\<lambda>_. True" "\<lambda>rows. distinct (map dr_id rows)"
proof
  fix op and rows :: "delivery_row list"
  assume "distinct (map dr_id rows)"
  then show "distinct (map dr_id (delivery_queue_step op rows))"
    by (cases op) (auto simp: delivery_create_def claim_due_def delivery_update_def defer_subscription_def
      delivery_delete_def delivery_prune_terminal_def Let_def distinct_updated distinct_delete_where)
qed

primrec claims_under :: "string \<Rightarrow> delivery_op \<Rightarrow> bool" where
  "claims_under tok (DCreate ok now d) = False"
| "claims_under tok (DClaim ex rd now tok' limit per lease) = (tok' = tok)"
| "claims_under tok (DUpdate ok cok now d) = False"
| "claims_under tok (DDefer ok wid until now) = False"
| "claims_under tok (DDelete ok i) = False"
| "claims_under tok (DPrune ok cok older) = False"

definition not_held :: "string \<Rightarrow> string \<Rightarrow> delivery_row list \<Rightarrow> bool" where
  "not_held i tok rows \<longleftrightarrow> (\<forall>r \<in> set rows. \<not> held_under i tok r)"

lemma not_held_updated:
  "not_held i tok rows \<Longrightarrow> (\<And>r. \<not> held_under i tok r \<Longrightarrow> \<not> held_under i tok (f r)) \<Longrightarrow> not_held i tok (update_where p f rows)"
  by (auto simp: not_held_def set_update_where)

lemma not_held_deleted: "not_held i tok rows \<Longrightarrow> not_held i tok (delete_where p rows)"
  by (simp add: not_held_def in_delete_where)

interpretation stale_claim: invariant_steps delivery_queue_step "\<lambda>op. \<not> claims_under tok op" "not_held i tok"
proof
  fix op and rows :: "delivery_row list"
  assume "\<not> claims_under tok op" "not_held i tok rows"
  then show "not_held i tok (delivery_queue_step op rows)"
  proof (cases op)
    case (DCreate ok now d)
    with \<open>not_held i tok rows\<close> show ?thesis by (auto simp: delivery_create_def Let_def not_held_def held_under_def)
  qed (auto simp: claim_due_def claim_delivery_rows_def delivery_update_def defer_subscription_def
      delivery_delete_def delivery_prune_terminal_def Let_def held_under_def take_delivery_def settle_delivery_def
      intro!: not_held_updated not_held_deleted)
qed

lemma claimed_not_held:
  assumes "distinct (map dr_id rows)" "holders dr_claim_token tok rows = []" "tok \<noteq> tok'"
    "claim_due True True now tok limit per lease rows = (Inr ds, rows')" "d \<in> set ds"
  shows "not_held (wd_id d) tok' rows'"
proof -
  have rows': "rows' = claim_delivery_rows limit (if per < 1 then 1 else nat per) now tok (now + lease) rows"
    using assms(4) by (simp add: claim_due_def Let_def)
  have ds: "set ds = delivery_of tok ` set (holders dr_claim_token tok rows')"
    using assms(4) rows' by (auto simp: claim_due_def Let_def)
  then obtain h where h: "h \<in> set rows'" "dr_claim_token h = Some tok" "wd_id d = dr_id h"
    using assms(5) by (auto simp: holders_def delivery_of_def)
  have dist: "distinct (map dr_id rows')" using assms(1) by (simp add: rows')
  have "\<not> held_under (wd_id d) tok' r" if "r \<in> set rows'" for r
    using same_id_same_row [OF dist that h(1)] h(2,3) assms(3) by (auto simp: held_under_def)
  then show ?thesis by (simp add: not_held_def)
qed

text \<open>
  C19. An outcome reached under a claim that was lost is never written. Once a later claim has returned a
  notification, whatever is done to the queue afterwards, an update under the earlier token changes no
  row and reports the claim lost.
\<close>

theorem stale_outcome_refused:
  assumes "distinct (map dr_id rows)" "holders dr_claim_token tok rows = []"
    "claim_due True True now tok limit per lease rows = (Inr ds, rows')" "d \<in> set ds"
    "wd_id d' = wd_id d" "wd_claim_token d' \<noteq> tok"
    "list_all (\<lambda>op. \<not> claims_under (wd_claim_token d') op) ops"
  shows "snd (delivery_update ok count_ok later d' (run delivery_queue_step ops rows')) = run delivery_queue_step ops rows' \<and>
    (ok \<and> count_ok \<longrightarrow> fst (delivery_update ok count_ok later d' (run delivery_queue_step ops rows')) = Inl ErrClaimLost)"
proof -
  have "not_held (wd_id d') (wd_claim_token d') rows'"
    using claimed_not_held [OF assms(1,2) _ assms(3,4)] assms(5,6) by simp
  then have "not_held (wd_id d') (wd_claim_token d') (run delivery_queue_step ops rows')"
    by (rule stale_claim.run_inv [OF assms(7)])
  then have "affected (held_under (wd_id d') (wd_claim_token d')) (run delivery_queue_step ops rows') = 0"
    by (simp add: affected_0_iff not_held_def)
  then show ?thesis by (simp add: delivery_update_def Let_def update_where_none)
qed

section \<open>Instances\<close>

definition sample_row :: "string \<Rightarrow> string \<Rightarrow> time \<Rightarrow> delivery_row" where
  "sample_row i w created =
     \<lparr>dr_id = i, dr_tenant_id = ''t1'', dr_webhook_id = w, dr_event = ''MAIL_BOUNCED'', dr_payload = ''{}'',
      dr_status = DeliveryStatusPending, dr_attempt_count = 0, dr_next_attempt_at = 0, dr_last_error = [],
      dr_created_at = created, dr_updated_at = created, dr_claim_token = None, dr_claimed_until = None\<rparr>"

definition sample_rows :: "delivery_row list" where
  "sample_rows = [sample_row ''n1'' ''w1'' 1, sample_row ''n2'' ''w1'' 2, sample_row ''n3'' ''w2'' 3]"

definition sample_claimed :: "string \<Rightarrow> time \<Rightarrow> webhook_delivery list" where
  "sample_claimed tok now =
     map (\<lambda>r. delivery_of tok (take_delivery tok (now + 100) now r)) [sample_row ''n1'' ''w1'' 1, sample_row ''n3'' ''w2'' 3]"

lemma sample_claim_due:
  "claim_due True True 10 ''tok'' 2 10 100 sample_rows =
     (Inr (sample_claimed ''tok'' 10), claim_delivery_rows 2 10 10 ''tok'' 110 sample_rows)"
  by code_simp

lemma sample_rows_facts:
  "distinct (map dr_id sample_rows)" "holders dr_claim_token tok sample_rows = []"
  by (simp_all add: sample_rows_def sample_row_def holders_def)

theorem claim_fair_witness:
  "claim_due True True 10 ''tok'' 2 10 100 sample_rows =
     (Inr (sample_claimed ''tok'' 10), claim_delivery_rows 2 10 10 ''tok'' 110 sample_rows) \<and>
   (\<forall>w. length (filter (\<lambda>d. wd_webhook_id d = w) (sample_claimed ''tok'' 10)) \<le> 10)"
  using claim_fair [OF sample_rows_facts sample_claim_due] sample_claim_due by simp

theorem stale_outcome_refused_witness:
  "let d = delivery_of ''old'' (sample_row ''n1'' ''w1'' 1);
       rows = run delivery_queue_step [DDefer True ''w2'' 50 20] (claim_delivery_rows 2 10 10 ''tok'' 110 sample_rows)
   in delivery_update True True 30 d rows = (Inl ErrClaimLost, rows)"
proof -
  let ?d = "delivery_of ''tok'' (take_delivery ''tok'' (10 + 100) 10 (sample_row ''n1'' ''w1'' 1))"
  let ?d' = "delivery_of ''old'' (sample_row ''n1'' ''w1'' 1)"
  have "?d \<in> set (sample_claimed ''tok'' 10)" by (simp add: sample_claimed_def)
  moreover have "wd_id ?d' = wd_id ?d" "wd_claim_token ?d' \<noteq> ''tok''" by (simp_all add: delivery_of_def)
  ultimately show ?thesis
    using stale_outcome_refused [OF sample_rows_facts sample_claim_due, of ?d ?d' "[DDefer True ''w2'' 50 20]" True True 30]
    by (simp add: Let_def prod_eq_iff)
qed

end
