(* ===== verification/Go_Encoding.thy ===== *)
theory Go_Encoding
  imports Go_Prelude
begin

text \<open>
  The encodings of Go's standard library that the sources use: \<open>encoding/hex\<close> and the unpadded
  alphabets of \<open>encoding/base64\<close>. Decoding is as lenient as Go's: line breaks are skipped and the
  unused low bits of a last group are not looked at.
\<close>

section \<open>Hexadecimal\<close>

definition hex_digit :: "nat \<Rightarrow> char" where
  "hex_digit n = (if n < 10 then char_of (48 + n) else char_of (87 + n))"

definition hex_val :: "char \<Rightarrow> nat option" where
  "hex_val c =
     (let n = of_char c :: nat
      in if 48 \<le> n \<and> n \<le> 57 then Some (n - 48)
         else if 97 \<le> n \<and> n \<le> 102 then Some (n - 87)
         else if 65 \<le> n \<and> n \<le> 70 then Some (n - 55)
         else None)"

fun hex_encode :: "string \<Rightarrow> string" where
  "hex_encode [] = []"
| "hex_encode (c # cs) = hex_digit (of_char c div 16) # hex_digit (of_char c mod 16) # hex_encode cs"

fun hex_decode :: "string \<Rightarrow> string option" where
  "hex_decode [] = Some []"
| "hex_decode [c] = None"
| "hex_decode (a # b # cs) =
     (case (hex_val a, hex_val b, hex_decode cs) of
        (Some x, Some y, Some r) \<Rightarrow> Some (char_of (x * 16 + y) # r)
      | _ \<Rightarrow> None)"


lemma hex_val_digit [simp]: "n < 16 \<Longrightarrow> hex_val (hex_digit n) = Some n"
  by (cases "n < 10") (auto simp: hex_val_def hex_digit_def Let_def)

lemma of_char_less [simp]: "(of_char c :: nat) < 256"
  by simp

lemma hex_round_trip: "hex_decode (hex_encode s) = Some s"
proof (induction s)
  case (Cons c s)
  have "(of_char c :: nat) div 16 < 16" using of_char_less [of c] by (simp add: less_mult_imp_div_less)
  with Cons show ?case by simp
qed simp

section \<open>Base64\<close>

definition b64_alphabet :: string where
  "b64_alphabet = ''ABCDEFGHIJKLMNOPQRSTUVWXYZabcdefghijklmnopqrstuvwxyz0123456789+/''"

definition b64_url_alphabet :: string where
  "b64_url_alphabet = ''ABCDEFGHIJKLMNOPQRSTUVWXYZabcdefghijklmnopqrstuvwxyz0123456789-_''"

fun b64_groups :: "string \<Rightarrow> nat list" where
  "b64_groups [] = []"
| "b64_groups [a] = (let n = of_char a * 16 in [n div 64, n mod 64])"
| "b64_groups [a, b] = (let n = of_char a * 1024 + of_char b * 4 in [n div 4096, n div 64 mod 64, n mod 64])"
| "b64_groups (a # b # c # s) =
     (let n = of_char a * 65536 + of_char b * 256 + of_char c
      in n div 262144 # n div 4096 mod 64 # n div 64 mod 64 # n mod 64 # b64_groups s)"

fun b64_bytes :: "nat list \<Rightarrow> string option" where
  "b64_bytes [] = Some []"
| "b64_bytes [w] = None"
| "b64_bytes [w, x] = (let n = w * 64 + x in Some [char_of (n div 16)])"
| "b64_bytes [w, x, y] =
     (let n = w * 4096 + x * 64 + y in Some [char_of (n div 1024), char_of (n div 4 mod 256)])"
| "b64_bytes (w # x # y # z # s) =
     (let n = w * 262144 + x * 4096 + y * 64 + z
      in map_option (\<lambda>r. char_of (n div 65536) # char_of (n div 256 mod 256) # char_of (n mod 256) # r) (b64_bytes s))"

definition b64_val :: "string \<Rightarrow> char \<Rightarrow> nat option" where
  "b64_val alphabet c = map_of (zip alphabet [0..<64]) c"

definition b64_encode :: "string \<Rightarrow> string \<Rightarrow> string" where
  "b64_encode alphabet s = map (\<lambda>n. alphabet ! n) (b64_groups s)"

definition b64_decode :: "string \<Rightarrow> string \<Rightarrow> string option" where
  "b64_decode alphabet s =
     (let vals = map (b64_val alphabet) (filter (\<lambda>c. of_char c \<noteq> (10 :: nat) \<and> of_char c \<noteq> (13 :: nat)) s)
      in if None \<in> set vals then None else b64_bytes (map the vals))"

text \<open>An alphabet: 64 different characters, none of them a line break.\<close>

definition alphabet_ok :: "string \<Rightarrow> bool" where
  "alphabet_ok alphabet \<longleftrightarrow>
     distinct alphabet \<and> length alphabet = 64 \<and>
     list_all (\<lambda>c. of_char c \<noteq> (10 :: nat) \<and> of_char c \<noteq> (13 :: nat)) alphabet"

lemma alphabets_ok [simp]: "alphabet_ok b64_alphabet" "alphabet_ok b64_url_alphabet"
  by code_simp+

lemma b64_groups_less: "\<forall>n \<in> set (b64_groups s). n < 64"
proof (induction s rule: b64_groups.induct)
  case (2 a)
  have "(of_char a :: nat) * 16 div 64 < 64" using of_char_less [of a] by (intro less_mult_imp_div_less) linarith
  then show ?case by (simp only: b64_groups.simps Let_def) simp
next
  case (3 a b)
  have "((of_char a :: nat) * 1024 + of_char b * 4) div 4096 < 64"
    using of_char_less [of a] of_char_less [of b] by (intro less_mult_imp_div_less) linarith
  then show ?case by (simp only: b64_groups.simps Let_def) simp
next
  case (4 a b c s)
  have "((of_char a :: nat) * 65536 + of_char b * 256 + of_char c) div 262144 < 64"
    using of_char_less [of a] of_char_less [of b] of_char_less [of c] by (intro less_mult_imp_div_less) linarith
  with 4 show ?case by (simp only: b64_groups.simps Let_def) simp
qed simp

lemma base_64_digits:
  fixes n :: nat
  shows "n div 4096 * 4096 + n div 64 mod 64 * 64 + n mod 64 = n"
    and "n div 262144 * 262144 + n div 4096 mod 64 * 4096 + n div 64 mod 64 * 64 + n mod 64 = n"
proof -
  have *: "q1 * 4096 + r1 * 64 + r = n \<and> q2 * 262144 + r2 * 4096 + r1 * 64 + r = n"
    if "q * 64 + r = n" "q1 * 64 + r1 = q" "q2 * 64 + r2 = q1" for q r q1 r1 q2 r2 :: nat
    using that by linarith
  have d: "n div 4096 = n div 64 div 64" "n div 262144 = n div 64 div 64 div 64"
    by (simp_all add: div_mult2_eq [symmetric])
  note parts = * [OF div_mult_mod_eq [of n 64] div_mult_mod_eq [of "n div 64" 64] div_mult_mod_eq [of "n div 64 div 64" 64]]
  show "n div 4096 * 4096 + n div 64 mod 64 * 64 + n mod 64 = n"
    unfolding d(1) using parts by (rule conjunct1)
  show "n div 262144 * 262144 + n div 4096 mod 64 * 4096 + n div 64 mod 64 * 64 + n mod 64 = n"
    unfolding d(2) unfolding d(1) using parts by (rule conjunct2)
qed

lemma byte_parts:
  fixes a b c :: nat
  assumes "b < 256" "c < 256"
  shows "(a * 1024 + b * 4) div 1024 = a" "(a * 1024 + b * 4) div 4 mod 256 = b"
    "(a * 65536 + b * 256 + c) div 65536 = a" "(a * 65536 + b * 256 + c) div 256 mod 256 = b"
    "(a * 65536 + b * 256 + c) mod 256 = c"
proof -
  have "(a * 1024 + b * 4) div 4 = a * 256 + b" by simp
  with assms(1) show "(a * 1024 + b * 4) div 4 mod 256 = b" by simp
  have "(a * 65536 + b * 256 + c) div 256 = a * 256 + b" using assms(2) by (simp add: div_nat_eqI)
  with assms(1) show "(a * 65536 + b * 256 + c) div 256 mod 256 = b" by simp
  have "a * 65536 + b * 256 + c = c + (a * 256 + b) * 256" by simp
  then show "(a * 65536 + b * 256 + c) mod 256 = c" using assms(2) by (simp only: mod_mult_self1 mod_less)
qed (use assms in \<open>simp_all add: div_nat_eqI\<close>)

lemma b64_bytes_groups: "b64_bytes (b64_groups s) = Some s"
proof (induction s rule: b64_groups.induct)
  case (2 a)
  have "(x * 16 div 64 * 64 + x * 16 mod 64) div 16 = x" for x :: nat unfolding div_mult_mod_eq by simp
  then show ?case by (simp only: b64_groups.simps b64_bytes.simps Let_def char_of_char)
next
  case (3 a b)
  show ?case
    by (simp only: b64_groups.simps b64_bytes.simps Let_def base_64_digits byte_parts [OF of_char_less of_char_less] char_of_char)
next
  case (4 a b c s)
  then show ?case
    by (simp only: b64_groups.simps b64_bytes.simps Let_def base_64_digits byte_parts [OF of_char_less of_char_less]
      char_of_char option.map)
qed simp

lemma b64_val_nth: "alphabet_ok alphabet \<Longrightarrow> n < 64 \<Longrightarrow> b64_val alphabet (alphabet ! n) = Some n"
  unfolding b64_val_def alphabet_ok_def
  by (subst map_of_zip_nth) auto

lemma b64_round_trip:
  assumes "alphabet_ok alphabet"
  shows "b64_decode alphabet (b64_encode alphabet s) = Some s"
proof -
  let ?g = "b64_groups s"
  have kept: "filter (\<lambda>c. of_char c \<noteq> (10 :: nat) \<and> of_char c \<noteq> (13 :: nat)) (b64_encode alphabet s) = b64_encode alphabet s"
    using assms b64_groups_less [of s]
    by (auto simp: b64_encode_def alphabet_ok_def list_all_iff filter_id_conv)
  have vals: "map (b64_val alphabet) (b64_encode alphabet s) = map Some ?g"
    using b64_val_nth [OF assms] b64_groups_less [of s] by (simp add: b64_encode_def)
  show ?thesis by (simp add: b64_decode_def kept vals b64_bytes_groups comp_def image_iff)
qed

lemma b64_encode_chars: "alphabet_ok alphabet \<Longrightarrow> c \<in> set (b64_encode alphabet s) \<Longrightarrow> c \<in> set alphabet"
  using b64_groups_less [of s] by (auto simp: b64_encode_def alphabet_ok_def)

lemma b64_encode_Nil [simp]: "b64_encode alphabet s = [] \<longleftrightarrow> s = []"
  by (cases s rule: b64_groups.cases) (auto simp: b64_encode_def Let_def)

end
