(* ===== verification/Go_Numbers.thy ===== *)
theory Go_Numbers
  imports Go_Prelude
begin

text \<open>
  Decimal numbers as \<open>strconv\<close> writes and reads them: \<open>Itoa\<close>, \<open>FormatInt\<close> and \<open>%d\<close>, and \<open>Atoi\<close>, which takes
  an optional sign and digits and refuses what does not fit 64 bits.
\<close>

definition show_int :: "int \<Rightarrow> string" where
  "show_int n = (if n < 0 then ''-'' @ show_nat (nat (- n)) else show_nat (nat n))"

definition digit_val :: "char \<Rightarrow> nat option" where
  "digit_val c = (let n = of_char c :: nat in if 48 \<le> n \<and> n \<le> 57 then Some (n - 48) else None)"

fun read_digits :: "nat \<Rightarrow> string \<Rightarrow> nat option" where
  "read_digits acc [] = Some acc"
| "read_digits acc (c # cs) = (case digit_val c of None \<Rightarrow> None | Some d \<Rightarrow> read_digits (acc * 10 + d) cs)"

definition in_int64 :: "int \<Rightarrow> bool" where
  "in_int64 n \<longleftrightarrow> - 9223372036854775808 \<le> n \<and> n \<le> 9223372036854775807"

definition atoi :: "string \<Rightarrow> int option" where
  "atoi s =
     (let (neg, ds) = (case s of c # cs \<Rightarrow> if c = CHR ''-'' then (True, cs) else if c = CHR ''+'' then (False, cs) else (False, s)
                                | [] \<Rightarrow> (False, s))
      in if ds = [] then None
         else case read_digits 0 ds of
           None \<Rightarrow> None
         | Some n \<Rightarrow> let v = (if neg then - int n else int n) in if in_int64 v then Some v else None)"

lemma digit_val_char [simp]: "k < 10 \<Longrightarrow> digit_val (char_of (48 + k)) = Some k"
  by (simp add: digit_val_def Let_def)

lemma read_digits_append: "read_digits acc (xs @ ys) = (case read_digits acc xs of None \<Rightarrow> None | Some n \<Rightarrow> read_digits n ys)"
  by (induction xs arbitrary: acc) (auto split: option.splits)

lemma read_show_nat: "read_digits 0 (show_nat n) = Some n"
proof (induction n rule: show_nat.induct)
  case (1 n)
  then show ?case by (subst show_nat.simps) (auto simp: read_digits_append)
qed

lemma show_nat_digit: "c \<in> set (show_nat n) \<Longrightarrow> digit_val c \<noteq> None"
proof (induction n rule: show_nat.induct)
  case (1 n)
  then show ?case by (subst (asm) show_nat.simps) (auto split: if_splits)
qed

lemma show_nat_not_Nil [simp]: "show_nat n \<noteq> []"
  by (subst show_nat.simps) simp

lemma digit_val_marks [simp]: "digit_val (CHR ''-'') = None" "digit_val (CHR ''+'') = None" "digit_val (CHR ''.'') = None"
  by (simp_all add: digit_val_def)

lemma show_nat_head:
  obtains c cs where "show_nat n = c # cs" "c \<noteq> CHR ''-''" "c \<noteq> CHR ''+''"
proof (cases "show_nat n")
  case (Cons c cs)
  then have "digit_val c \<noteq> None" using show_nat_digit [of c n] by simp
  then have "c \<noteq> CHR ''-''" "c \<noteq> CHR ''+''" by auto
  with Cons show ?thesis by (rule that)
qed simp

lemma atoi_show_int: "in_int64 n \<Longrightarrow> atoi (show_int n) = Some n"
proof -
  assume n: "in_int64 n"
  obtain c cs where c: "show_nat (nat n) = c # cs" "c \<noteq> CHR ''-''" "c \<noteq> CHR ''+''" by (rule show_nat_head)
  show ?thesis
  proof (cases "n < 0")
    case True
    with n show ?thesis by (simp add: atoi_def show_int_def read_show_nat)
  next
    case False
    with n c read_show_nat [of "nat n"] show ?thesis by (simp add: atoi_def show_int_def)
  qed
qed

lemma show_nat_inject [simp]: "show_nat m = show_nat n \<longleftrightarrow> m = n"
  using read_show_nat by (metis option.inject)

lemma show_int_inject [simp]: "show_int m = show_int n \<longleftrightarrow> m = n"
proof
  assume eq: "show_int m = show_int n"
  obtain c cs d ds where "show_nat (nat m) = c # cs" "c \<noteq> CHR ''-''" "show_nat (nat n) = d # ds" "d \<noteq> CHR ''-''"
    using show_nat_head by metis
  then have "(m < 0) = (n < 0)" using eq by (auto simp: show_int_def split: if_splits)
  with eq show "m = n" by (cases "m < 0") (auto simp: show_int_def)
qed simp

lemma show_int_no_dot: "CHR ''.'' \<notin> set (show_int n)"
  using show_nat_digit [of "CHR ''.''"] by (auto simp: show_int_def)

end
