(* ===== verification/Secrets.thy ===== *)
theory Secrets
  imports Go_Encoding
begin

text \<open>
  The keyring of \<open>pkg/secrets/keyring.go\<close>: stored credentials are sealed with one key and read with
  several. A key is its 32 bytes. AES-GCM and SHA-256 are parameters; what is relied on is that
  opening what was sealed under the same key and nonce gives the plaintext back. The random nonce of
  an encryption is an argument, absent when the system's random source fails.
\<close>

section \<open>Keys\<close>

record crypto =
  cr_digest :: "string \<Rightarrow> string"
  cr_seal :: "string \<Rightarrow> string \<Rightarrow> string \<Rightarrow> string"
  cr_open :: "string \<Rightarrow> string \<Rightarrow> string \<Rightarrow> string option"

record key_entry =
  ke_id :: string
  ke_key :: string

record key_set =
  kr_primary :: key_entry
  kr_retired :: "key_entry list"

datatype secret_error =
    ErrNoKey | ErrInvalidKey | RetiredKeyInvalid | NoRandomness | NoKeyIdentifier | UnknownFormat | NotBase64
  | KeyNotConfigured string | SecretTooShort | WrongKey string | NoKeyOpens

definition nonce_size :: nat where "nonce_size = 12"

definition key_id :: "crypto \<Rightarrow> string \<Rightarrow> string" where
  "key_id cr key = hex_encode (take 4 (cr_digest cr key))"

definition new_entry :: "crypto \<Rightarrow> string \<Rightarrow> (secret_error, key_entry) result" where
  "new_entry cr key_hex =
     (case hex_decode (trim_space key_hex) of
        None \<Rightarrow> Inl ErrInvalidKey
      | Some key \<Rightarrow> if length key \<noteq> 32 then Inl ErrInvalidKey else Inr \<lparr>ke_id = key_id cr key, ke_key = key\<rparr>)"

fun retired_entries :: "crypto \<Rightarrow> string \<Rightarrow> string list \<Rightarrow> (secret_error, key_entry list) result" where
  "retired_entries cr primary_id [] = Inr []"
| "retired_entries cr primary_id (h # hs) =
     (if trim_space h = [] then retired_entries cr primary_id hs
      else case new_entry cr h of
        Inl e \<Rightarrow> Inl RetiredKeyInvalid
      | Inr entry \<Rightarrow>
          (case retired_entries cr primary_id hs of
             Inl e \<Rightarrow> Inl e
           | Inr es \<Rightarrow> Inr (if ke_id entry = primary_id then es else entry # es)))"

definition new_keyring :: "crypto \<Rightarrow> string \<Rightarrow> string list \<Rightarrow> (secret_error, key_set) result" where
  "new_keyring cr primary_hex retired_hex =
     (case new_entry cr primary_hex of
        Inl e \<Rightarrow> Inl e
      | Inr p \<Rightarrow>
          (case retired_entries cr (ke_id p) retired_hex of
             Inl e \<Rightarrow> Inl e
           | Inr es \<Rightarrow> Inr \<lparr>kr_primary = p, kr_retired = es\<rparr>))"

definition parse_retired_keys :: "string \<Rightarrow> string list" where
  "parse_retired_keys v = filter (\<lambda>p. p \<noteq> []) (map trim_space (split_on (CHR '','') v))"

definition primary_key_id :: "key_set option \<Rightarrow> string" where
  "primary_key_id k = (case k of None \<Rightarrow> [] | Some ks \<Rightarrow> ke_id (kr_primary ks))"

section \<open>Sealing and opening\<close>

definition cipher_prefix_v1 :: string where "cipher_prefix_v1 = ''enc:v1:''"
definition cipher_prefix_v2 :: string where "cipher_prefix_v2 = ''enc:v2:''"

definition is_encrypted :: "string \<Rightarrow> bool" where
  "is_encrypted v \<longleftrightarrow> prefix cipher_prefix_v1 v \<or> prefix cipher_prefix_v2 v"

definition encrypt :: "crypto \<Rightarrow> key_set option \<Rightarrow> string option \<Rightarrow> string \<Rightarrow> (secret_error, string) result" where
  "encrypt cr k nonce plaintext =
     (if plaintext = [] then Inr []
      else case k of
        None \<Rightarrow> Inl ErrNoKey
      | Some ks \<Rightarrow>
          (case nonce of
             None \<Rightarrow> Inl NoRandomness
           | Some n \<Rightarrow>
               Inr (cipher_prefix_v2 @ ke_id (kr_primary ks) @ '':'' @
                    b64_encode b64_alphabet (n @ cr_seal cr (ke_key (kr_primary ks)) n plaintext))))"

text \<open>\<open>strings.Cut\<close> at the first colon.\<close>

definition cut_colon :: "string \<Rightarrow> (string \<times> string) option" where
  "cut_colon s = (case index_of (CHR '':'') s of None \<Rightarrow> None | Some i \<Rightarrow> Some (take i s, drop (Suc i) s))"

definition decode_payload :: "string \<Rightarrow> string \<Rightarrow> (secret_error, string \<times> string) result" where
  "decode_payload i encoded =
     (case b64_decode b64_alphabet encoded of None \<Rightarrow> Inl NotBase64 | Some raw \<Rightarrow> Inr (i, raw))"

definition split_secret :: "string \<Rightarrow> (secret_error, string \<times> string) result" where
  "split_secret v =
     (if prefix cipher_prefix_v2 v
      then (case cut_colon (drop (length cipher_prefix_v2) v) of
              None \<Rightarrow> Inl NoKeyIdentifier
            | Some (i, encoded) \<Rightarrow> decode_payload i encoded)
      else if prefix cipher_prefix_v1 v then decode_payload [] (drop (length cipher_prefix_v1) v)
      else Inl UnknownFormat)"

definition open_secret :: "crypto \<Rightarrow> key_entry \<Rightarrow> string \<Rightarrow> (secret_error, string) result" where
  "open_secret cr entry raw =
     (if length raw < nonce_size then Inl SecretTooShort
      else case cr_open cr (ke_key entry) (take nonce_size raw) (drop nonce_size raw) of
        None \<Rightarrow> Inl (WrongKey (ke_id entry))
      | Some p \<Rightarrow> Inr p)"

definition entry_for :: "string \<Rightarrow> key_set \<Rightarrow> key_entry option" where
  "entry_for i ks =
     (if ke_id (kr_primary ks) = i then Some (kr_primary ks) else find (\<lambda>e. ke_id e = i) (kr_retired ks))"

fun open_any :: "crypto \<Rightarrow> key_entry list \<Rightarrow> string \<Rightarrow> (secret_error, string) result" where
  "open_any cr [] raw = Inl NoKeyOpens"
| "open_any cr (e # es) raw = (case open_secret cr e raw of Inr p \<Rightarrow> Inr p | Inl _ \<Rightarrow> open_any cr es raw)"

definition decrypt :: "crypto \<Rightarrow> key_set option \<Rightarrow> string \<Rightarrow> (secret_error, string) result" where
  "decrypt cr k v =
     (if v = [] then Inr []
      else if \<not> is_encrypted v then Inr v
      else case k of
        None \<Rightarrow> Inl ErrNoKey
      | Some ks \<Rightarrow>
          (case split_secret v of
             Inl e \<Rightarrow> Inl e
           | Inr (i, raw) \<Rightarrow>
               if i \<noteq> []
               then (case entry_for i ks of None \<Rightarrow> Inl (KeyNotConfigured i) | Some e \<Rightarrow> open_secret cr e raw)
               else open_any cr (kr_primary ks # kr_retired ks) raw))"

definition needs_rotation :: "key_set option \<Rightarrow> string \<Rightarrow> bool" where
  "needs_rotation k v =
     (case k of
        None \<Rightarrow> False
      | Some ks \<Rightarrow>
          v \<noteq> [] \<and> is_encrypted v \<and>
          (case split_secret v of Inl e \<Rightarrow> False | Inr (i, raw) \<Rightarrow> i \<noteq> ke_id (kr_primary ks)))"

section \<open>What was sealed can be read\<close>

text \<open>What the code relies on in AES-GCM, and the size of a SHA-256 digest.\<close>

definition sound_crypto :: "crypto \<Rightarrow> bool" where
  "sound_crypto cr \<longleftrightarrow>
     (\<forall>key n p. length n = nonce_size \<longrightarrow> cr_open cr key n (cr_seal cr key n p) = Some p) \<and>
     (\<forall>key. length (cr_digest cr key) = 32)"

text \<open>Key identifiers are hexadecimal: they hold no colon.\<close>

lemma hex_digit_range: "n < 16 \<Longrightarrow> hex_digit n \<noteq> CHR '':''"
  by (cases "n < 10") (auto simp: hex_digit_def dest!: arg_cong [where f = "of_char :: char \<Rightarrow> nat"])

lemma index_of_append: "c \<notin> set s \<Longrightarrow> index_of c (s @ c # t) = Some (length s)"
  by (induction s) auto

lemma cut_colon_append: "CHR '':'' \<notin> set i \<Longrightarrow> cut_colon (i @ '':'' @ t) = Some (i, t)"
  by (simp add: cut_colon_def index_of_append)

lemma split_sealed:
  "CHR '':'' \<notin> set i \<Longrightarrow> split_secret (cipher_prefix_v2 @ i @ '':'' @ b64_encode b64_alphabet raw) = Inr (i, raw)"
  using cut_colon_append [of i "b64_encode b64_alphabet raw"]
  by (simp add: split_secret_def decode_payload_def b64_round_trip)

lemma hex_encode_no_colon: "CHR '':'' \<notin> set (hex_encode s)"
proof (induction s)
  case (Cons c s)
  have "(of_char c :: nat) div 16 < 16" using of_char_less [of c] by (intro less_mult_imp_div_less) linarith
  with Cons hex_digit_range [of "of_char c div 16"] hex_digit_range [of "of_char c mod 16"] show ?case by auto
qed simp

lemma hex_encode_Nil [simp]: "hex_encode s = [] \<longleftrightarrow> s = []"
  by (cases s) simp_all

lemma key_id_shape:
  assumes "sound_crypto cr"
  shows "key_id cr key \<noteq> []" "CHR '':'' \<notin> set (key_id cr key)"
proof -
  have "length (cr_digest cr key) = 32" using assms by (simp add: sound_crypto_def)
  then have "take 4 (cr_digest cr key) \<noteq> []" by (metis length_0_conv take_eq_Nil zero_neq_numeral)
  then show "key_id cr key \<noteq> []" by (simp add: key_id_def)
  show "CHR '':'' \<notin> set (key_id cr key)" by (simp add: key_id_def hex_encode_no_colon)
qed

definition wf_entry :: "crypto \<Rightarrow> key_entry \<Rightarrow> bool" where
  "wf_entry cr e \<longleftrightarrow> ke_id e = key_id cr (ke_key e)"

definition wf_keyring :: "crypto \<Rightarrow> key_set \<Rightarrow> bool" where
  "wf_keyring cr ks \<longleftrightarrow> wf_entry cr (kr_primary ks) \<and> list_all (wf_entry cr) (kr_retired ks)"

lemma new_entry_wf: "new_entry cr h = Inr e \<Longrightarrow> wf_entry cr e"
  by (auto simp: new_entry_def wf_entry_def split: option.splits if_splits)

lemma retired_entries_wf: "retired_entries cr p hs = Inr es \<Longrightarrow> list_all (wf_entry cr) es"
  by (induction cr p hs arbitrary: es rule: retired_entries.induct)
    (auto split: if_splits sum.splits dest: new_entry_wf)

lemma new_keyring_wf: "new_keyring cr h hs = Inr ks \<Longrightarrow> wf_keyring cr ks"
  by (auto simp: new_keyring_def wf_keyring_def split: sum.splits dest: new_entry_wf retired_entries_wf)

text \<open>A sealed value: how it is read back.\<close>

lemma encrypt_value:
  assumes "encrypt cr (Some ks) (Some n) p = Inr v" "p \<noteq> []" "sound_crypto cr" "wf_entry cr (kr_primary ks)"
  shows "is_encrypted v" "v \<noteq> []"
    "split_secret v = Inr (ke_id (kr_primary ks), n @ cr_seal cr (ke_key (kr_primary ks)) n p)"
proof -
  have v: "v = cipher_prefix_v2 @ ke_id (kr_primary ks) @ '':'' @
      b64_encode b64_alphabet (n @ cr_seal cr (ke_key (kr_primary ks)) n p)"
    using assms(1,2) by (simp add: encrypt_def)
  show "is_encrypted v" "v \<noteq> []" by (simp_all add: v is_encrypted_def cipher_prefix_v2_def)
  have "CHR '':'' \<notin> set (ke_id (kr_primary ks))" using assms(3,4) key_id_shape(2) by (simp add: wf_entry_def)
  then show "split_secret v = Inr (ke_id (kr_primary ks), n @ cr_seal cr (ke_key (kr_primary ks)) n p)"
    unfolding v by (rule split_sealed)
qed

lemma open_sealed:
  "sound_crypto cr \<Longrightarrow> length n = nonce_size \<Longrightarrow> open_secret cr e (n @ cr_seal cr (ke_key e) n p) = Inr p"
  by (simp add: open_secret_def sound_crypto_def)

text \<open>
  What the keyring seals it reads back, and so does every keyring that still holds the key that sealed it,
  whether as the primary key or as a retired one.
\<close>

lemma encrypted_readable:
  assumes "sound_crypto cr" "wf_keyring cr ks" "length n = nonce_size"
    "encrypt cr (Some ks) (Some n) p = Inr v" "entry_for (ke_id (kr_primary ks)) ks' = Some (kr_primary ks)"
  shows "decrypt cr (Some ks') v = Inr p"
proof (cases "p = []")
  case True
  with assms(4) show ?thesis by (simp add: encrypt_def decrypt_def)
next
  case False
  have wf: "wf_entry cr (kr_primary ks)" using assms(2) by (simp add: wf_keyring_def)
  note e = encrypt_value [OF assms(4) False assms(1) wf]
  have "ke_id (kr_primary ks) \<noteq> []" using wf key_id_shape(1) [OF assms(1)] by (simp add: wf_entry_def)
  with e show ?thesis by (simp add: decrypt_def assms(5) open_sealed assms(1,3))
qed

text \<open>A cipher that satisfies what is relied on: the sealed text carries the key.\<close>

definition sample_crypto :: crypto where
  "sample_crypto = \<lparr>cr_digest = (\<lambda>key. take 32 (key @ replicate 32 (CHR 0x00))), cr_seal = (\<lambda>key n p. key @ p),
     cr_open = (\<lambda>key n c. if take (length key) c = key then Some (drop (length key) c) else None)\<rparr>"

definition sample_key :: "char \<Rightarrow> string" where
  "sample_key c = hex_encode (replicate 32 c)"

definition sample_entry :: "char \<Rightarrow> key_entry" where
  "sample_entry c = \<lparr>ke_id = hex_encode (replicate 4 c), ke_key = replicate 32 c\<rparr>"

definition sample_nonce :: string where "sample_nonce = replicate 12 (CHR ''n'')"

lemma sample_crypto_sound: "sound_crypto sample_crypto"
  by (simp add: sound_crypto_def sample_crypto_def min_def)

lemma sample_entry_wf: "wf_entry sample_crypto (sample_entry c)"
  by (simp add: wf_entry_def sample_entry_def key_id_def sample_crypto_def)

end
