(* ===== verification/Key_Change.thy ===== *)
theory Key_Change
  imports Secrets
begin

text \<open>
  Replacing the key that stored credentials are sealed with: the \<open>RotateSecrets\<close> of the four stores
  that seal a value (providers, webhooks, Sent copies, SMTP submission), the key settings of
  \<open>internal/config/keys.go\<close>, and \<open>Change\<close> of \<open>internal/system_settings/usecases/data_key.go\<close>.

  A table is the list of its sealed values, in the order the rotation reads them; an update writes the
  row it was read from. The environment of a row is the nonce of each encryption and whether the write
  is carried out.
\<close>

section \<open>Rotating a store\<close>

datatype rotate_error = RotateUnreadable | RotateDecrypt secret_error | RotateEncrypt secret_error | RotateUnwritten

record row_env =
  rn_nonce :: "string option"
  rn_nonce2 :: "string option"
  rn_write_ok :: bool

definition no_env :: row_env where
  "no_env = \<lparr>rn_nonce = None, rn_nonce2 = None, rn_write_ok = False\<rparr>"

definition head_env :: "row_env list \<Rightarrow> row_env" where
  "head_env es = (case es of [] \<Rightarrow> no_env | e # _ \<Rightarrow> e)"

definition reseal :: "crypto \<Rightarrow> key_set \<Rightarrow> string option \<Rightarrow> string \<Rightarrow> (rotate_error, string) result" where
  "reseal cr ks nonce v =
     (case decrypt cr (Some ks) v of
        Inl e \<Rightarrow> Inl (RotateDecrypt e)
      | Inr p \<Rightarrow> (case encrypt cr (Some ks) nonce p of Inl e \<Rightarrow> Inl (RotateEncrypt e) | Inr s \<Rightarrow> Inr s))"

fun rotate_column ::
  "crypto \<Rightarrow> key_set \<Rightarrow> row_env list \<Rightarrow> string list \<Rightarrow> (rotate_error option \<times> nat) \<times> string list" where
  "rotate_column cr ks es [] = ((None, 0), [])"
| "rotate_column cr ks es (v # vs) =
     (if \<not> needs_rotation (Some ks) v
      then (let (res, vs') = rotate_column cr ks (tl es) vs in (res, v # vs'))
      else case reseal cr ks (rn_nonce (head_env es)) v of
        Inl e \<Rightarrow> ((Some e, 0), v # vs)
      | Inr s \<Rightarrow>
          if \<not> rn_write_ok (head_env es) then ((Some RotateUnwritten, 0), v # vs)
          else let ((err, n), vs') = rotate_column cr ks (tl es) vs in ((err, Suc n), s # vs'))"

text \<open>A provider has two sealed columns, the second one optional.\<close>

definition needs_provider_rotation :: "key_set \<Rightarrow> string \<times> string option \<Rightarrow> bool" where
  "needs_provider_rotation ks r \<longleftrightarrow>
     needs_rotation (Some ks) (fst r) \<or> (case snd r of None \<Rightarrow> False | Some s \<Rightarrow> needs_rotation (Some ks) s)"

definition reseal_provider ::
  "crypto \<Rightarrow> key_set \<Rightarrow> row_env \<Rightarrow> string \<times> string option \<Rightarrow> (rotate_error, string \<times> string option) result" where
  "reseal_provider cr ks env r =
     (case reseal cr ks (rn_nonce env) (fst r) of
        Inl e \<Rightarrow> Inl e
      | Inr c \<Rightarrow>
          (case snd r of
             None \<Rightarrow> Inr (c, None)
           | Some s \<Rightarrow>
               if s = [] then Inr (c, Some [])
               else (case reseal cr ks (rn_nonce2 env) s of Inl e \<Rightarrow> Inl e | Inr s' \<Rightarrow> Inr (c, Some s'))))"

fun rotate_providers ::
  "crypto \<Rightarrow> key_set \<Rightarrow> row_env list \<Rightarrow> (string \<times> string option) list
    \<Rightarrow> (rotate_error option \<times> nat) \<times> (string \<times> string option) list" where
  "rotate_providers cr ks es [] = ((None, 0), [])"
| "rotate_providers cr ks es (r # rs) =
     (if \<not> needs_provider_rotation ks r
      then (let (res, rs') = rotate_providers cr ks (tl es) rs in (res, r # rs'))
      else case reseal_provider cr ks (head_env es) r of
        Inl e \<Rightarrow> ((Some e, 0), r # rs)
      | Inr r' \<Rightarrow>
          if \<not> rn_write_ok (head_env es) then ((Some RotateUnwritten, 0), r # rs)
          else let ((err, n), rs') = rotate_providers cr ks (tl es) rs in ((err, Suc n), r' # rs'))"

definition rotate_single ::
  "crypto \<Rightarrow> key_set \<Rightarrow> row_env \<Rightarrow> string option \<Rightarrow> (rotate_error option \<times> nat) \<times> string option" where
  "rotate_single cr ks env row =
     (case row of
        None \<Rightarrow> ((None, 0), None)
      | Some v \<Rightarrow>
          if \<not> needs_rotation (Some ks) v then ((None, 0), Some v)
          else case reseal cr ks (rn_nonce env) v of
            Inl e \<Rightarrow> ((Some e, 0), Some v)
          | Inr s \<Rightarrow> if \<not> rn_write_ok env then ((Some RotateUnwritten, 0), Some v) else ((None, 1), Some s))"

section \<open>Every store that seals a value\<close>

record vault =
  vl_providers :: "(string \<times> string option) list"
  vl_webhooks :: "string list"
  vl_sent_settings :: "string list"
  vl_sent_mailboxes :: "string list"
  vl_smtp :: "string option"

text \<open>Whether each table can be read, and the environments of its rows.\<close>

record rotation_env =
  ro_providers :: "bool \<times> row_env list"
  ro_webhooks :: "bool \<times> row_env list"
  ro_sent_settings :: "bool \<times> row_env list"
  ro_sent_mailboxes :: "bool \<times> row_env list"
  ro_smtp :: "bool \<times> row_env"

type_synonym rotator = "vault \<Rightarrow> (rotate_error option \<times> nat) \<times> vault"

definition rotate_provider_store :: "crypto \<Rightarrow> key_set \<Rightarrow> rotation_env \<Rightarrow> rotator" where
  "rotate_provider_store cr ks env vl =
     (if \<not> fst (ro_providers env) then ((Some RotateUnreadable, 0), vl)
      else let (res, rs) = rotate_providers cr ks (snd (ro_providers env)) (vl_providers vl)
           in (res, vl\<lparr>vl_providers := rs\<rparr>))"

definition rotate_webhook_store :: "crypto \<Rightarrow> key_set \<Rightarrow> rotation_env \<Rightarrow> rotator" where
  "rotate_webhook_store cr ks env vl =
     (if \<not> fst (ro_webhooks env) then ((Some RotateUnreadable, 0), vl)
      else let (res, vs) = rotate_column cr ks (snd (ro_webhooks env)) (vl_webhooks vl)
           in (res, vl\<lparr>vl_webhooks := vs\<rparr>))"

definition rotate_sent_settings :: "crypto \<Rightarrow> key_set \<Rightarrow> rotation_env \<Rightarrow> rotator" where
  "rotate_sent_settings cr ks env vl =
     (if \<not> fst (ro_sent_settings env) then ((Some RotateUnreadable, 0), vl)
      else let (res, vs) = rotate_column cr ks (snd (ro_sent_settings env)) (vl_sent_settings vl)
           in (res, vl\<lparr>vl_sent_settings := vs\<rparr>))"

definition rotate_sent_mailboxes :: "crypto \<Rightarrow> key_set \<Rightarrow> rotation_env \<Rightarrow> rotator" where
  "rotate_sent_mailboxes cr ks env vl =
     (if \<not> fst (ro_sent_mailboxes env) then ((Some RotateUnreadable, 0), vl)
      else let (res, vs) = rotate_column cr ks (snd (ro_sent_mailboxes env)) (vl_sent_mailboxes vl)
           in (res, vl\<lparr>vl_sent_mailboxes := vs\<rparr>))"

definition rotate_smtp_store :: "crypto \<Rightarrow> key_set \<Rightarrow> rotation_env \<Rightarrow> rotator" where
  "rotate_smtp_store cr ks env vl =
     (if \<not> fst (ro_smtp env) then ((Some RotateUnreadable, 0), vl)
      else let (res, v) = rotate_single cr ks (snd (ro_smtp env)) (vl_smtp vl)
           in (res, vl\<lparr>vl_smtp := v\<rparr>))"

text \<open>The rotators in turn; the first error stops the pass, with what was moved so far.\<close>

fun rotate_all :: "rotator list \<Rightarrow> rotator" where
  "rotate_all [] vl = ((None, 0), vl)"
| "rotate_all (r # rs) vl =
     (case r vl of
        ((Some e, n), vl') \<Rightarrow> ((Some e, n), vl')
      | ((None, n), vl') \<Rightarrow> (let ((err, m), vl'') = rotate_all rs vl' in ((err, n + m), vl'')))"

definition rotators :: "crypto \<Rightarrow> key_set \<Rightarrow> rotation_env \<Rightarrow> rotator list" where
  "rotators cr ks env =
     [rotate_provider_store cr ks env, rotate_webhook_store cr ks env,
      rotate_all [rotate_sent_settings cr ks env, rotate_sent_mailboxes cr ks env], rotate_smtp_store cr ks env]"

section \<open>Changing the key\<close>

record key_config =
  kf_data_key :: string
  kf_retired :: "string list"

definition resolve_data_key :: "string \<Rightarrow> key_config option \<Rightarrow> (secret_error, string) result" where
  "resolve_data_key env_key cfg =
     (if env_key \<noteq> [] then Inr env_key
      else case cfg of
        Some c \<Rightarrow> if kf_data_key c \<noteq> [] then Inr (kf_data_key c) else Inl ErrNoKey
      | None \<Rightarrow> Inl ErrNoKey)"

definition retired_data_keys :: "string \<Rightarrow> key_config option \<Rightarrow> string list" where
  "retired_data_keys env_retired cfg =
     parse_retired_keys env_retired @ (case cfg of None \<Rightarrow> [] | Some c \<Rightarrow> kf_retired c)"

text \<open>The configuration file, the keyring every store shares, and the sealed values.\<close>

record key_state =
  kc_config :: "key_config option"
  kc_keyring :: key_set
  kc_vault :: vault

record change_env =
  ce_env_key :: string
  ce_env_retired :: string
  ce_load_ok :: bool
  ce_generated :: "string option"
  ce_save_ok :: bool
  ce_rotation :: rotation_env
  ce_drop_ok :: bool

datatype change_error =
    ErrDataKeyFromEnvironment | ErrDataKeyUnchanged | ConfigUnreadable | NotSetUp | KeyProblem secret_error
  | NewKeyUnsaved | RotationStopped nat rotate_error | OldKeyKept

definition change_key ::
  "crypto \<Rightarrow> change_env \<Rightarrow> string \<Rightarrow> key_state \<Rightarrow> (change_error, string \<times> string \<times> nat) result \<times> key_state" where
  "change_key cr env new_hex st =
     (if ce_env_key env \<noteq> [] then (Inl ErrDataKeyFromEnvironment, st)
      else if \<not> ce_load_ok env then (Inl ConfigUnreadable, st)
      else case kc_config st of
        None \<Rightarrow> (Inl NotSetUp, st)
      | Some cfg \<Rightarrow>
          (case resolve_data_key (ce_env_key env) (Some cfg) of
             Inl e \<Rightarrow> (Inl (KeyProblem e), st)
           | Inr current \<Rightarrow>
               (case (if new_hex = [] then ce_generated env else Some new_hex) of
                  None \<Rightarrow> (Inl (KeyProblem NoRandomness), st)
                | Some key_hex \<Rightarrow>
                    (case new_keyring cr key_hex [] of
                       Inl e \<Rightarrow> (Inl (KeyProblem e), st)
                     | Inr fresh \<Rightarrow>
                         if ke_id (kr_primary fresh) = ke_id (kr_primary (kc_keyring st))
                         then (Inl ErrDataKeyUnchanged, st)
                         else if \<not> ce_save_ok env then (Inl NewKeyUnsaved, st)
                         else
                           let cfg1 = cfg\<lparr>kf_data_key := key_hex, kf_retired := current # kf_retired cfg\<rparr>;
                               st1 = st\<lparr>kc_config := Some cfg1\<rparr>
                           in case new_keyring cr key_hex (retired_data_keys (ce_env_retired env) (Some cfg1)) of
                                Inl e \<Rightarrow> (Inl (KeyProblem e), st1)
                              | Inr moving \<Rightarrow>
                                  (case rotate_all (rotators cr moving (ce_rotation env)) (kc_vault st1) of
                                     ((Some e, n), vl) \<Rightarrow>
                                       (Inl (RotationStopped n e), st1\<lparr>kc_keyring := moving, kc_vault := vl\<rparr>)
                                   | ((None, n), vl) \<Rightarrow>
                                       let st2 = st1\<lparr>kc_keyring := moving, kc_vault := vl\<rparr>
                                       in if \<not> ce_drop_ok env then (Inl OldKeyKept, st2)
                                          else
                                            let cfg2 = cfg1\<lparr>kf_retired := []\<rparr>;
                                                st3 = st2\<lparr>kc_config := Some cfg2\<rparr>
                                            in case new_keyring cr key_hex (retired_data_keys (ce_env_retired env) (Some cfg2)) of
                                                 Inl e \<Rightarrow> (Inl (KeyProblem e), st3)
                                               | Inr last_set \<Rightarrow>
                                                   (Inr (ke_id (kr_primary last_set), if new_hex = [] then key_hex else [], n),
                                                    st3\<lparr>kc_keyring := last_set\<rparr>))))))"

section \<open>What a rotation keeps\<close>

text \<open>A stored value stays readable: whatever it opened to before, it opens to now.\<close>

definition reads_same :: "crypto \<Rightarrow> key_set \<Rightarrow> key_set \<Rightarrow> string \<Rightarrow> string \<Rightarrow> bool" where
  "reads_same cr k k' v v' \<longleftrightarrow> (\<forall>p. decrypt cr (Some k) v = Inr p \<longrightarrow> decrypt cr (Some k') v' = Inr p)"

definition vault_kept :: "crypto \<Rightarrow> key_set \<Rightarrow> key_set \<Rightarrow> vault \<Rightarrow> vault \<Rightarrow> bool" where
  "vault_kept cr k k' vl vl' \<longleftrightarrow>
     list_all2 (rel_prod (reads_same cr k k') (rel_option (reads_same cr k k'))) (vl_providers vl) (vl_providers vl') \<and>
     list_all2 (reads_same cr k k') (vl_webhooks vl) (vl_webhooks vl') \<and>
     list_all2 (reads_same cr k k') (vl_sent_settings vl) (vl_sent_settings vl') \<and>
     list_all2 (reads_same cr k k') (vl_sent_mailboxes vl) (vl_sent_mailboxes vl') \<and>
     rel_option (reads_same cr k k') (vl_smtp vl) (vl_smtp vl')"

definition stored_values :: "vault \<Rightarrow> string set" where
  "stored_values vl =
     fst ` set (vl_providers vl) \<union> (\<Union>r \<in> set (vl_providers vl). set_option (snd r)) \<union> set (vl_webhooks vl) \<union>
     set (vl_sent_settings vl) \<union> set (vl_sent_mailboxes vl) \<union> set_option (vl_smtp vl)"

lemma reads_same_refl [simp]: "reads_same cr k k v v"
  by (simp add: reads_same_def)

lemma reads_same_trans: "reads_same cr k1 k2 a b \<Longrightarrow> reads_same cr k2 k3 b c \<Longrightarrow> reads_same cr k1 k3 a c"
  by (simp add: reads_same_def)

lemma rel_option_refl_on: "(\<And>x. x \<in> set_option o' \<Longrightarrow> R x x) \<Longrightarrow> rel_option R o' o'"
  by (cases o') simp_all

lemma vault_kept_same:
  assumes "\<And>v. v \<in> stored_values vl \<Longrightarrow> reads_same cr k k' v v"
  shows "vault_kept cr k k' vl vl"
  unfolding vault_kept_def
  by (intro conjI list.rel_refl_strong rel_option_refl_on; (rule assms | clarsimp simp: rel_prod_sel intro!: rel_option_refl_on))
    (force simp: stored_values_def intro!: assms rel_option_refl_on)+

lemma rel_option_trans:
  "(\<And>x y z. R x y \<Longrightarrow> S y z \<Longrightarrow> T x z) \<Longrightarrow> rel_option R a b \<Longrightarrow> rel_option S b c \<Longrightarrow> rel_option T a c"
  by (cases a; cases b; cases c) auto

lemma rel_prod_trans:
  "(\<And>x y z. A x y \<Longrightarrow> B y z \<Longrightarrow> C x z) \<Longrightarrow> (\<And>x y z. D x y \<Longrightarrow> E y z \<Longrightarrow> F x z) \<Longrightarrow>
   rel_prod A D p q \<Longrightarrow> rel_prod B E q r \<Longrightarrow> rel_prod C F p r"
  by (cases p; cases q; cases r) auto

lemma vault_kept_trans:
  assumes "vault_kept cr k1 k2 a b" "vault_kept cr k2 k3 b c"
  shows "vault_kept cr k1 k3 a c"
proof -
  have t: "reads_same cr k1 k3 x z" if "reads_same cr k1 k2 x y" "reads_same cr k2 k3 y z" for x y z
    using that by (rule reads_same_trans)
  show ?thesis
    using assms unfolding vault_kept_def
    by (auto intro: list_all2_trans [OF t] rel_option_trans [OF t] list_all2_trans [OF rel_prod_trans [OF t rel_option_trans [OF t]]])
qed

text \<open>\<open>io.ReadFull\<close> fills a nonce of the cipher's size.\<close>

definition full_nonces :: "row_env \<Rightarrow> bool" where
  "full_nonces e \<longleftrightarrow> (\<forall>n. rn_nonce e = Some n \<or> rn_nonce2 e = Some n \<longrightarrow> length n = nonce_size)"

lemma head_env_full: "list_all full_nonces es \<Longrightarrow> full_nonces (head_env es)"
  by (cases es) (simp_all add: head_env_def no_env_def full_nonces_def)

lemma tl_env_full: "list_all full_nonces es \<Longrightarrow> list_all full_nonces (tl es)"
  by (cases es) simp_all

lemma reseal_reads:
  assumes "reseal cr ks nonce v = Inr s" "sound_crypto cr" "wf_keyring cr ks" "\<And>n. nonce = Some n \<Longrightarrow> length n = nonce_size"
  shows "reads_same cr ks ks v s" "\<not> needs_rotation (Some ks) s"
proof -
  obtain p where p: "decrypt cr (Some ks) v = Inr p" "encrypt cr (Some ks) nonce p = Inr s"
    using assms(1) by (auto simp: reseal_def split: sum.splits)
  have "decrypt cr (Some ks) s = Inr p \<and> \<not> needs_rotation (Some ks) s"
  proof (cases "p = []")
    case True
    with p(2) have "s = []" by (simp add: encrypt_def)
    with True show ?thesis by (simp add: decrypt_def needs_rotation_def)
  next
    case False
    then obtain n where n: "nonce = Some n" using p(2) by (auto simp: encrypt_def split: option.splits)
    note enc = p(2) [unfolded n]
    have wf: "wf_entry cr (kr_primary ks)" using assms(3) by (simp add: wf_keyring_def)
    have "decrypt cr (Some ks) s = Inr p"
      using encrypted_readable [OF assms(2,3) assms(4) [OF n] enc] by (simp add: entry_for_def)
    moreover have "\<not> needs_rotation (Some ks) s"
      using encrypt_value(3) [OF enc False assms(2) wf] by (simp add: needs_rotation_def)
    ultimately show ?thesis by simp
  qed
  with p(1) show "reads_same cr ks ks v s" "\<not> needs_rotation (Some ks) s" by (simp_all add: reads_same_def)
qed

lemma rotate_column_keeps:
  assumes "sound_crypto cr" "wf_keyring cr ks"
  shows "rotate_column cr ks es vs = ((err, n), vs') \<Longrightarrow> list_all full_nonces es \<Longrightarrow>
    list_all2 (reads_same cr ks ks) vs vs' \<and> (err = None \<longrightarrow> (\<forall>v \<in> set vs'. \<not> needs_rotation (Some ks) v))"
proof (induction vs arbitrary: es err n vs')
  case (Cons v vs)
  obtain err1 n1 vs1 where r: "rotate_column cr ks (tl es) vs = ((err1, n1), vs1)" by (metis surj_pair)
  note IH = Cons.IH [OF r tl_env_full [OF Cons.prems(2)]]
  have refl: "list_all2 (reads_same cr ks ks) vs vs" by (simp add: list.rel_refl)
  show ?case
  proof (cases "needs_rotation (Some ks) v")
    case False
    with Cons.prems(1) r IH show ?thesis by auto
  next
    case True
    show ?thesis
    proof (cases "reseal cr ks (rn_nonce (head_env es)) v")
      case (Inl e)
      with True Cons.prems(1) refl show ?thesis by auto
    next
      case (Inr s)
      have "\<And>n. rn_nonce (head_env es) = Some n \<Longrightarrow> length n = nonce_size"
        using head_env_full [OF Cons.prems(2)] by (simp add: full_nonces_def)
      note rs = reseal_reads [OF Inr assms this]
      from True Inr Cons.prems(1) r rs refl IH show ?thesis by (auto split: if_splits)
    qed
  qed
qed simp

definition provider_settled :: "key_set \<Rightarrow> string \<times> string option \<Rightarrow> bool" where
  "provider_settled ks r \<longleftrightarrow>
     \<not> needs_rotation (Some ks) (fst r) \<and> (\<forall>s \<in> set_option (snd r). \<not> needs_rotation (Some ks) s)"

lemma provider_settled_iff: "provider_settled ks r \<longleftrightarrow> \<not> needs_provider_rotation ks r"
  by (auto simp: provider_settled_def needs_provider_rotation_def split: option.splits)

lemma reseal_provider_reads:
  assumes "reseal_provider cr ks env r = Inr r'" "sound_crypto cr" "wf_keyring cr ks" "full_nonces env"
  shows "rel_prod (reads_same cr ks ks) (rel_option (reads_same cr ks ks)) r r'" "provider_settled ks r'"
proof -
  obtain c where c: "reseal cr ks (rn_nonce env) (fst r) = Inr c"
    using assms(1) by (auto simp: reseal_provider_def split: sum.splits)
  have n: "\<And>n. rn_nonce env = Some n \<Longrightarrow> length n = nonce_size" "\<And>n. rn_nonce2 env = Some n \<Longrightarrow> length n = nonce_size"
    using assms(4) by (simp_all add: full_nonces_def)
  note rc = reseal_reads [OF c assms(2,3) n(1)]
  have empty: "\<not> needs_rotation (Some ks) []" by (simp add: needs_rotation_def)
  have "rel_prod (reads_same cr ks ks) (rel_option (reads_same cr ks ks)) r r' \<and> provider_settled ks r'"
  proof (cases "snd r")
    case None
    with assms(1) c rc show ?thesis by (auto simp: reseal_provider_def provider_settled_def rel_prod_sel)
  next
    case (Some s)
    show ?thesis
    proof (cases "s = []")
      case True
      with assms(1) c rc Some empty show ?thesis by (auto simp: reseal_provider_def provider_settled_def rel_prod_sel)
    next
      case False
      then obtain s' where s': "reseal cr ks (rn_nonce2 env) s = Inr s'" "r' = (c, Some s')"
        using assms(1) c Some by (auto simp: reseal_provider_def split: sum.splits)
      from reseal_reads [OF s'(1) assms(2,3) n(2)] rc Some s'(2) show ?thesis
        by (simp add: provider_settled_def rel_prod_sel)
    qed
  qed
  then show "rel_prod (reads_same cr ks ks) (rel_option (reads_same cr ks ks)) r r'" "provider_settled ks r'" by simp_all
qed

lemma rotate_providers_keeps:
  assumes "sound_crypto cr" "wf_keyring cr ks"
  shows "rotate_providers cr ks es rs = ((err, n), rs') \<Longrightarrow> list_all full_nonces es \<Longrightarrow>
    list_all2 (rel_prod (reads_same cr ks ks) (rel_option (reads_same cr ks ks))) rs rs' \<and>
    (err = None \<longrightarrow> (\<forall>r \<in> set rs'. provider_settled ks r))"
proof (induction rs arbitrary: es err n rs')
  case (Cons r rs)
  obtain err1 n1 rs1 where rot: "rotate_providers cr ks (tl es) rs = ((err1, n1), rs1)" by (metis surj_pair)
  note IH = Cons.IH [OF rot tl_env_full [OF Cons.prems(2)]]
  have same: "rel_prod (reads_same cr ks ks) (rel_option (reads_same cr ks ks)) x x" for x
    by (simp add: rel_prod_sel option.rel_refl)
  then have refl: "list_all2 (rel_prod (reads_same cr ks ks) (rel_option (reads_same cr ks ks))) rs rs"
    by (simp add: list.rel_refl)
  show ?case
  proof (cases "needs_provider_rotation ks r")
    case False
    with Cons.prems(1) rot IH show ?thesis by (auto simp: provider_settled_iff intro: same)
  next
    case True
    show ?thesis
    proof (cases "reseal_provider cr ks (head_env es) r")
      case (Inl e)
      with True Cons.prems(1) refl show ?thesis by (auto intro: same)
    next
      case (Inr r')
      note rr = reseal_provider_reads [OF Inr assms head_env_full [OF Cons.prems(2)]]
      from True Inr Cons.prems(1) rot rr refl IH show ?thesis by (auto split: if_splits intro: same)
    qed
  qed
qed simp

lemma rotate_single_keeps:
  assumes "sound_crypto cr" "wf_keyring cr ks" "rotate_single cr ks env row = ((err, n), row')" "full_nonces env"
  shows "rel_option (reads_same cr ks ks) row row' \<and> (err = None \<longrightarrow> (\<forall>v \<in> set_option row'. \<not> needs_rotation (Some ks) v))"
proof (cases row)
  case None
  with assms(3) show ?thesis by (simp add: rotate_single_def)
next
  case (Some v)
  show ?thesis
  proof (cases "reseal cr ks (rn_nonce env) v")
    case (Inl e)
    with Some assms(3) show ?thesis by (auto simp: rotate_single_def split: if_splits)
  next
    case (Inr s)
    have "\<And>n. rn_nonce env = Some n \<Longrightarrow> length n = nonce_size" using assms(4) by (simp add: full_nonces_def)
    from reseal_reads [OF Inr assms(1,2) this] Inr Some assms(3) show ?thesis
      by (auto simp: rotate_single_def split: if_splits)
  qed
qed

definition full_rotation :: "rotation_env \<Rightarrow> bool" where
  "full_rotation env \<longleftrightarrow>
     list_all full_nonces (snd (ro_providers env)) \<and> list_all full_nonces (snd (ro_webhooks env)) \<and>
     list_all full_nonces (snd (ro_sent_settings env)) \<and> list_all full_nonces (snd (ro_sent_mailboxes env)) \<and>
     full_nonces (snd (ro_smtp env))"

lemma vault_kept_refl [simp]: "vault_kept cr k k vl vl"
  by (rule vault_kept_same) simp

text \<open>A rotation that stops anywhere loses nothing.\<close>

definition loses_nothing :: "crypto \<Rightarrow> key_set \<Rightarrow> rotator \<Rightarrow> bool" where
  "loses_nothing cr ks r \<longleftrightarrow> (\<forall>vl. vault_kept cr ks ks vl (snd (r vl)))"

lemma rotate_all_kept: "list_all (loses_nothing cr ks) rs \<Longrightarrow> loses_nothing cr ks (rotate_all rs)"
proof (induction rs)
  case (Cons r rs)
  have "vault_kept cr ks ks vl (snd (rotate_all (r # rs) vl))" for vl
  proof -
    obtain err1 n1 vl1 where r: "r vl = ((err1, n1), vl1)" by (metis surj_pair)
    have 1: "vault_kept cr ks ks vl vl1" using Cons.prems r by (auto simp: loses_nothing_def dest: spec [of _ vl])
    obtain err2 n2 vl2 where rs: "rotate_all rs vl1 = ((err2, n2), vl2)" by (metis surj_pair)
    have "vault_kept cr ks ks vl1 vl2" using Cons rs by (auto simp: loses_nothing_def dest: spec [of _ vl1])
    with 1 r rs vault_kept_trans show ?thesis by (auto split: option.splits)
  qed
  then show ?case by (simp add: loses_nothing_def)
qed (simp add: loses_nothing_def)

lemma vault_kept_refls:
  "list_all2 (reads_same cr k k) vs vs" "rel_option (reads_same cr k k) o' o'"
  "list_all2 (rel_prod (reads_same cr k k) (rel_option (reads_same cr k k))) ps ps"
  by (simp_all add: list.rel_refl option.rel_refl prod.rel_refl)

lemma rotator_kept:
  assumes "sound_crypto cr" "wf_keyring cr ks" "full_rotation env"
  shows "loses_nothing cr ks (rotate_provider_store cr ks env)" "loses_nothing cr ks (rotate_webhook_store cr ks env)"
    "loses_nothing cr ks (rotate_sent_settings cr ks env)" "loses_nothing cr ks (rotate_sent_mailboxes cr ks env)"
    "loses_nothing cr ks (rotate_smtp_store cr ks env)"
proof -
  note kc = rotate_column_keeps [OF assms(1,2)] and kp = rotate_providers_keeps [OF assms(1,2)]
    and ksg = rotate_single_keeps [OF assms(1,2)]
  show "loses_nothing cr ks (rotate_provider_store cr ks env)"
    using assms(3) kp
    by (auto simp: loses_nothing_def rotate_provider_store_def full_rotation_def vault_kept_def vault_kept_refls split: prod.splits)
  show "loses_nothing cr ks (rotate_webhook_store cr ks env)"
    using assms(3) kc
    by (auto simp: loses_nothing_def rotate_webhook_store_def full_rotation_def vault_kept_def vault_kept_refls split: prod.splits)
  show "loses_nothing cr ks (rotate_sent_settings cr ks env)"
    using assms(3) kc
    by (auto simp: loses_nothing_def rotate_sent_settings_def full_rotation_def vault_kept_def vault_kept_refls split: prod.splits)
  show "loses_nothing cr ks (rotate_sent_mailboxes cr ks env)"
    using assms(3) kc
    by (auto simp: loses_nothing_def rotate_sent_mailboxes_def full_rotation_def vault_kept_def vault_kept_refls split: prod.splits)
  show "loses_nothing cr ks (rotate_smtp_store cr ks env)"
    using assms(3) ksg
    by (auto simp: loses_nothing_def rotate_smtp_store_def full_rotation_def vault_kept_def vault_kept_refls split: prod.splits)
qed

lemma rotators_kept:
  assumes "sound_crypto cr" "wf_keyring cr ks" "full_rotation env"
  shows "vault_kept cr ks ks vl (snd (rotate_all (rotators cr ks env) vl))"
proof -
  note kept = rotator_kept [OF assms]
  have "loses_nothing cr ks (rotate_all [rotate_sent_settings cr ks env, rotate_sent_mailboxes cr ks env])"
    by (rule rotate_all_kept) (simp add: kept)
  then have "list_all (loses_nothing cr ks) (rotators cr ks env)" by (simp add: rotators_def kept del: rotate_all.simps)
  from rotate_all_kept [OF this] show ?thesis by (simp add: loses_nothing_def)
qed

text \<open>A rotation that reports no error leaves no value on another key.\<close>

lemma rotate_all_None:
  "rotate_all (r # rs) vl = ((None, n), vl') \<Longrightarrow> \<exists>n1 vl1 n2. r vl = ((None, n1), vl1) \<and> rotate_all rs vl1 = ((None, n2), vl')"
  by (auto split: prod.splits option.splits)

lemma rotators_settled:
  assumes "sound_crypto cr" "wf_keyring cr ks" "full_rotation env"
    "rotate_all (rotators cr ks env) vl = ((None, n), vl')" "v \<in> stored_values vl'"
  shows "\<not> needs_rotation (Some ks) v"
proof -
  note kc = rotate_column_keeps [OF assms(1,2)] and kp = rotate_providers_keeps [OF assms(1,2)]
    and ksg = rotate_single_keeps [OF assms(1,2)]
  obtain v1 n1 m1 where 1: "rotate_provider_store cr ks env vl = ((None, n1), v1)"
    and r1: "rotate_all [rotate_webhook_store cr ks env,
      rotate_all [rotate_sent_settings cr ks env, rotate_sent_mailboxes cr ks env], rotate_smtp_store cr ks env] v1 = ((None, m1), vl')"
    using rotate_all_None [OF assms(4) [unfolded rotators_def]] by blast
  obtain v2 n2 m2 where 2: "rotate_webhook_store cr ks env v1 = ((None, n2), v2)"
    and r2: "rotate_all [rotate_all [rotate_sent_settings cr ks env, rotate_sent_mailboxes cr ks env],
      rotate_smtp_store cr ks env] v2 = ((None, m2), vl')"
    using rotate_all_None [OF r1] by blast
  obtain v4 n4 m4 where r3: "rotate_all [rotate_sent_settings cr ks env, rotate_sent_mailboxes cr ks env] v2 = ((None, n4), v4)"
    and r4: "rotate_all [rotate_smtp_store cr ks env] v4 = ((None, m4), vl')"
    using rotate_all_None [OF r2] by blast
  obtain v3 n3 m3 where 3: "rotate_sent_settings cr ks env v2 = ((None, n3), v3)"
    and r5: "rotate_all [rotate_sent_mailboxes cr ks env] v3 = ((None, m3), v4)"
    using rotate_all_None [OF r3] by blast
  obtain n5 where 4: "rotate_sent_mailboxes cr ks env v3 = ((None, n5), v4)"
    using rotate_all_None [OF r5] by auto
  obtain n6 where 5: "rotate_smtp_store cr ks env v4 = ((None, n6), vl')"
    using rotate_all_None [OF r4] by auto
  have "\<forall>r \<in> set (vl_providers v1). provider_settled ks r"
    using 1 assms(3) kp by (auto simp: rotate_provider_store_def full_rotation_def split: if_splits prod.splits)
  moreover have "vl_providers v2 = vl_providers v1" "\<forall>v \<in> set (vl_webhooks v2). \<not> needs_rotation (Some ks) v"
    using 2 assms(3) kc by (auto simp: rotate_webhook_store_def full_rotation_def split: if_splits prod.splits)
  moreover have "vl_providers v3 = vl_providers v2" "vl_webhooks v3 = vl_webhooks v2"
      "\<forall>v \<in> set (vl_sent_settings v3). \<not> needs_rotation (Some ks) v"
    using 3 assms(3) kc by (auto simp: rotate_sent_settings_def full_rotation_def split: if_splits prod.splits)
  moreover have "vl_providers v4 = vl_providers v3" "vl_webhooks v4 = vl_webhooks v3" "vl_sent_settings v4 = vl_sent_settings v3"
      "\<forall>v \<in> set (vl_sent_mailboxes v4). \<not> needs_rotation (Some ks) v"
    using 4 assms(3) kc by (auto simp: rotate_sent_mailboxes_def full_rotation_def split: if_splits prod.splits)
  moreover have "vl_providers vl' = vl_providers v4" "vl_webhooks vl' = vl_webhooks v4"
      "vl_sent_settings vl' = vl_sent_settings v4" "vl_sent_mailboxes vl' = vl_sent_mailboxes v4"
      "\<forall>v \<in> set_option (vl_smtp vl'). \<not> needs_rotation (Some ks) v"
    using 5 assms(3) ksg by (auto simp: rotate_smtp_store_def full_rotation_def split: if_splits prod.splits)
  ultimately show ?thesis using assms(5) by (auto simp: stored_values_def provider_settled_def)
qed

section \<open>Keyrings and the keys they are built from\<close>

definition named :: "crypto \<Rightarrow> string list \<Rightarrow> key_entry set" where
  "named cr hs = {e. \<exists>h \<in> set hs. new_entry cr h = Inr e}"

definition distinct_ids :: "crypto \<Rightarrow> string list \<Rightarrow> bool" where
  "distinct_ids cr hs \<longleftrightarrow> (\<forall>e \<in> named cr hs. \<forall>e' \<in> named cr hs. ke_id e = ke_id e' \<longrightarrow> e = e')"

lemma named_mono: "set hs \<subseteq> set hs' \<Longrightarrow> named cr hs \<subseteq> named cr hs'"
  by (auto simp: named_def)

lemma distinct_ids_mono: "distinct_ids cr hs' \<Longrightarrow> set hs \<subseteq> set hs' \<Longrightarrow> distinct_ids cr hs"
  using named_mono [of hs hs' cr] unfolding distinct_ids_def by blast

lemma trim_space_empty: "trim_space [] = []"
  by (simp add: trim_space_def trim_by_def)

lemma new_entry_nonempty: "new_entry cr h = Inr e \<Longrightarrow> trim_space h \<noteq> [] \<and> h \<noteq> []"
  by (auto simp: new_entry_def trim_space_empty)

lemma retired_entries_set:
  "retired_entries cr p hs = Inr es \<Longrightarrow> set es = {e \<in> named cr hs. ke_id e \<noteq> p}"
proof (induction hs arbitrary: es)
  case (Cons h hs)
  show ?case
  proof (cases "trim_space h = []")
    case True
    with Cons new_entry_nonempty show ?thesis by (fastforce simp: named_def)
  next
    case False
    with Cons.prems obtain x xs where "new_entry cr h = Inr x" "retired_entries cr p hs = Inr xs"
      "es = (if ke_id x = p then xs else x # xs)"
      by (auto split: sum.splits)
    with Cons.IH [of xs] show ?thesis by (auto simp: named_def)
  qed
qed (simp add: named_def)

lemma retired_entries_ok:
  "(\<exists>es. retired_entries cr p hs = Inr es) \<longleftrightarrow> (\<forall>h \<in> set hs. trim_space h \<noteq> [] \<longrightarrow> (\<exists>e. new_entry cr h = Inr e))"
proof (induction hs)
  case (Cons h hs)
  show ?case
  proof (cases "trim_space h = []")
    case False
    then show ?thesis using Cons by (cases "new_entry cr h"; cases "retired_entries cr p hs") auto
  qed (use Cons in simp)
qed simp

lemma new_keyring_entries:
  assumes "new_keyring cr h hs = Inr ks"
  shows "new_entry cr h = Inr (kr_primary ks)"
    "set (kr_retired ks) = {e \<in> named cr hs. ke_id e \<noteq> ke_id (kr_primary ks)}"
  using assms retired_entries_set by (auto simp: new_keyring_def split: sum.splits)

lemma new_keyring_ok:
  "(\<exists>ks. new_keyring cr h hs = Inr ks) \<longleftrightarrow>
   (\<exists>e. new_entry cr h = Inr e) \<and> (\<forall>x \<in> set hs. trim_space x \<noteq> [] \<longrightarrow> (\<exists>e. new_entry cr x = Inr e))"
proof (cases "new_entry cr h")
  case (Inr p)
  then show ?thesis using retired_entries_ok [of cr "ke_id p" hs]
    by (cases "retired_entries cr (ke_id p) hs") (simp_all add: new_keyring_def)
qed (simp add: new_keyring_def)

lemma keyring_entries:
  assumes "new_keyring cr h hs = Inr ks" "distinct_ids cr (h # hs)"
  shows "set (kr_primary ks # kr_retired ks) = named cr (h # hs)"
proof -
  note ne = new_keyring_entries [OF assms(1)]
  have "e = kr_primary ks" if "e \<in> named cr hs" "ke_id e = ke_id (kr_primary ks)" for e
    using assms(2) that ne(1) unfolding distinct_ids_def named_def by auto
  with ne show ?thesis by (auto simp: named_def)
qed

lemma entry_for_iff:
  assumes "new_keyring cr h hs = Inr ks" "distinct_ids cr (h # hs)"
  shows "entry_for i ks = Some e \<longleftrightarrow> e \<in> named cr (h # hs) \<and> ke_id e = i"
proof -
  note ents = keyring_entries [OF assms]
  have uniq: "a = b" if "a \<in> named cr (h # hs)" "b \<in> named cr (h # hs)" "ke_id a = ke_id b" for a b
    using assms(2) that by (simp add: distinct_ids_def)
  show ?thesis
  proof
    assume "entry_for i ks = Some e"
    then have "e \<in> set (kr_primary ks # kr_retired ks) \<and> ke_id e = i"
      by (auto simp: entry_for_def find_Some_iff split: if_splits)
    then show "e \<in> named cr (h # hs) \<and> ke_id e = i" using ents by blast
  next
    assume e: "e \<in> named cr (h # hs) \<and> ke_id e = i"
    have mem: "e \<in> set (kr_primary ks # kr_retired ks)" unfolding ents using e ..
    show "entry_for i ks = Some e"
    proof (cases "ke_id (kr_primary ks) = i")
      case True
      have "kr_primary ks \<in> named cr (h # hs)" unfolding ents [symmetric] by simp
      then have "kr_primary ks = e" by (rule uniq) (use e True in auto)
      with True show ?thesis by (simp add: entry_for_def)
    next
      case False
      with e have "e \<noteq> kr_primary ks" by auto
      with mem have er: "e \<in> set (kr_retired ks)" by simp
      have "find (\<lambda>e. ke_id e = i) (kr_retired ks) \<noteq> None"
        using er e by (auto simp: find_None_iff)
      then obtain x where x: "find (\<lambda>e. ke_id e = i) (kr_retired ks) = Some x" by blast
      then have "x \<in> set (kr_primary ks # kr_retired ks)" "ke_id x = i" by (auto simp: find_Some_iff)
      then have "x = e" using uniq e unfolding ents by blast
      with x False show ?thesis by (simp add: entry_for_def)
    qed
  qed
qed

text \<open>
  A value of the first format does not name its key; every key is tried on it. AES-GCM does not by
  itself exclude that two keys open the same text, so it is a hypothesis on the stored values that the
  keys which open one agree.
\<close>

definition unambiguous :: "crypto \<Rightarrow> string list \<Rightarrow> string \<Rightarrow> bool" where
  "unambiguous cr hs v \<longleftrightarrow>
     (\<forall>raw. split_secret v = Inr ([], raw) \<longrightarrow>
        (\<forall>e \<in> named cr hs. \<forall>e' \<in> named cr hs. \<forall>p q.
           open_secret cr e raw = Inr p \<and> open_secret cr e' raw = Inr q \<longrightarrow> p = q))"

lemma open_any_Inr: "open_any cr es raw = Inr p \<Longrightarrow> \<exists>e \<in> set es. open_secret cr e raw = Inr p"
  by (induction es) (auto split: sum.splits)

lemma open_any_agree:
  "e \<in> set es \<Longrightarrow> open_secret cr e raw = Inr p \<Longrightarrow>
   (\<And>x q. x \<in> set es \<Longrightarrow> open_secret cr x raw = Inr q \<Longrightarrow> q = p) \<Longrightarrow> open_any cr es raw = Inr p"
proof (induction es)
  case (Cons a es)
  show ?case
  proof (cases "open_secret cr a raw")
    case (Inl x)
    with Cons.prems(1,2) have "e \<in> set es" by auto
    then have "open_any cr es raw = Inr p" using Cons.prems(2,3) by (intro Cons.IH) (auto intro: Cons.prems(3))
    with Inl show ?thesis by simp
  next
    case (Inr q)
    have "q = p" by (rule Cons.prems(3) [OF _ Inr]) simp
    with Inr show ?thesis by simp
  qed
qed simp

text \<open>A keyring built from more keys reads everything the smaller one reads.\<close>

lemma more_keys_read:
  assumes "new_keyring cr h hs = Inr ks" "new_keyring cr h' hs' = Inr ks'" "set (h # hs) \<subseteq> set (h' # hs')"
    "distinct_ids cr (h' # hs')" "unambiguous cr (h' # hs') v"
  shows "reads_same cr ks ks' v v"
proof -
  have d: "distinct_ids cr (h # hs)" using assms(4,3) by (rule distinct_ids_mono)
  have sub: "named cr (h # hs) \<subseteq> named cr (h' # hs')" using assms(3) by (rule named_mono)
  have "decrypt cr (Some ks') v = Inr p" if dec: "decrypt cr (Some ks) v = Inr p" for p
  proof (cases "v = [] \<or> \<not> is_encrypted v")
    case True
    with dec show ?thesis by (auto simp: decrypt_def)
  next
    case False
    then obtain i raw where s: "split_secret v = Inr (i, raw)"
      using dec by (auto simp: decrypt_def split: sum.splits)
    show ?thesis
    proof (cases "i = []")
      case True
      have "open_any cr (kr_primary ks # kr_retired ks) raw = Inr p"
        using False dec s True by (simp add: decrypt_def)
      then obtain e where e: "e \<in> set (kr_primary ks # kr_retired ks)" "open_secret cr e raw = Inr p"
        using open_any_Inr by blast
      then have mem: "e \<in> named cr (h' # hs')" using keyring_entries [OF assms(1) d] sub by blast
      have "open_any cr (kr_primary ks' # kr_retired ks') raw = Inr p"
      proof (rule open_any_agree)
        show "e \<in> set (kr_primary ks' # kr_retired ks')" unfolding keyring_entries [OF assms(2,4)] by (rule mem)
        show "open_secret cr e raw = Inr p" by (rule e(2))
        fix x q assume "x \<in> set (kr_primary ks' # kr_retired ks')" "open_secret cr x raw = Inr q"
        then show "q = p"
          using assms(5) s [unfolded True] mem e(2) unfolding unambiguous_def keyring_entries [OF assms(2,4)] by blast
      qed
      with False s True show ?thesis by (simp add: decrypt_def)
    next
      case named_key: False
      then obtain e where e: "entry_for i ks = Some e" "open_secret cr e raw = Inr p"
        using False dec s by (auto simp: decrypt_def split: option.splits)
      then have "e \<in> named cr (h' # hs') \<and> ke_id e = i" using entry_for_iff [OF assms(1) d] sub by blast
      then have "entry_for i ks' = Some e" using entry_for_iff [OF assms(2,4)] by blast
      with False s named_key e(2) show ?thesis by (simp add: decrypt_def)
    qed
  qed
  then show ?thesis by (simp add: reads_same_def)
qed

text \<open>A value on the primary key is read by every keyring with that primary key.\<close>

lemma settled_reads:
  assumes "\<not> needs_rotation (Some ks) v" "kr_primary ks' = kr_primary ks" "ke_id (kr_primary ks) \<noteq> []"
  shows "reads_same cr ks ks' v v"
  using assms
  by (auto simp: reads_same_def decrypt_def needs_rotation_def entry_for_def split: sum.splits)

section \<open>A change of key, whatever fails\<close>

text \<open>The running keyring is the one the configuration file gives.\<close>

definition running :: "crypto \<Rightarrow> string \<Rightarrow> key_state \<Rightarrow> bool" where
  "running cr env_retired st \<longleftrightarrow>
     (case kc_config st of
        None \<Rightarrow> False
      | Some cfg \<Rightarrow> kf_data_key cfg \<noteq> [] \<and>
          new_keyring cr (kf_data_key cfg) (retired_data_keys env_retired (Some cfg)) = Inr (kc_keyring st))"

definition chosen_key :: "change_env \<Rightarrow> string \<Rightarrow> string option" where
  "chosen_key env new_hex = (if new_hex = [] then ce_generated env else Some new_hex)"

definition configured_keys :: "string \<Rightarrow> key_state \<Rightarrow> string list" where
  "configured_keys env_retired st =
     (case kc_config st of None \<Rightarrow> [] | Some cfg \<Rightarrow> kf_data_key cfg # retired_data_keys env_retired (Some cfg))"

definition primary_only :: "key_set \<Rightarrow> key_set" where
  "primary_only ks = ks\<lparr>kr_retired := []\<rparr>"

text \<open>How a change of key ends: refused before anything is written, stopped with the old key kept, or
  done.\<close>

lemma change_key_cases:
  assumes "change_key cr env new_hex st = (res, st')" "running cr (ce_env_retired env) st"
  obtains (refused) e where "res = Inl e" "st' = st" "\<And>n x. e \<noteq> RotationStopped n x"
  | (moved) h cfg moving err n vl where
      "chosen_key env new_hex = Some h" "kc_config st = Some cfg"
      "new_keyring cr h (retired_data_keys (ce_env_retired env) (Some (cfg\<lparr>kf_data_key := h, kf_retired := kf_data_key cfg # kf_retired cfg\<rparr>))) = Inr moving"
      "rotate_all (rotators cr moving (ce_rotation env)) (kc_vault st) = ((err, n), vl)"
      "st' = st\<lparr>kc_config := Some (cfg\<lparr>kf_data_key := h, kf_retired := kf_data_key cfg # kf_retired cfg\<rparr>),
         kc_keyring := moving, kc_vault := vl\<rparr>"
      "res = Inl (case err of Some e \<Rightarrow> RotationStopped n e | None \<Rightarrow> OldKeyKept)"
  | (finished) h cfg moving last_set n vl where
      "chosen_key env new_hex = Some h" "kc_config st = Some cfg"
      "new_keyring cr h (retired_data_keys (ce_env_retired env) (Some (cfg\<lparr>kf_data_key := h, kf_retired := kf_data_key cfg # kf_retired cfg\<rparr>))) = Inr moving"
      "rotate_all (rotators cr moving (ce_rotation env)) (kc_vault st) = ((None, n), vl)"
      "new_keyring cr h (retired_data_keys (ce_env_retired env) (Some (cfg\<lparr>kf_data_key := h, kf_retired := []\<rparr>))) = Inr last_set"
      "st' = st\<lparr>kc_config := Some (cfg\<lparr>kf_data_key := h, kf_retired := []\<rparr>), kc_keyring := last_set, kc_vault := vl\<rparr>"
      "res = Inr (ke_id (kr_primary last_set), if new_hex = [] then h else [], n)"
proof -
  let ?er = "ce_env_retired env"
  obtain cfg where cfg: "kc_config st = Some cfg" "kf_data_key cfg \<noteq> []"
    "new_keyring cr (kf_data_key cfg) (retired_data_keys ?er (Some cfg)) = Inr (kc_keyring st)"
    using assms(2) by (auto simp: running_def split: option.splits)
  show ?thesis
  proof (cases "\<exists>h fresh. ce_env_key env = [] \<and> ce_load_ok env \<and> chosen_key env new_hex = Some h \<and>
      new_keyring cr h [] = Inr fresh \<and> ke_id (kr_primary fresh) \<noteq> ke_id (kr_primary (kc_keyring st)) \<and> ce_save_ok env")
    case False
    then have "\<exists>e. res = Inl e \<and> st' = st \<and> (\<forall>n x. e \<noteq> RotationStopped n x)"
      using assms(1) cfg by (auto simp: change_key_def resolve_data_key_def chosen_key_def split: option.splits sum.splits if_splits)
    then show ?thesis using refused by blast
  next
    case True
    then obtain h fresh where h: "ce_env_key env = []" "ce_load_ok env" "chosen_key env new_hex = Some h"
      "new_keyring cr h [] = Inr fresh" "ke_id (kr_primary fresh) \<noteq> ke_id (kr_primary (kc_keyring st))" "ce_save_ok env"
      by blast
    let ?cfg1 = "cfg\<lparr>kf_data_key := h, kf_retired := kf_data_key cfg # kf_retired cfg\<rparr>"
    let ?cfg2 = "cfg\<lparr>kf_data_key := h, kf_retired := []\<rparr>"
    have entry: "\<exists>e. new_entry cr h = Inr e" "\<exists>e. new_entry cr (kf_data_key cfg) = Inr e"
      using new_keyring_entries(1) h(4) cfg(3) by blast+
    have valid: "\<forall>x \<in> set (retired_data_keys ?er (Some cfg)). trim_space x \<noteq> [] \<longrightarrow> (\<exists>e. new_entry cr x = Inr e)"
      using new_keyring_ok [of cr "kf_data_key cfg" "retired_data_keys ?er (Some cfg)"] cfg(3) by blast
    have "\<exists>ks. new_keyring cr h (retired_data_keys ?er (Some ?cfg1)) = Inr ks"
      unfolding new_keyring_ok using entry valid by (auto simp: retired_data_keys_def)
    then obtain moving where mv: "new_keyring cr h (retired_data_keys ?er (Some ?cfg1)) = Inr moving" by blast
    have "\<exists>ks. new_keyring cr h (retired_data_keys ?er (Some ?cfg2)) = Inr ks"
      unfolding new_keyring_ok using entry valid by (auto simp: retired_data_keys_def)
    then obtain last_set where ls: "new_keyring cr h (retired_data_keys ?er (Some ?cfg2)) = Inr last_set" by blast
    obtain err n vl where rot: "rotate_all (rotators cr moving (ce_rotation env)) (kc_vault st) = ((err, n), vl)"
      by (metis surj_pair)
    have ch: "(if new_hex = [] then ce_generated env else Some new_hex) = Some h" using h(3) by (simp add: chosen_key_def)
    note ev = assms(1) [unfolded change_key_def ch, simplified h(1,2,4) cfg(1) option.case resolve_data_key_def]
    show ?thesis
    proof (cases "err = None \<and> ce_drop_ok env")
      case True
      have "res = Inr (ke_id (kr_primary last_set), if new_hex = [] then h else [], n)"
        "st' = st\<lparr>kc_config := Some ?cfg2, kc_keyring := last_set, kc_vault := vl\<rparr>"
        using True rot ev h(5,6) cfg(2) mv ls by (auto simp: Let_def)
      then show ?thesis using finished [OF h(3) cfg(1) mv _ ls] rot True by blast
    next
      case False
      then show ?thesis using moved [OF h(3) cfg(1) mv rot] rot ev h(5,6) cfg(2) mv by (auto simp: Let_def split: option.splits)
    qed
  qed
qed

lemma configured_after:
  assumes "kc_config st = Some cfg"
  shows "set (configured_keys er st) \<subseteq>
    set (h # retired_data_keys er (Some (cfg\<lparr>kf_data_key := h, kf_retired := kf_data_key cfg # kf_retired cfg\<rparr>)))"
    "set (h # retired_data_keys er (Some (cfg\<lparr>kf_data_key := h, kf_retired := kf_data_key cfg # kf_retired cfg\<rparr>)))
     = set (h # configured_keys er st)"
  using assms by (auto simp: configured_keys_def retired_data_keys_def)

text \<open>Taking the new key into use with the old one kept, then re-sealing, loses no value.\<close>

lemma move_keeps_vault:
  assumes "sound_crypto cr" "running cr er st" "full_rotation env" "kc_config st = Some cfg"
    "new_keyring cr h (retired_data_keys er (Some (cfg\<lparr>kf_data_key := h, kf_retired := kf_data_key cfg # kf_retired cfg\<rparr>))) = Inr moving"
    "distinct_ids cr (h # configured_keys er st)"
    "\<forall>v \<in> stored_values (kc_vault st). unambiguous cr (h # configured_keys er st) v"
    "rotate_all (rotators cr moving env) (kc_vault st) = ((err, n), vl)"
  shows "vault_kept cr (kc_keyring st) moving (kc_vault st) vl"
proof -
  let ?new = "h # retired_data_keys er (Some (cfg\<lparr>kf_data_key := h, kf_retired := kf_data_key cfg # kf_retired cfg\<rparr>))"
  have run: "new_keyring cr (kf_data_key cfg) (retired_data_keys er (Some cfg)) = Inr (kc_keyring st)"
    using assms(2,4) by (simp add: running_def)
  have same: "named cr ?new = named cr (h # configured_keys er st)"
    using configured_after(2) [OF assms(4), of h er] unfolding named_def by simp
  have sub: "set (kf_data_key cfg # retired_data_keys er (Some cfg)) \<subseteq> set ?new"
    using configured_after(1) [OF assms(4), of er h] assms(4) by (simp add: configured_keys_def)
  have d: "distinct_ids cr ?new" using assms(6) same by (simp add: distinct_ids_def)
  have "reads_same cr (kc_keyring st) moving v v" if v: "v \<in> stored_values (kc_vault st)" for v
  proof -
    have "unambiguous cr ?new v" using bspec [OF assms(7) v] unfolding unambiguous_def same .
    with run assms(5) sub d show ?thesis by (rule more_keys_read)
  qed
  then have "vault_kept cr (kc_keyring st) moving (kc_vault st) (kc_vault st)" by (rule vault_kept_same)
  moreover have "vault_kept cr moving moving (kc_vault st) vl"
    using rotators_kept [OF assms(1) new_keyring_wf [OF assms(5)] assms(3), of "kc_vault st"] assms(8) by simp
  ultimately show ?thesis by (rule vault_kept_trans)
qed

text \<open>After a rotation that reported no error the retired keys are not needed.\<close>

lemma settled_vault_kept:
  assumes "sound_crypto cr" "full_rotation env" "new_keyring cr h hs = Inr moving"
    "rotate_all (rotators cr moving env) vl = ((None, n), vl')" "kr_primary ks' = kr_primary moving"
  shows "vault_kept cr moving ks' vl' vl'"
proof (rule vault_kept_same)
  fix v assume "v \<in> stored_values vl'"
  note wf = new_keyring_wf [OF assms(3)]
  have "\<not> needs_rotation (Some moving) v"
    using \<open>v \<in> _\<close> by (rule rotators_settled [OF assms(1) wf assms(2) assms(4)])
  moreover have "ke_id (kr_primary moving) \<noteq> []" using wf key_id_shape(1) [OF assms(1)] by (simp add: wf_keyring_def wf_entry_def)
  ultimately show "reads_same cr moving ks' v v" using assms(5) settled_reads by blast
qed


text \<open>C33. After a change to a given key stopped part way, asking for the same change again is refused as
  unchanged and re-seals nothing, so it does not finish the move.\<close>

theorem key_change_retry_refused:
  assumes "running cr (ce_env_retired env) st" "new_hex \<noteq> []"
    "change_key cr env new_hex st = (Inl (RotationStopped n e), st')"
    "ce_env_key env' = []" "ce_load_ok env'"
  shows "change_key cr env' new_hex st' = (Inl ErrDataKeyUnchanged, st')"
  using assms(3) assms(1)
proof (cases rule: change_key_cases)
  case refused
  then show ?thesis by blast
next
  case (moved h cfg moving err n' vl)
  have "new_entry cr h = Inr (kr_primary moving)" by (rule new_keyring_entries(1) [OF moved(3)])
  then have "\<exists>fresh. new_keyring cr h [] = Inr fresh \<and> kr_primary fresh = kr_primary moving" "h \<noteq> []"
    using new_entry_nonempty by (auto simp: new_keyring_def)
  then show ?thesis using moved assms(2,4,5) by (auto simp: change_key_def resolve_data_key_def chosen_key_def)
next
  case finished
  then show ?thesis by simp
qed

section \<open>A change of key that succeeds, and one that stops\<close>

definition sample_sealed :: string where
  "sample_sealed =
     projr (encrypt sample_crypto (Some \<lparr>kr_primary = sample_entry (CHR ''a''), kr_retired = []\<rparr>) (Some sample_nonce) ''secret'')"

definition sample_vault :: vault where
  "sample_vault = \<lparr>vl_providers = [], vl_webhooks = [sample_sealed], vl_sent_settings = [], vl_sent_mailboxes = [], vl_smtp = None\<rparr>"

definition sample_key_state :: key_state where
  "sample_key_state =
     \<lparr>kc_config = Some \<lparr>kf_data_key = sample_key (CHR ''a''), kf_retired = []\<rparr>,
      kc_keyring = \<lparr>kr_primary = sample_entry (CHR ''a''), kr_retired = []\<rparr>, kc_vault = sample_vault\<rparr>"

definition sample_change_env :: "bool \<Rightarrow> change_env" where
  "sample_change_env ok =
     \<lparr>ce_env_key = [], ce_env_retired = [], ce_load_ok = True, ce_generated = None, ce_save_ok = True,
      ce_rotation = \<lparr>ro_providers = (True, []),
        ro_webhooks = (True, [\<lparr>rn_nonce = Some sample_nonce, rn_nonce2 = None, rn_write_ok = ok\<rparr>]),
        ro_sent_settings = (True, []), ro_sent_mailboxes = (True, []),
        ro_smtp = (True, \<lparr>rn_nonce = None, rn_nonce2 = None, rn_write_ok = True\<rparr>)\<rparr>,
      ce_drop_ok = True\<rparr>"

lemma sample_new_entry:
  "new_entry sample_crypto (sample_key (CHR ''a'')) = Inr (sample_entry (CHR ''a''))"
  "new_entry sample_crypto (sample_key (CHR ''b'')) = Inr (sample_entry (CHR ''b''))"
  by code_simp+

lemma sample_nonempty:
  "parse_retired_keys [] = []" "sample_key (CHR ''b'') \<noteq> []" "sample_key (CHR ''a'') \<noteq> []"
  "ke_id (sample_entry (CHR ''b'')) \<noteq> ke_id (sample_entry (CHR ''a''))" "trim_space (sample_key (CHR ''a'')) \<noteq> []"
  by code_simp+

lemma sample_running: "running sample_crypto [] sample_key_state"
  by (simp add: running_def sample_key_state_def new_keyring_def retired_data_keys_def sample_new_entry sample_nonempty)

lemma sample_rotation_full: "full_rotation (ce_rotation (sample_change_env ok))"
  by (simp add: full_rotation_def sample_change_env_def full_nonces_def sample_nonce_def nonce_size_def)

lemma sample_sealed_value:
  "is_encrypted sample_sealed" "sample_sealed \<noteq> []"
  "split_secret sample_sealed = Inr (ke_id (sample_entry (CHR ''a'')),
     sample_nonce @ cr_seal sample_crypto (ke_key (sample_entry (CHR ''a''))) sample_nonce ''secret'')"
proof -
  have "encrypt sample_crypto (Some \<lparr>kr_primary = sample_entry (CHR ''a''), kr_retired = []\<rparr>) (Some sample_nonce) ''secret''
    = Inr sample_sealed" by (simp add: sample_sealed_def encrypt_def)
  note v = encrypt_value [OF this _ sample_crypto_sound]
  from v show "is_encrypted sample_sealed" "sample_sealed \<noteq> []"
    "split_secret sample_sealed = Inr (ke_id (sample_entry (CHR ''a'')),
       sample_nonce @ cr_seal sample_crypto (ke_key (sample_entry (CHR ''a''))) sample_nonce ''secret'')"
    by (simp_all add: sample_entry_wf)
qed

lemma sample_ids_distinct:
  "distinct_ids sample_crypto [sample_key (CHR ''b''), sample_key (CHR ''a'')]"
proof -
  have "named sample_crypto [sample_key (CHR ''b''), sample_key (CHR ''a'')] = {sample_entry (CHR ''b''), sample_entry (CHR ''a'')}"
    by (auto simp: named_def sample_new_entry)
  then show ?thesis using sample_nonempty(4) by (simp add: distinct_ids_def)
qed

lemma sample_unambiguous:
  assumes "v \<in> stored_values sample_vault"
  shows "unambiguous cr hs v"
proof -
  have v: "v = sample_sealed" using assms by (simp add: stored_values_def sample_vault_def)
  have "ke_id (sample_entry (CHR ''a'')) \<noteq> []" by code_simp
  then show ?thesis by (simp add: v unambiguous_def sample_sealed_value)
qed

lemma sample_keyrings:
  "new_keyring sample_crypto (sample_key (CHR ''b'')) [] = Inr \<lparr>kr_primary = sample_entry (CHR ''b''), kr_retired = []\<rparr>"
  "new_keyring sample_crypto (sample_key (CHR ''b'')) [sample_key (CHR ''a'')]
     = Inr \<lparr>kr_primary = sample_entry (CHR ''b''), kr_retired = [sample_entry (CHR ''a'')]\<rparr>"
  using sample_nonempty(4,5) by (simp_all add: new_keyring_def sample_new_entry)

lemma sample_reseal:
  "needs_rotation (Some \<lparr>kr_primary = sample_entry (CHR ''b''), kr_retired = [sample_entry (CHR ''a'')]\<rparr>) sample_sealed"
  "\<exists>s. reseal sample_crypto \<lparr>kr_primary = sample_entry (CHR ''b''), kr_retired = [sample_entry (CHR ''a'')]\<rparr>
     (Some sample_nonce) sample_sealed = Inr s"
proof -
  have ids: "ke_id (sample_entry (CHR ''a'')) \<noteq> []" by code_simp
  have len: "length sample_nonce = nonce_size" by (simp add: sample_nonce_def nonce_size_def)
  have "decrypt sample_crypto (Some \<lparr>kr_primary = sample_entry (CHR ''b''), kr_retired = [sample_entry (CHR ''a'')]\<rparr>) sample_sealed
    = Inr ''secret''"
    using sample_nonempty(4) ids
    by (simp add: decrypt_def sample_sealed_value entry_for_def open_sealed [OF sample_crypto_sound len])
  then show "\<exists>s. reseal sample_crypto \<lparr>kr_primary = sample_entry (CHR ''b''), kr_retired = [sample_entry (CHR ''a'')]\<rparr>
     (Some sample_nonce) sample_sealed = Inr s" by (simp add: reseal_def encrypt_def)
  show "needs_rotation (Some \<lparr>kr_primary = sample_entry (CHR ''b''), kr_retired = [sample_entry (CHR ''a'')]\<rparr>) sample_sealed"
    using sample_nonempty(4) by (simp add: needs_rotation_def sample_sealed_value)
qed

lemmas sample_change_simps = change_key_def resolve_data_key_def retired_data_keys_def rotators_def rotate_provider_store_def
  rotate_webhook_store_def rotate_sent_settings_def rotate_sent_mailboxes_def rotate_smtp_store_def rotate_single_def
  sample_change_env_def sample_key_state_def sample_vault_def sample_keyrings sample_nonempty sample_reseal(1) head_env_def


theorem key_change_retry_refused_witness:
  "let st' = snd (change_key sample_crypto (sample_change_env False) (sample_key (CHR ''b'')) sample_key_state)
   in fst (change_key sample_crypto (sample_change_env False) (sample_key (CHR ''b'')) sample_key_state)
        = Inl (RotationStopped 0 RotateUnwritten) \<and>
      change_key sample_crypto (sample_change_env True) (sample_key (CHR ''b'')) st' = (Inl ErrDataKeyUnchanged, st')"
proof -
  let ?c = "change_key sample_crypto (sample_change_env False) (sample_key (CHR ''b'')) sample_key_state"
  have res: "fst ?c = Inl (RotationStopped 0 RotateUnwritten)" "sample_key (CHR ''b'') \<noteq> []"
    using sample_reseal(2) by (auto simp: sample_change_simps)
  then have c: "?c = (Inl (RotationStopped 0 RotateUnwritten), snd ?c)" by (simp add: prod_eq_iff)
  have run: "running sample_crypto (ce_env_retired (sample_change_env False)) sample_key_state"
    using sample_running by (simp add: sample_change_env_def)
  show ?thesis
    using key_change_retry_refused [OF run res(2) c, of "sample_change_env True"] res(1) by (simp add: sample_change_env_def Let_def)
qed

end
