(* ===== verification/Webhook_Worker.thy ===== *)
theory Webhook_Worker
  imports Webhook_Queue Secrets Go_Numbers
begin

text \<open>
  The delivery of webhook notifications: the worker of \<open>internal/webhook/worker/durable_worker.go\<close>, the retry
  schedule and the signature of \<open>worker/delivery.go\<close>, and the test sender of \<open>worker/tester.go\<close>. What the
  endpoint answers, what the subscription store returns and the moments at which the worker looks at the
  clock are the environment of an attempt. Subscriptions are delivered to side by side; since the rows of
  different subscriptions are different rows, the pass is modelled one subscription after the other.
\<close>

section \<open>Schedule and signature\<close>

definition retry_schedule :: "duration list" where
  "retry_schedule = [10 * second, 30 * second, 2 * minute, 10 * minute, 30 * minute, 2 * hour, 6 * hour]"

definition next_attempt :: "int \<Rightarrow> duration option" where
  "next_attempt n =
     (if n < 1 \<or> n > int (length retry_schedule) then None else Some (retry_schedule ! nat (n - 1)))"

definition retryable :: "int \<Rightarrow> bool" where
  "retryable status \<longleftrightarrow> status = 408 \<or> status = 429 \<or> status \<ge> 500"

definition sign :: "(string \<Rightarrow> string \<Rightarrow> string) \<Rightarrow> string \<Rightarrow> int \<Rightarrow> string \<Rightarrow> string" where
  "sign hmac secret timestamp body = ''sha256='' @ hex_encode (hmac secret (show_int timestamp @ ''.'' @ body))"

text \<open>Headers are a map; \<open>Unix\<close> rounds down to the second.\<close>

definition unix_seconds :: "time \<Rightarrow> int" where "unix_seconds t = t div second"

definition apply_signature ::
  "(string \<Rightarrow> string \<Rightarrow> string) \<Rightarrow> string \<Rightarrow> string \<Rightarrow> string \<Rightarrow> string \<Rightarrow> time \<Rightarrow> (string \<rightharpoonup> string)" where
  "apply_signature hmac secret event delivery_id body now =
     (let h = [''Content-Type'' \<mapsto> ''application/json'', ''X-Panmail-Event'' \<mapsto> event, ''X-Panmail-Delivery'' \<mapsto> delivery_id]
      in if secret = [] then h
         else h(''X-Panmail-Timestamp'' \<mapsto> show_int (unix_seconds now),
                ''X-Panmail-Signature'' \<mapsto> sign hmac secret (unix_seconds now) body))"

section \<open>The worker\<close>

record webhook =
  wh_id :: string
  wh_tenant_id :: string
  wh_name :: string
  wh_url :: string
  wh_events :: "int list"
  wh_active :: bool
  wh_secret :: string
  wh_created_at :: time
  wh_updated_at :: time

record delivery_worker =
  dw_timeout :: duration
  dw_batch_size :: nat
  dw_lease :: duration
  dw_batch_budget :: duration
  dw_per_subscription :: int
  dw_failure_streak :: int
  dw_save_reserve :: duration
  dw_retention :: duration
  dw_last_prune :: "time option"

definition new_durable_worker :: delivery_worker where
  "new_durable_worker =
     \<lparr>dw_timeout = 15 * second, dw_batch_size = 50, dw_lease = 2 * minute, dw_batch_budget = minute,
      dw_per_subscription = 10, dw_failure_streak = 2, dw_save_reserve = 10 * second,
      dw_retention = 7 * 24 * hour, dw_last_prune = None\<rparr>"

text \<open>What reading a subscription gives, and what posting to its endpoint gives.\<close>

datatype sub_read = SubNoRows | SubUnreadable string | SubRead "webhook option"

datatype post_result = PostDisallowed string | PostFailed string | PostStatus int

text \<open>
  One row of a batch: whether the process is shutting down and what the clock says when the row's turn
  comes; the subscription; the answer; the clock at the signature, at the rescheduling and at the write; and
  whether the write and its row count succeed.
\<close>

record attempt_env =
  at_cancelled :: bool
  at_start :: time
  at_sub :: sub_read
  at_signed :: time
  at_post :: post_result
  at_clock :: time
  at_write_ok :: bool
  at_count_ok :: bool
  at_written :: time

type_synonym post_request = "string \<times> (string \<rightharpoonup> string) \<times> string"

text \<open>The queue and the requests posted so far.\<close>

record webhook_state =
  ws_rows :: "delivery_row list"
  ws_posts :: "(string \<times> post_request) list"

definition save :: "attempt_env \<Rightarrow> webhook_delivery \<Rightarrow> webhook_state \<Rightarrow> webhook_state" where
  "save e d s = s\<lparr>ws_rows := snd (delivery_update (at_write_ok e) (at_count_ok e) (at_written e) d (ws_rows s))\<rparr>"

definition finish :: "attempt_env \<Rightarrow> delivery_status \<Rightarrow> string \<Rightarrow> webhook_delivery \<Rightarrow> webhook_state \<Rightarrow> webhook_delivery \<times> webhook_state" where
  "finish e status reason d s =
     (let d' = d\<lparr>wd_status := status, wd_last_error := reason\<rparr> in (d', save e d' s))"

definition reschedule :: "attempt_env \<Rightarrow> string \<Rightarrow> webhook_delivery \<Rightarrow> webhook_state \<Rightarrow> webhook_delivery \<times> webhook_state" where
  "reschedule e reason d s =
     (case next_attempt (wd_attempt_count d) of
        None \<Rightarrow> finish e DeliveryStatusFailed reason d s
      | Some delay \<Rightarrow>
          let d' = d\<lparr>wd_status := DeliveryStatusDeferred, wd_next_attempt_at := at_clock e + delay, wd_last_error := reason\<rparr>
          in (d', save e d' s))"

definition post :: "(string \<Rightarrow> string \<Rightarrow> string) \<Rightarrow> attempt_env \<Rightarrow> webhook \<Rightarrow> webhook_delivery \<Rightarrow> webhook_state \<Rightarrow> post_result \<times> webhook_state" where
  "post hmac e sub d s =
     (at_post e,
      s\<lparr>ws_posts := ws_posts s @
         [(wd_id d, wh_url sub, apply_signature hmac (wh_secret sub) (wd_event d) (wd_id d) (wd_payload d) (at_signed e), wd_payload d)]\<rparr>)"

text \<open>One attempt: whether the endpoint could not be reached, the notification as it is left, the state.\<close>

definition attempt ::
  "(string \<Rightarrow> string \<Rightarrow> string) \<Rightarrow> attempt_env \<Rightarrow> webhook_delivery \<Rightarrow> webhook_state \<Rightarrow> bool \<times> webhook_delivery \<times> webhook_state" where
  "attempt hmac e d0 s =
     (let d = d0\<lparr>wd_attempt_count := wd_attempt_count d0 + 1\<rparr>
      in case at_sub e of
           SubNoRows \<Rightarrow> (False, finish e DeliveryStatusFailed ''the webhook subscription no longer exists'' d s)
         | SubRead None \<Rightarrow> (False, finish e DeliveryStatusFailed ''the webhook subscription no longer exists'' d s)
         | SubUnreadable err \<Rightarrow> (False, reschedule e (''the webhook subscription could not be read: '' @ err) d s)
         | SubRead (Some sub) \<Rightarrow>
             if \<not> wh_active sub then (False, finish e DeliveryStatusFailed ''the webhook subscription is disabled'' d s)
             else
               let (res, s1) = post hmac e sub d s
               in case res of
                    PostDisallowed err \<Rightarrow> (False, finish e DeliveryStatusFailed err d s1)
                  | PostFailed err \<Rightarrow> (True, reschedule e err d s1)
                  | PostStatus status \<Rightarrow>
                      if 200 \<le> status \<and> status < 300 then (False, finish e DeliveryStatusDelivered [] d s1)
                      else if retryable status then (False, reschedule e (''endpoint returned '' @ show_int status) d s1)
                      else (False, finish e DeliveryStatusFailed (''endpoint returned '' @ show_int status) d s1))"

definition released :: "webhook_delivery \<Rightarrow> webhook_delivery" where
  "released d = d\<lparr>wd_status := (if wd_attempt_count d = 0 then DeliveryStatusPending else DeliveryStatusDeferred)\<rparr>"

fun release :: "(string \<Rightarrow> attempt_env) \<Rightarrow> webhook_delivery list \<Rightarrow> webhook_state \<Rightarrow> webhook_state" where
  "release env [] s = s"
| "release env (d # ds) s = release env ds (save (env (wd_id d)) (released d) s)"

text \<open>The clock when a subscription is backed off, and the outcome of deferring its rows.\<close>

record back_off_env =
  bo_clock :: time
  bo_ok :: bool
  bo_written :: time

definition back_off_delay :: "int \<Rightarrow> duration" where
  "back_off_delay attempts = (case next_attempt attempts of Some d \<Rightarrow> d | None \<Rightarrow> last retry_schedule)"

definition back_off ::
  "(string \<Rightarrow> attempt_env) \<Rightarrow> back_off_env \<Rightarrow> string \<Rightarrow> webhook_delivery list \<Rightarrow> int \<Rightarrow> webhook_state \<Rightarrow> webhook_state" where
  "back_off env bo wid rest attempts s =
     (let until = bo_clock bo + back_off_delay attempts;
          s1 = release env (map (\<lambda>d. d\<lparr>wd_next_attempt_at := until\<rparr>) rest) s
      in s1\<lparr>ws_rows := snd (defer_subscription (bo_ok bo) wid until (bo_written bo) (ws_rows s1))\<rparr>)"

definition start_window :: "delivery_worker \<Rightarrow> duration" where
  "start_window w =
     min (dw_batch_budget w)
       (if dw_timeout w = 0 then dw_lease w - dw_save_reserve w else dw_lease w - dw_timeout w - dw_save_reserve w)"

fun add_to_group :: "webhook_delivery \<Rightarrow> webhook_delivery list list \<Rightarrow> webhook_delivery list list" where
  "add_to_group d [] = [[d]]"
| "add_to_group d (g # gs) =
     (if wd_webhook_id (hd g) = wd_webhook_id d then (g @ [d]) # gs else g # add_to_group d gs)"

definition by_subscription :: "webhook_delivery list \<Rightarrow> webhook_delivery list list" where
  "by_subscription due = fold add_to_group due []"

fun deliver_group ::
  "(string \<Rightarrow> string \<Rightarrow> string) \<Rightarrow> delivery_worker \<Rightarrow> (string \<Rightarrow> attempt_env) \<Rightarrow> (string \<Rightarrow> back_off_env) \<Rightarrow> time
    \<Rightarrow> int \<Rightarrow> int \<Rightarrow> webhook_delivery list \<Rightarrow> webhook_state \<Rightarrow> webhook_state" where
  "deliver_group hmac w env bo start_by streak worst [] s = s"
| "deliver_group hmac w env bo start_by streak worst (d # ds) s =
     (let e = env (wd_id d)
      in if at_cancelled e \<or> \<not> at_start e < start_by then release env (d # ds) s
         else if dw_failure_streak w > 0 \<and> streak \<ge> dw_failure_streak w
         then back_off env (bo (wd_webhook_id d)) (wd_webhook_id d) (d # ds) worst s
         else
           let (unreachable, d', s') = attempt hmac e d s
           in if unreachable
              then deliver_group hmac w env bo start_by (streak + 1) (max worst (wd_attempt_count d')) ds s'
              else deliver_group hmac w env bo start_by 0 worst ds s')"

record due_env =
  de_claimed_at :: time
  de_claim_ok :: bool
  de_read_ok :: bool
  de_claim_clock :: time
  de_token :: string
  de_rows :: "string \<Rightarrow> attempt_env"
  de_back_off :: "string \<Rightarrow> back_off_env"

definition process_due ::
  "(string \<Rightarrow> string \<Rightarrow> string) \<Rightarrow> delivery_worker \<Rightarrow> due_env \<Rightarrow> webhook_state \<Rightarrow> bool \<times> webhook_state" where
  "process_due hmac w env s =
     (case claim_due (de_claim_ok env) (de_read_ok env) (de_claim_clock env) (de_token env) (dw_batch_size w)
             (dw_per_subscription w) (dw_lease w) (ws_rows s) of
        (Inl e, rows) \<Rightarrow> (False, s\<lparr>ws_rows := rows\<rparr>)
      | (Inr due, rows) \<Rightarrow>
          let groups = by_subscription due;
              start_by = de_claimed_at env + start_window w
          in (length due \<ge> dw_batch_size w \<or> (\<exists>g \<in> set groups. int (length g) \<ge> dw_per_subscription w),
              fold (deliver_group hmac w (de_rows env) (de_back_off env) start_by 0 0) groups (s\<lparr>ws_rows := rows\<rparr>)))"

definition prune_deliveries_if_due :: "bool \<Rightarrow> bool \<Rightarrow> time \<Rightarrow> delivery_worker \<Rightarrow> webhook_state \<Rightarrow> delivery_worker \<times> webhook_state" where
  "prune_deliveries_if_due ok count_ok now w s =
     (if dw_retention w \<le> 0 then (w, s)
      else if (case dw_last_prune w of None \<Rightarrow> False | Some t \<Rightarrow> now - t < hour) then (w, s)
      else (w\<lparr>dw_last_prune := Some now\<rparr>,
            s\<lparr>ws_rows := snd (delivery_prune_terminal ok count_ok (now - dw_retention w) (ws_rows s))\<rparr>))"

section \<open>Enqueueing\<close>

text \<open>\<open>json.Marshal\<close> of a string, for ASCII, and of the envelope, whose keys it sorts.\<close>

definition hex4 :: "nat \<Rightarrow> string" where
  "hex4 n = ''00'' @ [hex_digit (n div 16 mod 16), hex_digit (n mod 16)]"

definition json_char :: "char \<Rightarrow> string" where
  "json_char c =
     (let n = of_char c :: nat; b = char_of (92 :: nat)
      in if n = 34 \<or> n = 92 then [b, c]
         else if n = 8 then [b, CHR ''b''] else if n = 12 then [b, CHR ''f'']
         else if n = 10 then [b, CHR ''n''] else if n = 13 then [b, CHR ''r''] else if n = 9 then [b, CHR ''t'']
         else if n < 32 \<or> n = 60 \<or> n = 62 \<or> n = 38 then b # CHR ''u'' # hex4 n
         else [c])"

definition json_string :: "string \<Rightarrow> string" where
  "json_string s = char_of (34 :: nat) # concat (map json_char s) @ [char_of (34 :: nat)]"

definition envelope :: "string option \<Rightarrow> string \<Rightarrow> string \<Rightarrow> time \<Rightarrow> string option" where
  "envelope payload tenant event now =
     map_option (\<lambda>data. ''{'' @ json_string ''data'' @ '':'' @ data @ '','' @ json_string ''event'' @ '':'' @ json_string event @ '','' @
       json_string ''tenant_id'' @ '':'' @ json_string tenant @ '','' @ json_string ''timestamp'' @ '':'' @
       show_int (unix_seconds now) @ ''}'') payload"

text \<open>
  The subscriptions that want the event are what \<open>ListActiveByEvent\<close> returns, the payload what
  \<open>json.Marshal\<close> makes of the event's own data; each subscription gets a row under a fresh identifier.
\<close>

definition pending_delivery :: "string \<Rightarrow> string \<Rightarrow> string \<Rightarrow> string \<Rightarrow> string \<Rightarrow> webhook_delivery" where
  "pending_delivery i tenant event body wid =
     \<lparr>wd_id = i, wd_tenant_id = tenant, wd_webhook_id = wid, wd_event = event, wd_payload = body,
      wd_status = DeliveryStatusPending, wd_attempt_count = 0, wd_claim_token = [], wd_next_attempt_at = zero_time,
      wd_last_error = [], wd_created_at = zero_time, wd_updated_at = zero_time\<rparr>"

record create_env =
  cv_id :: string
  cv_ok :: bool
  cv_now :: time

fun enqueue_each ::
  "(string \<Rightarrow> create_env) \<Rightarrow> string \<Rightarrow> string \<Rightarrow> string \<Rightarrow> webhook list \<Rightarrow> delivery_row list \<Rightarrow> delivery_row list" where
  "enqueue_each env tenant event body [] rows = rows"
| "enqueue_each env tenant event body (sub # subs) rows =
     (let e = env (wh_id sub)
      in enqueue_each env tenant event body subs
           (snd (delivery_create (cv_ok e) (cv_now e) (pending_delivery (cv_id e) tenant event body (wh_id sub)) rows)))"

definition enqueue_event ::
  "(secret_error, webhook list) result \<Rightarrow> string option \<Rightarrow> time \<Rightarrow> (string \<Rightarrow> create_env) \<Rightarrow> string \<Rightarrow> string
    \<Rightarrow> webhook_state \<Rightarrow> webhook_state" where
  "enqueue_event subscriptions payload now env tenant event s =
     (case subscriptions of
        Inl e \<Rightarrow> s
      | Inr subs \<Rightarrow>
          if subs = [] then s
          else case envelope payload tenant event now of
            None \<Rightarrow> s
          | Some body \<Rightarrow> s\<lparr>ws_rows := enqueue_each env tenant event body subs (ws_rows s)\<rparr>)"

section \<open>The test sender\<close>

record test_result =
  tr_status_code :: int
  tr_body :: string
  tr_err :: "string option"

text \<open>The answer of the endpoint with its body, of which 2048 bytes are kept.\<close>

definition tester_send :: "(string + int \<times> string) \<Rightarrow> test_result" where
  "tester_send answer =
     (case answer of
        Inl err \<Rightarrow> \<lparr>tr_status_code = 0, tr_body = [], tr_err = Some err\<rparr>
      | Inr (status, body) \<Rightarrow> \<lparr>tr_status_code = status, tr_body = take 2048 body, tr_err = None\<rparr>)"

definition tester_headers :: "(string \<Rightarrow> string \<Rightarrow> string) \<Rightarrow> webhook \<Rightarrow> string \<Rightarrow> string \<Rightarrow> string \<Rightarrow> time \<Rightarrow> (string \<rightharpoonup> string)" where
  "tester_headers hmac sub event i body now =
     (apply_signature hmac (wh_secret sub) event i body now)(''X-Panmail-Test'' \<mapsto> ''true'')"

section \<open>The lease covers an attempt\<close>

text \<open>What the other workers, and the rest of the program, may do to the queue until a moment.\<close>

primrec leaves_lease :: "string \<Rightarrow> string \<Rightarrow> time \<Rightarrow> delivery_op \<Rightarrow> bool" where
  "leaves_lease i tok t (DCreate ok now d) = True"
| "leaves_lease i tok t (DClaim ex rd now tok' limit per lease) = (now \<le> t)"
| "leaves_lease i tok t (DUpdate ok cok now d) = (wd_id d \<noteq> i \<or> wd_claim_token d \<noteq> tok)"
| "leaves_lease i tok t (DDefer ok wid until now) = True"
| "leaves_lease i tok t (DDelete ok i') = (i' \<noteq> i)"
| "leaves_lease i tok t (DPrune ok cok older) = True"

definition lease_held :: "string \<Rightarrow> string \<Rightarrow> time \<Rightarrow> delivery_row list \<Rightarrow> bool" where
  "lease_held i tok t rows \<longleftrightarrow>
     distinct (map dr_id rows) \<and>
     (\<exists>r \<in> set rows. dr_id r = i \<and> dr_claim_token r = Some tok \<and> dr_status r = DeliveryStatusSending \<and>
        (\<exists>u. dr_claimed_until r = Some u \<and> t \<le> u))"

lemma lease_heldE:
  assumes "lease_held i tok t rows"
  obtains r u where "distinct (map dr_id rows)" "r \<in> set rows" "dr_id r = i" "dr_claim_token r = Some tok"
    "dr_status r = DeliveryStatusSending" "dr_claimed_until r = Some u" "t \<le> u"
  using assms by (auto simp: lease_held_def)

interpretation lease_kept: invariant_steps delivery_queue_step "leaves_lease i tok t" "lease_held i tok t"
proof
  fix op and rows :: "delivery_row list"
  assume good: "leaves_lease i tok t op" and held: "lease_held i tok t rows"
  from held obtain r u where r: "distinct (map dr_id rows)" "r \<in> set rows" "dr_id r = i" "dr_claim_token r = Some tok"
    "dr_status r = DeliveryStatusSending" "dr_claimed_until r = Some u" "t \<le> u" by (rule lease_heldE)
  have dist: "distinct (map dr_id (delivery_queue_step op rows))"
    using delivery_ids.run_inv [of "[op]" rows] r(1) by simp
  have "r \<in> set (delivery_queue_step op rows)"
  proof (cases op)
    case (DClaim ex rd now tok' limit per lease)
    have "delivery_leased u r" using r(5,6) by (simp add: delivery_leased_def)
    moreover have "now \<le> u" using good r(7) DClaim by simp
    ultimately have "r \<in> set (claim_delivery_rows n p now tok' u' rows)" for n p u'
      using webhook_lease.claim_keeps_lease r(1,2) by blast
    then show ?thesis using DClaim r(2) by (auto simp: claim_due_def Let_def)
  next
    case (DUpdate ok cok now d)
    then have "\<not> held_under (wd_id d) (wd_claim_token d) r" using good r(3,4) by (auto simp: held_under_def)
    then show ?thesis using DUpdate r(2) by (auto simp: delivery_update_def Let_def intro: update_where_miss)
  next
    case (DDefer ok wid until now)
    then have "\<not> deferrable wid until r" using r(5) by (simp add: deferrable_def)
    then show ?thesis using DDefer r(2) by (auto simp: defer_subscription_def intro: update_where_miss)
  qed (use good r in \<open>auto simp: delivery_create_def Let_def delivery_delete_def delivery_prune_terminal_def
      in_delete_where delivery_terminal_def\<close>)
  with dist r show "lease_held i tok t (delivery_queue_step op rows)" unfolding lease_held_def by blast
qed

lemma leaves_lease_mono: "leaves_lease i tok t op \<Longrightarrow> t \<le> u \<Longrightarrow> leaves_lease i tok u op"
  by (cases op) auto

lemma claim_leases:
  assumes "distinct (map dr_id rows)" "holders dr_claim_token tok rows = []"
    "claim_due True True now tok limit per lease rows = (Inr ds, rows')" "d \<in> set ds"
  shows "lease_held (wd_id d) tok (now + lease) rows'" "wd_claim_token d = tok"
proof -
  have rows': "rows' = claim_delivery_rows limit (if per < 1 then 1 else nat per) now tok (now + lease) rows"
    using assms(3) by (simp add: claim_due_def Let_def)
  have "set ds = delivery_of tok ` set (holders dr_claim_token tok rows')"
    using assms(3) rows' by (auto simp: claim_due_def Let_def)
  then obtain h where h: "h \<in> set (holders dr_claim_token tok rows')" "d = delivery_of tok h"
    using assms(4) by blast
  have "delivery_leased (now + lease) h" using webhook_lease.claim_holders_due [OF assms(1,2)] h(1) rows' by blast
  then show "lease_held (wd_id d) tok (now + lease) rows'"
    using h assms(1) by (auto simp: lease_held_def holders_def delivery_of_def delivery_leased_def rows')
  show "wd_claim_token d = tok" using h(2) by (simp add: delivery_of_def)
qed

text \<open>
  C11. The claim outlasts every attempt made under it. If an attempt is started only while the worker would start
  one, the request ends within the client's timeout and the outcome is written within the reserve, then
  whatever everyone else has done to the queue up to that moment, no other worker was handed the notification
  and the write is accepted under the claim.
\<close>

theorem lease_covers_attempt:
  assumes "distinct (map dr_id rows)" "holders dr_claim_token tok rows = []"
    "claim_due True True now tok limit per (dw_lease w) rows = (Inr ds, rows')" "d \<in> set ds"
    "claimed_at \<le> now" "at_start e < claimed_at + start_window w"
    "at_written e \<le> at_start e + dw_timeout w + dw_save_reserve w"
    "list_all (leaves_lease (wd_id d) tok (at_written e)) ops"
    "wd_id d' = wd_id d" "wd_claim_token d' = tok" "tok \<noteq> []"
  shows "fst (delivery_update True True (at_written e) d' (run delivery_queue_step ops rows')) = Inr () \<and>
    (\<forall>tok' now' n p l rows2 ds2. tok' \<noteq> tok \<and> now' \<le> at_written e \<and> holders dr_claim_token tok' (run delivery_queue_step ops rows') = [] \<and>
       claim_due True True now' tok' n p l (run delivery_queue_step ops rows') = (Inr ds2, rows2) \<longrightarrow> wd_id d \<notin> wd_id ` set ds2)"
proof -
  have "start_window w \<le> dw_lease w - dw_timeout w - dw_save_reserve w" by (auto simp: start_window_def)
  then have "at_written e \<le> now + dw_lease w" using assms(5,6,7) by linarith
  then have ops: "list_all (leaves_lease (wd_id d) tok (now + dw_lease w)) ops"
    using assms(8) leaves_lease_mono by (auto simp: list_all_iff)
  let ?R = "run delivery_queue_step ops rows'"
  have held: "lease_held (wd_id d) tok (now + dw_lease w) ?R"
    using lease_kept.run_inv [OF ops claim_leases(1) [OF assms(1-4)]] .
  then obtain r u where r: "distinct (map dr_id ?R)" "r \<in> set ?R" "dr_id r = wd_id d" "dr_claim_token r = Some tok"
    "dr_status r = DeliveryStatusSending" "dr_claimed_until r = Some u" "now + dw_lease w \<le> u" by (rule lease_heldE)
  then have "affected (held_under (wd_id d') (wd_claim_token d')) ?R \<noteq> 0"
    using assms(9,10) by (auto simp: affected_0_iff held_under_def)
  then have "fst (delivery_update True True (at_written e) d' ?R) = Inr ()"
    using assms(10,11) by (simp add: delivery_update_def Let_def)
  moreover have "wd_id d \<notin> wd_id ` set ds2"
    if other: "tok' \<noteq> tok" "now' \<le> at_written e" "holders dr_claim_token tok' ?R = []"
      "claim_due True True now' tok' n p l ?R = (Inr ds2, rows2)" for tok' now' n p l rows2 ds2
  proof
    assume "wd_id d \<in> wd_id ` set ds2"
    then obtain x where x: "x \<in> set ds2" "wd_id x = wd_id d" by auto
    have "leaves_lease (wd_id d) tok (now + dw_lease w) (DClaim True True now' tok' n p l)"
      using other(2) \<open>at_written e \<le> now + dw_lease w\<close> by simp
    then have "lease_held (wd_id d) tok (now + dw_lease w) rows2"
      using lease_kept.step_inv [OF _ held, of "DClaim True True now' tok' n p l"] other(4) by simp
    moreover have "lease_held (wd_id d) tok' (now' + l) rows2" using claim_leases(1) [OF r(1) other(3,4) x(1)] x(2) by simp
    ultimately show False using other(1) same_id_same_row by (fastforce elim!: lease_heldE)
  qed
  ultimately show ?thesis by blast
qed

section \<open>A pass is a sequence of queue operations\<close>

text \<open>What may be written back for a claimed notification: handed back as it was, or attempted once more.\<close>

definition finished_status :: "delivery_status \<Rightarrow> bool" where
  "finished_status st \<longleftrightarrow> st \<in> {DeliveryStatusDelivered, DeliveryStatusFailed}"

definition outcome_of :: "webhook_delivery \<Rightarrow> webhook_delivery \<Rightarrow> bool" where
  "outcome_of d d' \<longleftrightarrow>
     wd_id d' = wd_id d \<and> wd_claim_token d' = wd_claim_token d \<and> wd_webhook_id d' = wd_webhook_id d \<and>
     (wd_attempt_count d' = wd_attempt_count d \<and> wd_status d' \<in> {DeliveryStatusPending, DeliveryStatusDeferred} \<or>
      wd_attempt_count d' = wd_attempt_count d + 1 \<and>
        (finished_status (wd_status d') \<or> wd_status d' = DeliveryStatusDeferred \<and> wd_attempt_count d' \<le> 7))"

lemma next_attempt_bound: "next_attempt n = Some delay \<Longrightarrow> 1 \<le> n \<and> n \<le> 7"
  by (auto simp: next_attempt_def retry_schedule_def split: if_splits)

definition write_op :: "attempt_env \<Rightarrow> webhook_delivery \<Rightarrow> delivery_op" where
  "write_op e d = DUpdate (at_write_ok e) (at_count_ok e) (at_written e) d"

lemma save_rows [simp]: "ws_rows (save e d s) = delivery_queue_step (write_op e d) (ws_rows s)"
  by (simp add: save_def write_op_def)

definition attempted :: "attempt_env \<Rightarrow> webhook_delivery \<Rightarrow> delivery_row list \<Rightarrow> webhook_delivery \<times> webhook_state \<Rightarrow> bool" where
  "attempted e d rows res \<longleftrightarrow>
     outcome_of d (fst res) \<and> wd_attempt_count (fst res) = wd_attempt_count d + 1 \<and>
     ws_rows (snd res) = delivery_queue_step (write_op e (fst res)) rows"

lemma finish_attempted [simp]:
  "finished_status st \<Longrightarrow> ws_rows s' = rows \<Longrightarrow>
   attempted e d rows (finish e st reason (d\<lparr>wd_attempt_count := wd_attempt_count d + 1\<rparr>) s')"
  by (simp add: attempted_def finish_def outcome_of_def Let_def)

lemma finished_status_simps [simp]: "finished_status DeliveryStatusFailed" "finished_status DeliveryStatusDelivered"
  by (simp_all add: finished_status_def)

lemma reschedule_attempted [simp]:
  assumes "ws_rows s' = rows"
  shows "attempted e d rows (reschedule e reason (d\<lparr>wd_attempt_count := wd_attempt_count d + 1\<rparr>) s')"
proof (cases "next_attempt (wd_attempt_count d + 1)")
  case None
  with assms show ?thesis by (simp add: reschedule_def)
next
  case (Some delay)
  with assms show ?thesis using next_attempt_bound [OF Some] by (simp add: attempted_def reschedule_def outcome_of_def Let_def)
qed

lemma post_simps [simp]: "fst (post hmac e sub d s) = at_post e" "ws_rows (snd (post hmac e sub d s)) = ws_rows s"
  by (simp_all add: post_def)

lemma attempt_step: "attempted e d (ws_rows s) (snd (attempt hmac e d s))"
proof (cases "at_sub e")
  case (SubRead sub)
  show ?thesis
  proof (cases sub)
    case (Some w)
    show ?thesis
    proof (cases "at_post e")
      case (PostStatus status)
      then show ?thesis by (simp only: attempt_def Let_def SubRead Some sub_read.case option.case split_beta post_simps post_result.case if_distrib [of snd] snd_conv) simp
    qed (simp_all add: attempt_def Let_def SubRead Some split_beta)
  qed (simp add: attempt_def Let_def SubRead)
qed (simp_all add: attempt_def Let_def)

definition outcome_op :: "webhook_delivery list \<Rightarrow> delivery_op \<Rightarrow> bool" where
  "outcome_op ds op \<longleftrightarrow>
     (case op of
        DUpdate ok cok now d' \<Rightarrow> \<exists>d \<in> set ds. outcome_of d d'
      | DDefer ok wid until now \<Rightarrow> \<exists>d \<in> set ds. wd_webhook_id d = wid
      | _ \<Rightarrow> False)"

definition written_back :: "(string \<Rightarrow> attempt_env) \<Rightarrow> webhook_delivery list \<Rightarrow> delivery_op list \<Rightarrow> bool" where
  "written_back env ds ops \<longleftrightarrow> (\<forall>d \<in> set ds. \<exists>d'. outcome_of d d' \<and> write_op (env (wd_id d)) d' \<in> set ops)"

definition pass_ops :: "(string \<Rightarrow> attempt_env) \<Rightarrow> webhook_delivery list \<Rightarrow> webhook_state \<Rightarrow> webhook_state \<Rightarrow> bool" where
  "pass_ops env ds s s' \<longleftrightarrow>
     (\<exists>ops. ws_rows s' = run delivery_queue_step ops (ws_rows s) \<and> list_all (outcome_op ds) ops \<and> written_back env ds ops)"

lemma outcome_op_mono: "outcome_op ds op \<Longrightarrow> set ds \<subseteq> set ds' \<Longrightarrow> outcome_op ds' op"
  by (auto simp: outcome_op_def split: delivery_op.splits)

lemma pass_ops_Nil: "pass_ops env [] s s"
  unfolding pass_ops_def by (rule exI [of _ "[]"]) (simp add: written_back_def)

lemma pass_ops_trans:
  assumes "pass_ops env ds s s1" "pass_ops env ds' s1 s2"
  shows "pass_ops env (ds @ ds') s s2"
proof -
  obtain o1 o2 where "ws_rows s1 = run delivery_queue_step o1 (ws_rows s)" "list_all (outcome_op ds) o1" "written_back env ds o1"
    "ws_rows s2 = run delivery_queue_step o2 (ws_rows s1)" "list_all (outcome_op ds') o2" "written_back env ds' o2"
    using assms unfolding pass_ops_def by blast
  note ops = this
  have "list_all (outcome_op (ds @ ds')) o1" "list_all (outcome_op (ds @ ds')) o2"
    using ops(2,5) by (auto simp: list_all_iff intro: outcome_op_mono)
  moreover have "written_back env (ds @ ds') (o1 @ o2)" using ops(3,6) unfolding written_back_def set_append by blast
  ultimately show ?thesis using ops(1,4) unfolding pass_ops_def by (intro exI [of _ "o1 @ o2"]) simp
qed

lemma pass_ops_one:
  "outcome_of d d' \<Longrightarrow> ws_rows s' = delivery_queue_step (write_op (env (wd_id d)) d') (ws_rows s) \<Longrightarrow> pass_ops env [d] s s'"
proof -
  assume d': "outcome_of d d'" and s': "ws_rows s' = delivery_queue_step (write_op (env (wd_id d)) d') (ws_rows s)"
  have "outcome_op [d] (write_op (env (wd_id d)) d')" using d' by (simp add: outcome_op_def write_op_def)
  moreover have "written_back env [d] [write_op (env (wd_id d)) d']" using d' unfolding written_back_def by auto
  ultimately show ?thesis using s' unfolding pass_ops_def by (intro exI [of _ "[write_op (env (wd_id d)) d']"]) simp
qed

lemma outcome_released: "outcome_of d (released d)" "outcome_of d (released (d\<lparr>wd_next_attempt_at := u\<rparr>))"
  by (simp_all add: outcome_of_def released_def)

lemma release_ops: "pass_ops env ds s (release env ds s)"
proof (induction ds arbitrary: s)
  case (Cons d ds)
  have "pass_ops env [d] s (save (env (wd_id d)) (released d) s)"
    by (rule pass_ops_one [OF outcome_released(1)]) simp
  from pass_ops_trans [OF this Cons.IH] show ?case by simp
qed (simp add: pass_ops_Nil)

lemma release_later_ops: "pass_ops env ds s (release env (map (\<lambda>d. d\<lparr>wd_next_attempt_at := u\<rparr>) ds) s)"
proof (induction ds arbitrary: s)
  case (Cons d ds)
  have "pass_ops env [d] s (save (env (wd_id d)) (released (d\<lparr>wd_next_attempt_at := u\<rparr>)) s)"
    by (rule pass_ops_one [OF outcome_released(2)]) simp
  from pass_ops_trans [OF this Cons.IH] show ?case by simp
qed (simp add: pass_ops_Nil)

lemma back_off_ops:
  assumes "d \<in> set ds" "wd_webhook_id d = wid"
  shows "pass_ops env ds s (back_off env b wid ds n s)"
proof -
  let ?u = "bo_clock b + back_off_delay n"
  obtain ops where ops: "ws_rows (release env (map (\<lambda>d. d\<lparr>wd_next_attempt_at := ?u\<rparr>) ds) s) = run delivery_queue_step ops (ws_rows s)"
    "list_all (outcome_op ds) ops" "written_back env ds ops"
    using release_later_ops [of env ds s ?u] unfolding pass_ops_def by blast
  have "outcome_op ds (DDefer (bo_ok b) wid ?u (bo_written b))" using assms by (auto simp: outcome_op_def)
  moreover have "written_back env ds (ops @ [DDefer (bo_ok b) wid ?u (bo_written b)])"
    using ops(3) unfolding written_back_def by auto
  ultimately show ?thesis using ops(1,2) unfolding pass_ops_def
    by (intro exI [of _ "ops @ [DDefer (bo_ok b) wid ?u (bo_written b)]"]) (simp add: back_off_def Let_def)
qed

lemma deliver_group_ops: "pass_ops env ds s (deliver_group hmac w env bo start_by streak worst ds s)"
proof (induction ds arbitrary: s streak worst)
  case (Cons d ds)
  let ?e = "env (wd_id d)" and ?a = "attempt hmac (env (wd_id d)) d s"
  show ?case
  proof (cases "at_cancelled ?e \<or> \<not> at_start ?e < start_by")
    case True
    then show ?thesis using release_ops by (simp del: release.simps)
  next
    case False
    note go = False
    show ?thesis
    proof (cases "dw_failure_streak w > 0 \<and> streak \<ge> dw_failure_streak w")
      case True
      then show ?thesis using go back_off_ops [of d "d # ds" "wd_webhook_id d"] by simp
    next
      case False
      have "attempted ?e d (ws_rows s) (snd ?a)" by (rule attempt_step)
      then have "pass_ops env [d] s (snd (snd ?a))"
        using pass_ops_one [of d "fst (snd ?a)"] unfolding attempted_def by blast
      note step = pass_ops_trans [OF this Cons.IH]
      have "deliver_group hmac w env bo start_by streak worst (d # ds) s =
          deliver_group hmac w env bo start_by (if fst ?a then streak + 1 else 0)
            (if fst ?a then max worst (wd_attempt_count (fst (snd ?a))) else worst) ds (snd (snd ?a))"
        using go False by (auto simp: Let_def split_beta)
      then show ?thesis using step by simp
    qed
  qed
qed (simp add: pass_ops_Nil)

lemma add_to_group_set: "set (concat (add_to_group d gs)) = insert d (set (concat gs))"
  by (induction gs) auto

lemma by_subscription_set: "set (concat (by_subscription due)) = set due"
proof -
  have "set (concat (fold add_to_group due gs)) = set due \<union> set (concat gs)" for gs
    by (induction due arbitrary: gs) (simp_all add: add_to_group_set del: set_concat)
  then show ?thesis by (simp add: by_subscription_def)
qed

lemma fold_groups_ops:
  "pass_ops env (concat groups) s (fold (deliver_group hmac w env bo start_by 0 0) groups s)"
proof (induction groups arbitrary: s)
  case (Cons g groups)
  from pass_ops_trans [OF deliver_group_ops Cons.IH] show ?case by simp
qed (simp add: pass_ops_Nil)

lemma process_due_ops:
  assumes "claim_due (de_claim_ok env) (de_read_ok env) (de_claim_clock env) (de_token env) (dw_batch_size w)
    (dw_per_subscription w) (dw_lease w) (ws_rows s) = (Inr due, rows)"
  obtains ops where "ws_rows (snd (process_due hmac w env s)) = run delivery_queue_step ops rows"
    "list_all (outcome_op due) ops" "written_back (de_rows env) due ops"
proof -
  let ?g = "concat (by_subscription due)"
  have "pass_ops (de_rows env) ?g (s\<lparr>ws_rows := rows\<rparr>) (snd (process_due hmac w env s))"
    using fold_groups_ops assms by (simp add: process_due_def Let_def)
  then obtain ops where "ws_rows (snd (process_due hmac w env s)) = run delivery_queue_step ops (ws_rows (s\<lparr>ws_rows := rows\<rparr>))"
    and ops: "list_all (outcome_op ?g) ops" "written_back (de_rows env) ?g ops" unfolding pass_ops_def by blast
  then have run: "ws_rows (snd (process_due hmac w env s)) = run delivery_queue_step ops rows" by simp
  have "set ?g \<subseteq> set due" by (simp only: by_subscription_set)
  then have "list_all (outcome_op due) ops" using ops(1) outcome_op_mono unfolding list_all_iff by blast
  moreover have "written_back (de_rows env) due ops"
    using ops(2) unfolding written_back_def by (simp only: by_subscription_set)
  ultimately show ?thesis using that run by blast
qed

section \<open>A pass hands every row back\<close>

lemma outcome_op_claims: "outcome_op ds op \<Longrightarrow> \<not> claims_under tok op"
  by (cases op) (simp_all add: outcome_op_def)

lemma update_where_cleared: "(\<And>r. p r \<Longrightarrow> \<not> p (f r)) \<Longrightarrow> r \<in> set (update_where p f rows) \<Longrightarrow> \<not> p r"
proof -
  assume cleared: "\<And>r. p r \<Longrightarrow> \<not> p (f r)" and "r \<in> set (update_where p f rows)"
  then obtain x where "r = (if p x then f x else x)" by (auto simp: set_update_where)
  with cleared show ?thesis by (cases "p x") simp_all
qed

lemma write_releases:
  "at_write_ok e \<Longrightarrow> wd_id d' = i \<Longrightarrow> wd_claim_token d' = tok \<Longrightarrow> tok \<noteq> [] \<Longrightarrow>
   not_held i tok (delivery_queue_step (write_op e d') rows)"
proof -
  assume "at_write_ok e" "wd_id d' = i" "wd_claim_token d' = tok" "tok \<noteq> []"
  then have "delivery_queue_step (write_op e d') rows = update_where (held_under i tok) (settle_delivery (at_written e) d') rows"
    by (simp add: write_op_def delivery_update_def Let_def)
  moreover have "\<not> held_under i tok (settle_delivery (at_written e) d' r)" for r
    by (simp add: held_under_def settle_delivery_def)
  ultimately show ?thesis using update_where_cleared [of "held_under i tok"] unfolding not_held_def by metis
qed

lemma claim_due_batch:
  assumes "claim_due ex rd now tok limit per lease rows = (Inr ds, rows')"
  shows "set ds = delivery_of tok ` set (holders dr_claim_token tok rows')"
    "rows' = claim_delivery_rows limit (if per < 1 then 1 else nat per) now tok (now + lease) rows"
  using assms by (auto simp: claim_due_def Let_def split: if_splits)

text \<open>
  C18. A pass over the notification queue hands back everything it claimed. Whatever the endpoints answer, whether
  the process is shutting down, the claim has run short or an endpoint was given up on, no row is left
  claimed under the pass's token when every outcome could be written.
\<close>

theorem pass_releases_claims:
  assumes "tok = de_token env" "tok \<noteq> []" "de_claim_ok env" "de_read_ok env" "\<forall>i. at_write_ok (de_rows env i)"
  shows "holders dr_claim_token tok (ws_rows (snd (process_due hmac w env s))) = []"
proof -
  obtain due rows where claim: "claim_due (de_claim_ok env) (de_read_ok env) (de_claim_clock env) (de_token env) (dw_batch_size w)
    (dw_per_subscription w) (dw_lease w) (ws_rows s) = (Inr due, rows)"
    using assms(3,4) by (simp add: claim_due_def Let_def)
  obtain ops where ops: "ws_rows (snd (process_due hmac w env s)) = run delivery_queue_step ops rows"
    "list_all (outcome_op due) ops" "written_back (de_rows env) due ops" by (rule process_due_ops [OF claim])
  have "not_held i tok (run delivery_queue_step ops rows)" for i
  proof (cases "i \<in> wd_id ` set due")
    case True
    then obtain d where d: "d \<in> set due" "wd_id d = i" by blast
    then obtain d' where d': "outcome_of d d'" "write_op (de_rows env i) d' \<in> set ops"
      using ops(3) by (auto simp: written_back_def)
    obtain o1 o2 where o: "ops = o1 @ write_op (de_rows env i) d' # o2" using split_list [OF d'(2)] by blast
    have "d \<in> delivery_of tok ` set (holders dr_claim_token tok rows)" using claim_due_batch(1) [OF claim] d(1) assms(1) by simp
    then have "wd_claim_token d = tok" by (auto simp: delivery_of_def)
    then have "not_held i tok (delivery_queue_step (write_op (de_rows env i) d') (run delivery_queue_step o1 rows))"
      using assms(2,5) d(2) d'(1) by (intro write_releases) (auto simp: outcome_of_def)
    moreover have "list_all (\<lambda>op. \<not> claims_under tok op) o2"
      using ops(2) outcome_op_claims unfolding o by (auto simp: list_all_iff)
    ultimately show ?thesis using stale_claim.run_inv unfolding o by simp
  next
    case False
    have "\<not> held_under i tok r" if "r \<in> set rows" for r
    proof
      assume "held_under i tok r"
      then have "delivery_of tok r \<in> set due" "dr_id r = i"
        using claim_due_batch(1) [OF claim] assms(1) that by (simp_all add: held_under_def holders_def)
      moreover have "wd_id (delivery_of tok r) = dr_id r" by (simp add: delivery_of_def)
      ultimately show False using False by force
    qed
    then have "not_held i tok rows" by (simp add: not_held_def)
    moreover have "list_all (\<lambda>op. \<not> claims_under tok op) ops"
      using ops(2) outcome_op_claims by (auto simp: list_all_iff)
    ultimately show ?thesis using stale_claim.run_inv by blast
  qed
  then show ?thesis using ops(1) by (auto simp: holders_def filter_empty_conv not_held_def held_under_def)
qed

section \<open>Attempts end\<close>

text \<open>A queue as the schedule leaves it: a notification under way was tried at most seven times.\<close>

definition within_schedule :: "delivery_row \<Rightarrow> bool" where
  "within_schedule r \<longleftrightarrow>
     0 \<le> dr_attempt_count r \<and> dr_attempt_count r \<le> (if finished_status (dr_status r) then 8 else 7) \<and>
     (dr_claim_token r \<noteq> None \<longrightarrow> dr_status r = DeliveryStatusSending)"

definition queue_ok :: "delivery_row list \<Rightarrow> bool" where
  "queue_ok rows \<longleftrightarrow> distinct (map dr_id rows) \<and> (\<forall>r \<in> set rows. within_schedule r)"

text \<open>The claimed notifications agree with the rows that are still held.\<close>

definition batch_ok :: "string \<Rightarrow> webhook_delivery list \<Rightarrow> delivery_row list \<Rightarrow> bool" where
  "batch_ok tok ds rows \<longleftrightarrow>
     (\<forall>d \<in> set ds. wd_claim_token d = tok \<and> 0 \<le> wd_attempt_count d \<and> wd_attempt_count d \<le> 7 \<and>
        (\<forall>r \<in> set rows. held_under (wd_id d) tok r \<longrightarrow> dr_attempt_count r = wd_attempt_count d))"

definition attempts_of :: "string \<Rightarrow> delivery_row list \<Rightarrow> int option" where
  "attempts_of i rows = map_option dr_attempt_count (find_row (\<lambda>r. dr_id r = i) rows)"

definition attempts_left :: "string \<Rightarrow> delivery_row list \<Rightarrow> nat" where
  "attempts_left i rows = (case attempts_of i rows of None \<Rightarrow> 0 | Some n \<Rightarrow> nat (8 - n))"

text \<open>One write: the count of a row stays or grows by one.\<close>

lemma outcome_within: "outcome_of d d' \<Longrightarrow> 0 \<le> wd_attempt_count d \<Longrightarrow> wd_attempt_count d \<le> 7 \<Longrightarrow> within_schedule (settle_delivery now d' r)"
  by (auto simp: outcome_of_def within_schedule_def settle_delivery_def finished_status_def)

lemma within_deferred: "within_schedule (r\<lparr>dr_next_attempt_at := u, dr_updated_at := t\<rparr>) = within_schedule r"
  by (simp add: within_schedule_def)

definition grows :: "delivery_row list \<Rightarrow> delivery_row list \<Rightarrow> bool" where
  "grows rows rows' \<longleftrightarrow>
     map dr_id rows' = map dr_id rows \<and>
     (\<forall>r \<in> set rows. \<forall>r' \<in> set rows'. dr_id r' = dr_id r \<longrightarrow> dr_attempt_count r \<le> dr_attempt_count r')"

lemma grows_updated:
  assumes "distinct (map dr_id rows)" "\<And>r. dr_id (f r) = dr_id r"
    "\<And>r. r \<in> set rows \<Longrightarrow> p r \<Longrightarrow> dr_attempt_count r \<le> dr_attempt_count (f r)"
  shows "grows rows (update_where p f rows)"
proof -
  have "dr_attempt_count r \<le> dr_attempt_count r'"
    if r: "r \<in> set rows" and r': "r' \<in> set (update_where p f rows)" and eq: "dr_id r' = dr_id r" for r r'
  proof -
    from r' obtain x where x: "x \<in> set rows" "r' = (if p x then f x else x)" by (auto simp: set_update_where)
    then have "dr_id x = dr_id r" using eq assms(2) by (auto split: if_splits)
    then have "x = r" using same_id_same_row [OF assms(1) x(1) r] by simp
    with x(2) assms(3) r show ?thesis by simp
  qed
  then show ?thesis using assms(2) by (simp add: grows_def map_update_where)
qed

lemma grows_refl: "distinct (map dr_id rows) \<Longrightarrow> grows rows rows"
  using same_id_same_row [of dr_id rows] by (fastforce simp: grows_def)

lemma grows_trans:
  assumes "grows a b" "grows b c"
  shows "grows a c"
proof -
  have "dr_attempt_count r \<le> dr_attempt_count r'"
    if "r \<in> set a" "r' \<in> set c" "dr_id r' = dr_id r" for r r'
  proof -
    have "dr_id r \<in> set (map dr_id b)" using assms(1) that(1) unfolding grows_def by simp
    then obtain x where "x \<in> set b" "dr_id x = dr_id r" by auto
    then show ?thesis using assms that unfolding grows_def by force
  qed
  then show ?thesis using assms by (simp add: grows_def)
qed

lemma delivery_outcome_step:
  assumes "queue_ok rows" "batch_ok tok ds rows" "outcome_op ds op"
  shows "queue_ok (delivery_queue_step op rows) \<and> batch_ok tok ds (delivery_queue_step op rows) \<and>
    grows rows (delivery_queue_step op rows)"
proof -
  have dist: "distinct (map dr_id rows)" using assms(1) by (simp add: queue_ok_def)
  have dist': "distinct (map dr_id (delivery_queue_step op rows))" using delivery_ids.step_inv dist by blast
  show ?thesis
  proof (cases op)
    case (DUpdate ok cok now d')
    obtain d where d: "d \<in> set ds" "outcome_of d d'" using assms(3) DUpdate by (auto simp: outcome_op_def)
    let ?p = "held_under (wd_id d') (wd_claim_token d')"
    let ?rows = "update_where ?p (settle_delivery now d') rows"
    have b: "wd_claim_token d = tok" "0 \<le> wd_attempt_count d" "wd_attempt_count d \<le> 7"
      "\<And>r. r \<in> set rows \<Longrightarrow> held_under (wd_id d) tok r \<Longrightarrow> dr_attempt_count r = wd_attempt_count d"
      using assms(2) d(1) by (auto simp: batch_ok_def)
    have "queue_ok ?rows"
      using assms(1) outcome_within [OF d(2) b(2,3)] by (auto simp: queue_ok_def set_update_where distinct_updated)
    moreover have "batch_ok tok ds ?rows"
      using assms(2) by (auto simp: batch_ok_def set_update_where held_under_def settle_delivery_def)
    moreover have "grows rows ?rows"
      using dist d(2) b(1,4) by (intro grows_updated) (auto simp: settle_delivery_def outcome_of_def)
    moreover have "delivery_queue_step op rows = rows \<or> delivery_queue_step op rows = ?rows"
      using DUpdate by (simp add: delivery_update_def Let_def)
    ultimately show ?thesis using assms(1,2) grows_refl [OF dist] by auto
  next
    case (DDefer ok wid until now)
    let ?rows = "update_where (deferrable wid until) (\<lambda>r. r\<lparr>dr_next_attempt_at := until, dr_updated_at := now\<rparr>) rows"
    have "queue_ok ?rows" using assms(1) by (auto simp: queue_ok_def set_update_where distinct_updated within_deferred)
    moreover have "batch_ok tok ds ?rows" using assms(2) by (auto simp: batch_ok_def set_update_where held_under_def)
    moreover have "grows rows ?rows" using dist by (intro grows_updated) auto
    ultimately show ?thesis using DDefer assms(1,2) grows_refl [OF dist] by (simp add: defer_subscription_def)
  qed (use assms(3) in \<open>simp_all add: outcome_op_def\<close>)
qed

lemma delivery_outcome_run:
  "list_all (outcome_op ds) ops \<Longrightarrow> queue_ok rows \<Longrightarrow> batch_ok tok ds rows \<Longrightarrow>
   queue_ok (run delivery_queue_step ops rows) \<and> grows rows (run delivery_queue_step ops rows)"
proof (induction ops arbitrary: rows)
  case (Cons op ops)
  note st = delivery_outcome_step [OF Cons.prems(2,3), of op]
  have "queue_ok (run delivery_queue_step ops (delivery_queue_step op rows)) \<and>
      grows (delivery_queue_step op rows) (run delivery_queue_step ops (delivery_queue_step op rows))"
    using Cons.IH [of "delivery_queue_step op rows"] Cons.prems(1) st by simp
  then show ?case using st Cons.prems(1) grows_trans by auto
qed (simp add: queue_ok_def grows_refl)

lemma claim_queue_ok:
  assumes "queue_ok rows"
  shows "queue_ok (snd (claim_due ex rd now tok limit per lease rows))"
    "grows rows (snd (claim_due ex rd now tok limit per lease rows))"
proof -
  let ?per = "if per < 1 then 1 else nat per"
  let ?p = "\<lambda>r. dr_id r \<in> set (due_batch now limit ?per rows)" and ?f = "take_delivery tok (now + lease) now"
  have dist: "distinct (map dr_id rows)" using assms by (simp add: queue_ok_def)
  have f: "within_schedule (?f r)" if "r \<in> set rows" "?p r" for r
  proof -
    from that(2) obtain x where "x \<in> set rows" "dr_id x = dr_id r" "delivery_due now x" by (auto dest: due_batch_row)
    then have "delivery_due now r" using same_id_same_row [OF dist] that(1) by metis
    then have "\<not> finished_status (dr_status r)" by (auto simp: delivery_due_def finished_status_def)
    moreover have "within_schedule r" using assms that(1) by (simp add: queue_ok_def)
    ultimately show ?thesis by (simp add: within_schedule_def take_delivery_def finished_status_def)
  qed
  have "queue_ok (update_where ?p ?f rows)"
    using assms f by (auto simp: queue_ok_def set_update_where distinct_updated)
  moreover have "grows rows (update_where ?p ?f rows)"
    using dist by (intro grows_updated) (auto simp: take_delivery_def)
  moreover have "snd (claim_due ex rd now tok limit per lease rows) = rows \<or>
      snd (claim_due ex rd now tok limit per lease rows) = update_where ?p ?f rows"
    by (simp add: claim_due_def Let_def claim_delivery_rows_def)
  ultimately show "queue_ok (snd (claim_due ex rd now tok limit per lease rows))"
    "grows rows (snd (claim_due ex rd now tok limit per lease rows))"
    using assms grows_refl [OF dist] by auto
qed

lemma claim_batch_ok:
  assumes "queue_ok rows" "claim_due ex rd now tok limit per lease rows = (Inr ds, rows')"
  shows "batch_ok tok ds rows'"
proof -
  have q: "queue_ok rows'" using claim_queue_ok(1) [OF assms(1)] assms(2) by (metis snd_conv)
  have "wd_claim_token d = tok \<and> 0 \<le> wd_attempt_count d \<and> wd_attempt_count d \<le> 7 \<and>
      (\<forall>r \<in> set rows'. held_under (wd_id d) tok r \<longrightarrow> dr_attempt_count r = wd_attempt_count d)" if d: "d \<in> set ds" for d
  proof -
    obtain h where h: "h \<in> set rows'" "dr_claim_token h = Some tok" "d = delivery_of tok h"
      using claim_due_batch(1) [OF assms(2)] d by (auto simp: holders_def)
    have "within_schedule h" using q h(1) by (simp add: queue_ok_def)
    then have "0 \<le> dr_attempt_count h" "dr_attempt_count h \<le> 7"
      using h(2) by (auto simp: within_schedule_def finished_status_def)
    moreover have "r = h" if "r \<in> set rows'" "held_under (wd_id d) tok r" for r
      using same_id_same_row [of dr_id rows' r h] q that h(1,3) by (simp add: queue_ok_def held_under_def delivery_of_def)
    ultimately show ?thesis using h(3) by (auto simp: delivery_of_def)
  qed
  then show ?thesis by (simp add: batch_ok_def)
qed

lemma process_due_queue:
  assumes "queue_ok (ws_rows s)"
  shows "queue_ok (ws_rows (snd (process_due hmac w env s))) \<and> grows (ws_rows s) (ws_rows (snd (process_due hmac w env s)))"
proof -
  let ?c = "claim_due (de_claim_ok env) (de_read_ok env) (de_claim_clock env) (de_token env) (dw_batch_size w)
    (dw_per_subscription w) (dw_lease w) (ws_rows s)"
  have c: "queue_ok (snd ?c)" "grows (ws_rows s) (snd ?c)" using claim_queue_ok [OF assms] by blast+
  show ?thesis
  proof (cases "fst ?c")
    case (Inl e)
    then have "process_due hmac w env s = (False, s\<lparr>ws_rows := snd ?c\<rparr>)" by (simp add: process_due_def split_beta)
    with c show ?thesis by simp
  next
    case (Inr due)
    then have claim: "?c = (Inr due, snd ?c)" by (metis prod.collapse)
    obtain ops where ops: "ws_rows (snd (process_due hmac w env s)) = run delivery_queue_step ops (snd ?c)"
      "list_all (outcome_op due) ops" "written_back (de_rows env) due ops" by (rule process_due_ops [OF claim])
    have "batch_ok (de_token env) due (snd ?c)" by (rule claim_batch_ok [OF assms claim])
    from delivery_outcome_run [OF ops(2) c(1) this] show ?thesis using ops(1) c(2) grows_trans by auto
  qed
qed

lemma enqueue_each_queue:
  "queue_ok rows \<Longrightarrow> queue_ok (enqueue_each env tenant event body subs rows)"
proof (induction subs arbitrary: rows)
  case (Cons sub subs)
  have "queue_ok (snd (delivery_create ok now (pending_delivery i tenant event body wid) rows))" for ok now i wid
    using Cons.prems by (auto simp: delivery_create_def Let_def queue_ok_def within_schedule_def pending_delivery_def finished_status_def)
  with Cons.IH show ?case by (simp add: Let_def)
qed simp

lemma find_row_snoc: "\<not> p y \<Longrightarrow> find_row p (xs @ [y]) = find_row p xs"
  by (induction xs) (auto simp: find_row_def)

lemma enqueue_each_attempts:
  "\<forall>wid. cv_id (env wid) \<noteq> i \<Longrightarrow> attempts_of i (enqueue_each env tenant event body subs rows) = attempts_of i rows"
proof (induction subs arbitrary: rows)
  case (Cons sub subs)
  have "attempts_of i (snd (delivery_create ok now (pending_delivery (cv_id (env wid)) tenant event body wid) rows)) = attempts_of i rows"
    for ok now wid
    using Cons.prems
    by (simp add: delivery_create_def Let_def attempts_of_def find_row_snoc pending_delivery_def)
  with Cons show ?case by (simp add: Let_def)
qed simp

text \<open>What the notifier does: passes of the worker, new notifications, pruning.\<close>

datatype webhook_op =
    WPass delivery_worker due_env
  | WEnqueue "(secret_error, webhook list) result" "string option" time "string \<Rightarrow> create_env" string string
  | WPrune bool bool time delivery_worker

primrec webhook_step :: "(string \<Rightarrow> string \<Rightarrow> string) \<Rightarrow> webhook_op \<Rightarrow> webhook_state \<Rightarrow> webhook_state" where
  "webhook_step hmac (WPass w env) s = snd (process_due hmac w env s)"
| "webhook_step hmac (WEnqueue subs payload now env tenant event) s = enqueue_event subs payload now env tenant event s"
| "webhook_step hmac (WPrune ok cok now w) s = snd (prune_deliveries_if_due ok cok now w s)"

primrec other_ids :: "string \<Rightarrow> webhook_op \<Rightarrow> bool" where
  "other_ids i (WPass w env) = True"
| "other_ids i (WEnqueue subs payload now env tenant event) = (\<forall>wid. cv_id (env wid) \<noteq> i)"
| "other_ids i (WPrune ok cok now w) = True"

text \<open>An operation after which one more attempt at the notification is on record.\<close>

definition records_attempt :: "(string \<Rightarrow> string \<Rightarrow> string) \<Rightarrow> string \<Rightarrow> webhook_op \<Rightarrow> webhook_state \<Rightarrow> bool" where
  "records_attempt hmac i op s \<longleftrightarrow>
     (case (attempts_of i (ws_rows s), attempts_of i (ws_rows (webhook_step hmac op s))) of
        (Some n, Some m) \<Rightarrow> n < m
      | _ \<Rightarrow> False)"

lemma grows_attempts:
  assumes "queue_ok rows" "grows rows rows'"
  shows "case attempts_of i rows of None \<Rightarrow> attempts_of i rows' = None | Some n \<Rightarrow> \<exists>m \<ge> n. attempts_of i rows' = Some m"
proof (cases "find_row (\<lambda>r. dr_id r = i) rows")
  case None
  then have "i \<notin> set (map dr_id rows)" by (auto simp: find_row_None)
  then have "i \<notin> set (map dr_id rows')" using assms(2) by (simp add: grows_def)
  then have "find_row (\<lambda>r. dr_id r = i) rows' = None" by (auto simp: find_row_None)
  with None show ?thesis by (simp add: attempts_of_def)
next
  case (Some r)
  then have r: "r \<in> set rows" "dr_id r = i" using find_row_Some by fastforce+
  then have "i \<in> set (map dr_id rows')" using assms(2) unfolding grows_def by force
  then obtain r' where r': "find_row (\<lambda>r. dr_id r = i) rows' = Some r'" by (cases "find_row (\<lambda>r. dr_id r = i) rows'") (auto simp: find_row_None)
  then have "r' \<in> set rows'" "dr_id r' = i" using find_row_Some by fastforce+
  then have "dr_attempt_count r \<le> dr_attempt_count r'" using assms(2) r unfolding grows_def by simp
  with Some r' show ?thesis by (simp add: attempts_of_def)
qed

lemma attempts_deleted:
  assumes "distinct (map dr_id rows)"
  shows "attempts_of i (delete_where p rows) = attempts_of i rows \<or> attempts_of i (delete_where p rows) = None"
proof (cases "find_row (\<lambda>r. dr_id r = i) (delete_where p rows)")
  case (Some r)
  then have "r \<in> set rows" "dr_id r = i" using find_row_Some in_delete_where by fastforce+
  then have "find_row (\<lambda>r. dr_id r = i) rows = Some r" using find_row_unique [OF assms, of r] by simp
  with Some show ?thesis by (simp add: attempts_of_def)
qed (simp add: attempts_of_def)

lemma attempts_left_mono:
  assumes "queue_ok (ws_rows s)" "other_ids i op"
  shows "attempts_left i (ws_rows (webhook_step hmac op s)) \<le> attempts_left i (ws_rows s)"
proof (cases op)
  case (WPass w env)
  with grows_attempts [OF assms(1), of "ws_rows (webhook_step hmac op s)" i] process_due_queue [OF assms(1)]
  show ?thesis by (auto simp: attempts_left_def split: option.splits)
next
  case (WEnqueue subs payload now env tenant event)
  then show ?thesis using assms(2)
    by (auto simp: enqueue_event_def attempts_left_def enqueue_each_attempts split: sum.splits option.splits)
next
  case (WPrune ok cok now w)
  let ?p = "\<lambda>r. delivery_terminal r \<and> dr_updated_at r < now - dw_retention w"
  have "attempts_of i (delete_where ?p (ws_rows s)) = attempts_of i (ws_rows s) \<or> attempts_of i (delete_where ?p (ws_rows s)) = None"
    using attempts_deleted assms(1) by (simp add: queue_ok_def)
  then have "attempts_left i (delete_where ?p (ws_rows s)) \<le> attempts_left i (ws_rows s)" by (auto simp: attempts_left_def)
  with WPrune show ?thesis by (simp add: prune_deliveries_if_due_def delivery_prune_terminal_def Let_def)
qed

lemma attempts_left_less:
  assumes "queue_ok (ws_rows (webhook_step hmac op s))" "records_attempt hmac i op s"
  shows "attempts_left i (ws_rows (webhook_step hmac op s)) < attempts_left i (ws_rows s)"
proof -
  let ?rows = "ws_rows (webhook_step hmac op s)"
  obtain n m where nm: "attempts_of i (ws_rows s) = Some n" "attempts_of i ?rows = Some m" "n < m"
    using assms(2) by (auto simp: records_attempt_def split: option.splits)
  then obtain r where r: "find_row (\<lambda>r. dr_id r = i) ?rows = Some r" "dr_attempt_count r = m" by (auto simp: attempts_of_def)
  then have "within_schedule r" using assms(1) find_row_Some by (fastforce simp: queue_ok_def)
  then have "m \<le> 8" using r(2) by (auto simp: within_schedule_def split: if_splits)
  with nm show ?thesis by (simp add: attempts_left_def)
qed

lemma webhook_step_queue: "queue_ok (ws_rows s) \<Longrightarrow> queue_ok (ws_rows (webhook_step hmac op s))"
proof (cases op)
  case (WPrune ok cok now w)
  assume "queue_ok (ws_rows s)"
  then have "queue_ok (delete_where p (ws_rows s))" for p
    by (auto simp: queue_ok_def distinct_delete_where in_delete_where)
  with WPrune \<open>queue_ok (ws_rows s)\<close> show ?thesis by (simp add: prune_deliveries_if_due_def delivery_prune_terminal_def Let_def)
qed (auto simp: process_due_queue enqueue_event_def enqueue_each_queue split: sum.splits option.splits)

interpretation notification_attempts: ranked_steps "webhook_step hmac" "other_ids i" "\<lambda>s. queue_ok (ws_rows s)"
  "\<lambda>s. attempts_left i (ws_rows s)" "records_attempt hmac i"
  by unfold_locales (simp_all add: webhook_step_queue attempts_left_mono attempts_left_less)

text \<open>
  C13. The worker gives up. Through any sequence of passes, new notifications and pruning, whatever the endpoints
  answer and whatever fails, at most eight attempts at one notification are recorded, and while it is
  unfinished it has at most seven on record.
\<close>

theorem notification_attempts_bounded:
  assumes "queue_ok (ws_rows s)" "list_all (other_ids i) ops"
  shows "length (filter (\<lambda>(op, t). records_attempt hmac i op t) (trace (webhook_step hmac) ops s)) \<le> 8 \<and>
    (\<forall>r \<in> set (ws_rows (run (webhook_step hmac) ops s)).
       dr_attempt_count r \<le> 8 \<and> (dr_attempt_count r = 8 \<longrightarrow> dr_status r \<in> {DeliveryStatusDelivered, DeliveryStatusFailed}))"
proof -
  have q: "queue_ok (ws_rows (run (webhook_step hmac) ops s))"
    using notification_attempts.run_inv assms by blast
  have "attempts_left i (ws_rows s) \<le> 8"
  proof (cases "find_row (\<lambda>r. dr_id r = i) (ws_rows s)")
    case (Some r)
    then have "within_schedule r" using assms(1) find_row_Some by (fastforce simp: queue_ok_def)
    then show ?thesis using Some by (simp add: attempts_left_def attempts_of_def within_schedule_def nat_le_iff)
  qed (simp add: attempts_left_def attempts_of_def)
  moreover have "length (filter (\<lambda>(op, t). records_attempt hmac i op t) (trace (webhook_step hmac) ops s)) +
      attempts_left i (ws_rows (run (webhook_step hmac) ops s)) \<le> attempts_left i (ws_rows s)"
    using notification_attempts.spending_bounded assms by blast
  moreover have "dr_attempt_count r \<le> 8 \<and> (dr_attempt_count r = 8 \<longrightarrow> dr_status r \<in> {DeliveryStatusDelivered, DeliveryStatusFailed})"
    if "r \<in> set (ws_rows (run (webhook_step hmac) ops s))" for r
    using q that by (auto simp: queue_ok_def within_schedule_def finished_status_def split: if_splits)
  ultimately show ?thesis by auto
qed

section \<open>What a signature covers\<close>

lemma hex_encode_inject: "hex_encode a = hex_encode b \<Longrightarrow> a = b"
  using hex_round_trip by (metis option.inject)

lemma split_at_dot:
  "c \<notin> set a \<Longrightarrow> c \<notin> set a' \<Longrightarrow> a @ c # b = a' @ c # b' \<Longrightarrow> a = a' \<and> b = b'"
proof (induction a arbitrary: a')
  case Nil
  then show ?case by (cases a') auto
next
  case (Cons x a)
  then show ?case by (cases a') auto
qed

text \<open>
  C29. A notification's signature covers its timestamp and its body together: two requests signed with the same
  secret carry the same signature only when they have the same timestamp and the same body, or the keyed
  digest itself collides. A captured body can therefore not be sent again under a later timestamp.
\<close>

theorem signature_covers:
  assumes "sign hmac secret t body = sign hmac secret t' body'"
  shows "t = t' \<and> body = body' \<or> (\<exists>m m'. m \<noteq> m' \<and> hmac secret m = hmac secret m')"
proof -
  have eq: "hmac secret (show_int t @ ''.'' @ body) = hmac secret (show_int t' @ ''.'' @ body')"
    using assms hex_encode_inject by (simp add: sign_def)
  have "t = t' \<and> body = body'" if "show_int t @ ''.'' @ body = show_int t' @ ''.'' @ body'"
    using split_at_dot [OF show_int_no_dot show_int_no_dot] that by auto
  with eq show ?thesis by blast
qed

theorem signature_covers_witness:
  "sign (\<lambda>k m. k @ m) ''key'' 5 ''{}'' = sign (\<lambda>k m. k @ m) ''key'' (2 + 3) ''{}'' \<and>
   ((5 :: int) = 2 + 3 \<and> ''{}'' = ''{}'' \<or> (\<exists>m m'. m \<noteq> m' \<and> ''key'' @ m = ''key'' @ m'))"
  using signature_covers [of "\<lambda>k m. k @ m" "''key''" 5 "''{}''" "2 + 3" "''{}''"] by simp

section \<open>Instances\<close>

definition sample_delivery :: webhook_delivery where
  "sample_delivery = delivery_of ''tok'' (take_delivery ''tok'' 120000000010 10 (sample_row ''n1'' ''w1'' 1))"

definition sample_attempt :: attempt_env where
  "sample_attempt =
     \<lparr>at_cancelled = False, at_start = 20, at_sub = SubNoRows, at_signed = 21, at_post = PostStatus 200, at_clock = 22,
      at_write_ok = True, at_count_ok = True, at_written = 60\<rparr>"

lemma sample_worker_claim:
  "fst (claim_due True True 10 ''tok'' 2 10 (dw_lease new_durable_worker) sample_rows) =
     Inr [sample_delivery, delivery_of ''tok'' (take_delivery ''tok'' 120000000010 10 (sample_row ''n3'' ''w2'' 3))]"
  by code_simp

theorem lease_covers_attempt_witness:
  "fst (delivery_update True True 60 (sample_delivery\<lparr>wd_status := DeliveryStatusFailed\<rparr>)
     (run delivery_queue_step [DClaim True True 50 ''other'' 5 5 100, DPrune True True 30]
       (snd (claim_due True True 10 ''tok'' 2 10 (dw_lease new_durable_worker) sample_rows)))) = Inr ()"
proof -
  let ?rows = "snd (claim_due True True 10 ''tok'' 2 10 (dw_lease new_durable_worker) sample_rows)"
  have claim: "claim_due True True 10 ''tok'' 2 10 (dw_lease new_durable_worker) sample_rows =
      (Inr [sample_delivery, delivery_of ''tok'' (take_delivery ''tok'' 120000000010 10 (sample_row ''n3'' ''w2'' 3))], ?rows)"
    using sample_worker_claim by (metis prod.collapse)
  have win: "start_window new_durable_worker = 60000000000" "dw_timeout new_durable_worker = 15000000000"
    "dw_save_reserve new_durable_worker = 10000000000"
    by (simp_all add: start_window_def new_durable_worker_def)
  have d: "wd_id sample_delivery = ''n1''" "wd_claim_token sample_delivery = ''tok''" by code_simp+
  have "list_all (leaves_lease (wd_id sample_delivery) ''tok'' (at_written sample_attempt))
      [DClaim True True 50 ''other'' 5 5 100, DPrune True True 30]" by (simp add: sample_attempt_def)
  note c = lease_covers_attempt [OF sample_rows_facts(1) sample_rows_facts(2) claim, of sample_delivery 5 sample_attempt
      "[DClaim True True 50 ''other'' 5 5 100, DPrune True True 30]" "sample_delivery\<lparr>wd_status := DeliveryStatusFailed\<rparr>"]
  show ?thesis using c win d by (simp add: sample_attempt_def)
qed

definition sample_due_env :: due_env where
  "sample_due_env =
     \<lparr>de_claimed_at = 5, de_claim_ok = True, de_read_ok = True, de_claim_clock = 10, de_token = ''tok'',
      de_rows = (\<lambda>_. sample_attempt), de_back_off = (\<lambda>_. \<lparr>bo_clock = 30, bo_ok = True, bo_written = 31\<rparr>)\<rparr>"

theorem pass_releases_claims_witness:
  "holders dr_claim_token ''tok'' (ws_rows (snd (process_due (\<lambda>k m. m) new_durable_worker sample_due_env
     \<lparr>ws_rows = sample_rows, ws_posts = []\<rparr>))) = []"
  by (rule pass_releases_claims) (simp_all add: sample_due_env_def sample_attempt_def)

theorem notification_attempts_bounded_witness:
  "length (filter (\<lambda>(op, t). records_attempt (\<lambda>k m. m) ''n1'' op t)
     (trace (webhook_step (\<lambda>k m. m)) [WPass new_durable_worker sample_due_env] \<lparr>ws_rows = sample_rows, ws_posts = []\<rparr>)) \<le> 8"
proof -
  have "queue_ok (ws_rows \<lparr>ws_rows = sample_rows, ws_posts = []\<rparr>)" by code_simp
  from notification_attempts_bounded [OF this, of "''n1''" "[WPass new_durable_worker sample_due_env]"] show ?thesis by simp
qed

end
