(* ===== verification/Egress.thy ===== *)
theory Egress
  imports Go_Prelude "HOL-Library.Word"
begin

text \<open>
  The egress policy of \<open>internal/webhook/egress/egress.go\<close>: which addresses a webhook may reach when the operator
  keeps webhooks on the public internet. An address is what \<open>net/netip\<close> holds: an IPv4 address is a
  32-bit word, an IPv6 address a 128-bit word with a zone. The predicates of \<open>netip.Addr\<close> are modelled on
  the bytes they test; the reference the policy is compared with lists address blocks.
\<close>

unbundle bit_operations_syntax

section \<open>Addresses\<close>

datatype ip_addr = AddrInvalid | Addr4 "32 word" | Addr6 "128 word" string

definition v4 :: "nat \<Rightarrow> 32 word \<Rightarrow> nat" where
  "v4 i a = unat a div 256 ^ (3 - i) mod 256"

definition v6 :: "nat \<Rightarrow> 128 word \<Rightarrow> nat" where
  "v6 i a = unat a div 256 ^ (15 - i) mod 256"

definition v6u16 :: "nat \<Rightarrow> 128 word \<Rightarrow> nat" where
  "v6u16 i a = unat a div 65536 ^ (7 - i) mod 65536"

fun unmap :: "ip_addr \<Rightarrow> ip_addr" where
  "unmap (Addr6 a z) = (if unat a div 2 ^ 32 = 0xffff then Addr4 (ucast a) else Addr6 a z)"
| "unmap ip = ip"

fun without_zone :: "ip_addr \<Rightarrow> ip_addr" where
  "without_zone (Addr6 a z) = Addr6 a []"
| "without_zone ip = ip"

fun is_private :: "ip_addr \<Rightarrow> bool" where
  "is_private (Addr4 a) \<longleftrightarrow>
     v4 0 a = 10 \<or> v4 0 a = 172 \<and> v4 1 a AND 0xf0 = 16 \<or> v4 0 a = 192 \<and> v4 1 a = 168"
| "is_private (Addr6 a z) \<longleftrightarrow> v6 0 a AND 0xfe = 0xfc"
| "is_private AddrInvalid \<longleftrightarrow> False"

fun is_loopback :: "ip_addr \<Rightarrow> bool" where
  "is_loopback (Addr4 a) \<longleftrightarrow> v4 0 a = 127"
| "is_loopback (Addr6 a z) \<longleftrightarrow> a = 1"
| "is_loopback AddrInvalid \<longleftrightarrow> False"

fun is_link_local_unicast :: "ip_addr \<Rightarrow> bool" where
  "is_link_local_unicast (Addr4 a) \<longleftrightarrow> v4 0 a = 169 \<and> v4 1 a = 254"
| "is_link_local_unicast (Addr6 a z) \<longleftrightarrow> v6u16 0 a AND 0xffc0 = 0xfe80"
| "is_link_local_unicast AddrInvalid \<longleftrightarrow> False"

fun is_link_local_multicast :: "ip_addr \<Rightarrow> bool" where
  "is_link_local_multicast (Addr4 a) \<longleftrightarrow> v4 0 a = 224 \<and> v4 1 a = 0 \<and> v4 2 a = 0"
| "is_link_local_multicast (Addr6 a z) \<longleftrightarrow> v6u16 0 a AND 0xff0f = 0xff02"
| "is_link_local_multicast AddrInvalid \<longleftrightarrow> False"

fun is_interface_local_multicast :: "ip_addr \<Rightarrow> bool" where
  "is_interface_local_multicast (Addr6 a z) \<longleftrightarrow> v6u16 0 a AND 0xff0f = 0xff01"
| "is_interface_local_multicast ip \<longleftrightarrow> False"

fun is_multicast :: "ip_addr \<Rightarrow> bool" where
  "is_multicast (Addr4 a) \<longleftrightarrow> v4 0 a AND 0xf0 = 0xe0"
| "is_multicast (Addr6 a z) \<longleftrightarrow> v6 0 a = 0xff"
| "is_multicast AddrInvalid \<longleftrightarrow> False"

fun is_unspecified :: "ip_addr \<Rightarrow> bool" where
  "is_unspecified (Addr4 a) \<longleftrightarrow> a = 0"
| "is_unspecified (Addr6 a z) \<longleftrightarrow> a = 0 \<and> z = []"
| "is_unspecified AddrInvalid \<longleftrightarrow> False"

fun prefix4_contains :: "32 word \<Rightarrow> nat \<Rightarrow> ip_addr \<Rightarrow> bool" where
  "prefix4_contains base len (Addr4 a) \<longleftrightarrow> unat a div 2 ^ (32 - len) = unat base div 2 ^ (32 - len)"
| "prefix4_contains base len ip \<longleftrightarrow> False"

fun prefix6_contains :: "128 word \<Rightarrow> nat \<Rightarrow> ip_addr \<Rightarrow> bool" where
  "prefix6_contains base len (Addr6 a z) \<longleftrightarrow> z = [] \<and> unat a div 2 ^ (128 - len) = unat base div 2 ^ (128 - len)"
| "prefix6_contains base len ip \<longleftrightarrow> False"

definition cgnat :: "ip_addr \<Rightarrow> bool" where "cgnat = prefix4_contains 0x64400000 10"
definition this_network :: "ip_addr \<Rightarrow> bool" where "this_network = prefix4_contains 0 8"
definition nat64 :: "ip_addr \<Rightarrow> bool" where "nat64 = prefix6_contains 0x64ff9b000000000000000000000000 96"

text \<open>\<open>netip.AddrFrom4\<close> on the last four bytes of an address in the NAT64 prefix.\<close>

fun embedded4 :: "ip_addr \<Rightarrow> ip_addr" where
  "embedded4 (Addr6 a z) = Addr4 (ucast a)"
| "embedded4 ip = ip"

definition disallowed :: "ip_addr \<Rightarrow> bool" where
  "disallowed ip0 \<longleftrightarrow>
     ip0 = AddrInvalid \<or>
     (let ip1 = without_zone (unmap ip0);
          ip = (if nat64 ip1 then embedded4 ip1 else ip1)
      in is_private ip \<or> is_loopback ip \<or> is_link_local_unicast ip \<or> is_link_local_multicast ip \<or>
         is_interface_local_multicast ip \<or> is_multicast ip \<or> is_unspecified ip \<or> cgnat ip \<or> this_network ip)"

section \<open>The two checks\<close>

datatype egress_error = ErrDisallowed | InvalidWebhookUrl

text \<open>The address a socket is about to connect to, as \<open>netip.ParseAddrPort\<close> reads it.\<close>

definition control :: "ip_addr option \<Rightarrow> (egress_error, unit) result" where
  "control address =
     (case address of
        None \<Rightarrow> Inl ErrDisallowed
      | Some ip \<Rightarrow> if disallowed ip then Inl ErrDisallowed else Inr ())"

text \<open>What \<open>url.Parse\<close> and \<open>netip.ParseAddr\<close> make of a URL: no URL, no host, an address, or a name.\<close>

datatype url_host = UrlUnparsed | UrlNoHost | UrlAddr ip_addr | UrlName string

definition check_url :: "(string \<Rightarrow> ip_addr list option) \<Rightarrow> url_host \<Rightarrow> (egress_error, unit) result" where
  "check_url lookup u =
     (case u of
        UrlUnparsed \<Rightarrow> Inl InvalidWebhookUrl
      | UrlNoHost \<Rightarrow> Inl InvalidWebhookUrl
      | UrlAddr ip \<Rightarrow> if disallowed ip then Inl ErrDisallowed else Inr ()
      | UrlName h \<Rightarrow>
          (case lookup h of
             None \<Rightarrow> Inr ()
           | Some addrs \<Rightarrow> if \<exists>ip \<in> set addrs. disallowed ip then Inl ErrDisallowed else Inr ()))"

text \<open>The redirect rule of \<open>newDeliveryClient\<close>: scheme and host of the next request and of the first.\<close>

datatype redirect_verdict = FollowRedirect | UseLastResponse | StopRedirects

definition check_redirect :: "nat \<Rightarrow> string \<times> string \<Rightarrow> string \<times> string \<Rightarrow> redirect_verdict" where
  "check_redirect via next_req first_req =
     (if via \<ge> 10 then StopRedirects
      else if snd next_req \<noteq> snd first_req \<or> fst next_req \<noteq> fst first_req then UseLastResponse
      else FollowRedirect)"

section \<open>The policy as a list of blocks\<close>

text \<open>An address block: the numbers from its base on, as many as its prefix leaves open.\<close>

definition in_block :: "nat \<Rightarrow> nat \<times> nat \<Rightarrow> bool" where
  "in_block n b \<longleftrightarrow> fst b \<le> n \<and> n < fst b + 2 ^ snd b"

definition quad :: "nat \<Rightarrow> nat \<Rightarrow> nat \<Rightarrow> nat \<Rightarrow> nat" where
  "quad a b c d = ((a * 256 + b) * 256 + c) * 256 + d"

text \<open>
  0.0.0.0/8, 10.0.0.0/8, 100.64.0.0/10, 127.0.0.0/8, 169.254.0.0/16, 172.16.0.0/12, 192.168.0.0/16, 224.0.0.0/4;
  ::/128, ::1/128, fc00::/7, fe80::/10, ff00::/8.
\<close>

definition blocks4 :: "(nat \<times> nat) list" where
  "blocks4 = [(quad 0 0 0 0, 24), (quad 10 0 0 0, 24), (quad 100 64 0 0, 22), (quad 127 0 0 0, 24),
     (quad 169 254 0 0, 16), (quad 172 16 0 0, 20), (quad 192 168 0 0, 16), (quad 224 0 0 0, 28)]"

definition blocks6 :: "(nat \<times> nat) list" where
  "blocks6 = [(0, 0), (1, 0), (0xfc * 2 ^ 120, 121), (0xfe80 * 2 ^ 112, 118), (0xff * 2 ^ 120, 120)]"

definition reserved4 :: "nat \<Rightarrow> bool" where
  "reserved4 n \<longleftrightarrow> list_ex (in_block n) blocks4"

text \<open>An IPv6 address that embeds an IPv4 one, mapped or through NAT64, is reserved when that one is.\<close>

fun reserved :: "ip_addr \<Rightarrow> bool" where
  "reserved AddrInvalid \<longleftrightarrow> True"
| "reserved (Addr4 a) \<longleftrightarrow> reserved4 (unat a)"
| "reserved (Addr6 a z) \<longleftrightarrow>
     list_ex (in_block (unat a)) blocks6 \<or>
     unat a div 2 ^ 32 \<in> {0xffff, 0x64ff9b * 2 ^ 64} \<and> reserved4 (unat a mod 2 ^ 32)"

section \<open>Bytes and blocks\<close>

lemma and_window: "(b :: nat) AND push_bit k (mask m) = 2 ^ k * (b div 2 ^ k mod 2 ^ m)"
proof -
  have "b AND push_bit k (mask m) = push_bit k (take_bit m (drop_bit k b))"
    by (rule bit_eqI) (auto simp: bit_simps)
  then show ?thesis by (simp add: push_bit_eq_mult drop_bit_eq_div take_bit_eq_mod mult.commute)
qed

lemma and_bytes:
  "(b :: nat) AND 0xf0 = 16 * (b div 16 mod 16)" "b AND 0xfe = 2 * (b div 2 mod 128)" "b AND 0xffc0 = 64 * (b div 64 mod 1024)"
  using and_window [of b 4 4] and_window [of b 1 7] and_window [of b 6 10]
  by (simp_all add: push_bit_eq_mult mask_eq_exp_minus_1)

lemma and_high_byte:
  assumes "(b :: nat) AND 0xff0f = c" "c div 256 = 255"
  shows "b div 256 mod 256 = 255"
proof -
  have "drop_bit 8 (b AND 0xff0f) = drop_bit 8 b AND drop_bit 8 0xff0f" by (rule drop_bit_and)
  then have "c div 256 = (b div 256) AND 255" using assms(1) by (simp add: drop_bit_eq_div)
  moreover have "(b div 256) AND 255 = b div 256 mod 256"
    using and_window [of "b div 256" 0 8] by (simp add: mask_eq_exp_minus_1)
  ultimately show ?thesis using assms(2) by simp
qed

lemma div_eq_block: "0 < k \<Longrightarrow> (n :: nat) div k = c \<longleftrightarrow> c * k \<le> n \<and> n < c * k + k"
proof
  assume k: "0 < k" and "n div k = c"
  then show "c * k \<le> n \<and> n < c * k + k" using dividend_less_div_times [OF k, of n] by auto
next
  assume "0 < k" "c * k \<le> n \<and> n < c * k + k"
  then show "n div k = c" by (intro div_nat_eqI) (simp_all add: mult.commute)
qed

lemma v4_bounds: "unat (a :: 32 word) < 4294967296"
  using unsigned_less [of a, where ?'a = nat] by simp

lemma v4_head: "v4 0 a = unat a div 16777216"
  using v4_bounds [of a] by (simp add: v4_def less_mult_imp_div_less)

lemma v4_second: "unat a div 65536 = 256 * v4 0 a + v4 1 a"
proof -
  have "unat a div 16777216 = unat a div 65536 div 256" by (simp add: div_mult2_eq [symmetric])
  then show ?thesis unfolding v4_head by (simp add: v4_def)
qed

lemma v4_second_less: "v4 1 a < 256" "v4 0 a < 256"
  by (simp_all add: v4_def)

definition bad4 :: "32 word \<Rightarrow> bool" where
  "bad4 a \<longleftrightarrow>
     (let ip = Addr4 a
      in is_private ip \<or> is_loopback ip \<or> is_link_local_unicast ip \<or> is_link_local_multicast ip \<or>
         is_interface_local_multicast ip \<or> is_multicast ip \<or> is_unspecified ip \<or> cgnat ip \<or> this_network ip)"

lemma nibble: "b < 256 \<Longrightarrow> (b :: nat) div 16 mod 16 = b div 16"
  by (simp add: less_mult_imp_div_less)

text \<open>The four blocks wider or narrower than a byte, and the two that test two bytes.\<close>

lemma block_16:
  "v4 0 a = x \<and> v4 1 a = y \<longleftrightarrow> unat a div 65536 = 256 * x + y" if "x < 256" "y < 256"
  unfolding v4_second using v4_second_less [of a] that by (auto dest: arg_cong [where f = "\<lambda>n. n mod 256"] arg_cong [where f = "\<lambda>n. n div 256"])

lemma block_12: "v4 0 a = 172 \<and> v4 1 a AND 0xf0 = 16 \<longleftrightarrow> unat a div 1048576 = 2753"
proof -
  have "unat a div 1048576 = unat a div 65536 div 16" by (simp add: div_mult2_eq [symmetric])
  also have "\<dots> = 16 * v4 0 a + v4 1 a div 16" unfolding v4_second by simp
  finally have "unat a div 1048576 = 16 * v4 0 a + v4 1 a div 16" .
  moreover have "v4 1 a div 16 < 16" using v4_second_less(1) [of a] by (simp add: less_mult_imp_div_less)
  moreover have "16 * x + y = 2753 \<longleftrightarrow> x = 172 \<and> y = 1" if "y < 16" for x y :: nat using that by presburger
  ultimately show ?thesis using nibble [OF v4_second_less(1), of a] by (auto simp: and_bytes)
qed

lemma block_4: "v4 0 a AND 0xf0 = 0xe0 \<longleftrightarrow> unat a div 268435456 = 14"
proof -
  have "unat a div 268435456 = v4 0 a div 16" by (simp add: v4_head div_mult2_eq [symmetric])
  then show ?thesis using nibble [OF v4_second_less(2), of a] by (auto simp: and_bytes)
qed

lemma bad4_reserved: "bad4 a \<longleftrightarrow> reserved4 (unat a)"
proof -
  have head: "v4 0 a = x \<longleftrightarrow> x * 16777216 \<le> unat a \<and> unat a < x * 16777216 + 16777216" for x
    unfolding v4_head by (rule div_eq_block) simp
  have second: "v4 0 a = x \<and> v4 1 a = y \<longleftrightarrow>
      (256 * x + y) * 65536 \<le> unat a \<and> unat a < (256 * x + y) * 65536 + 65536" if "x < 256" "y < 256" for x y
    unfolding block_16 [OF that] by (rule div_eq_block) simp
  have twelve: "v4 0 a = 172 \<and> v4 1 a AND 0xf0 = 16 \<longleftrightarrow> 2753 * 1048576 \<le> unat a \<and> unat a < 2753 * 1048576 + 1048576"
    unfolding block_12 by (rule div_eq_block) simp
  have four: "v4 0 a AND 0xf0 = 0xe0 \<longleftrightarrow> 14 * 268435456 \<le> unat a \<and> unat a < 14 * 268435456 + 268435456"
    unfolding block_4 by (rule div_eq_block) simp
  have ten: "cgnat (Addr4 a) \<longleftrightarrow> 401 * 4194304 \<le> unat a \<and> unat a < 401 * 4194304 + 4194304"
    unfolding cgnat_def using div_eq_block [of 4194304 "unat a" 401] by simp
  have eight: "this_network (Addr4 a) \<longleftrightarrow> unat a < 16777216"
    unfolding this_network_def using div_eq_block [of 16777216 "unat a" 0] by simp
  have mc: "is_link_local_multicast (Addr4 a) \<longrightarrow> is_multicast (Addr4 a)" "is_unspecified (Addr4 a) \<longrightarrow> this_network (Addr4 a)"
    by (auto simp: this_network_def)
  have "bad4 a \<longleftrightarrow> (v4 0 a = 10 \<or> v4 0 a = 172 \<and> v4 1 a AND 0xf0 = 16 \<or> v4 0 a = 192 \<and> v4 1 a = 168) \<or>
      v4 0 a = 127 \<or> v4 0 a = 169 \<and> v4 1 a = 254 \<or> v4 0 a AND 0xf0 = 0xe0 \<or> cgnat (Addr4 a) \<or> this_network (Addr4 a)"
    using mc by (auto simp: bad4_def)
  also have "\<dots> \<longleftrightarrow> reserved4 (unat a)"
  proof -
    have b: "in_block n (quad 10 0 0 0, 24) \<longleftrightarrow> 10 * 16777216 \<le> n \<and> n < 10 * 16777216 + 16777216"
      "in_block n (quad 127 0 0 0, 24) \<longleftrightarrow> 127 * 16777216 \<le> n \<and> n < 127 * 16777216 + 16777216"
      "in_block n (quad 0 0 0 0, 24) \<longleftrightarrow> n < 16777216"
      "in_block n (quad 100 64 0 0, 22) \<longleftrightarrow> 401 * 4194304 \<le> n \<and> n < 401 * 4194304 + 4194304"
      "in_block n (quad 169 254 0 0, 16) \<longleftrightarrow> (256 * 169 + 254) * 65536 \<le> n \<and> n < (256 * 169 + 254) * 65536 + 65536"
      "in_block n (quad 172 16 0 0, 20) \<longleftrightarrow> 2753 * 1048576 \<le> n \<and> n < 2753 * 1048576 + 1048576"
      "in_block n (quad 192 168 0 0, 16) \<longleftrightarrow> (256 * 192 + 168) * 65536 \<le> n \<and> n < (256 * 192 + 168) * 65536 + 65536"
      "in_block n (quad 224 0 0 0, 28) \<longleftrightarrow> 14 * 268435456 \<le> n \<and> n < 14 * 268435456 + 268435456" for n
      by (simp_all add: in_block_def quad_def)
    have "v4 0 a = 10 \<longleftrightarrow> in_block (unat a) (quad 10 0 0 0, 24)" "v4 0 a = 127 \<longleftrightarrow> in_block (unat a) (quad 127 0 0 0, 24)"
      "this_network (Addr4 a) \<longleftrightarrow> in_block (unat a) (quad 0 0 0 0, 24)" "cgnat (Addr4 a) \<longleftrightarrow> in_block (unat a) (quad 100 64 0 0, 22)"
      "v4 0 a = 169 \<and> v4 1 a = 254 \<longleftrightarrow> in_block (unat a) (quad 169 254 0 0, 16)"
      "v4 0 a = 172 \<and> v4 1 a AND 0xf0 = 16 \<longleftrightarrow> in_block (unat a) (quad 172 16 0 0, 20)"
      "v4 0 a = 192 \<and> v4 1 a = 168 \<longleftrightarrow> in_block (unat a) (quad 192 168 0 0, 16)"
      "v4 0 a AND 0xf0 = 0xe0 \<longleftrightarrow> in_block (unat a) (quad 224 0 0 0, 28)"
      unfolding b using head [of 10] head [of 127] second [of 169 254] second [of 192 168] twelve four ten eight by simp_all
    then show ?thesis unfolding reserved4_def blocks4_def list_ex_iff by (simp only: list.set bex_simps) blast
  qed
  finally show ?thesis .
qed

section \<open>IPv6\<close>

definition bad6 :: "128 word \<Rightarrow> bool" where
  "bad6 a \<longleftrightarrow>
     (let ip = Addr6 a []
      in is_private ip \<or> is_loopback ip \<or> is_link_local_unicast ip \<or> is_link_local_multicast ip \<or>
         is_interface_local_multicast ip \<or> is_multicast ip \<or> is_unspecified ip \<or> cgnat ip \<or> this_network ip)"

lemma v6_bounds: "unat (a :: 128 word) < 2 ^ 128"
  using unsigned_less [of a, where ?'a = nat] by simp

lemma v6_head: "v6 0 a = unat a div 2 ^ 120" "v6u16 0 a = unat a div 2 ^ 112"
proof -
  have "unat a div 2 ^ 120 < 256" "unat a div 2 ^ 112 < 65536"
    using v6_bounds [of a] by (simp_all add: less_mult_imp_div_less)
  then show "v6 0 a = unat a div 2 ^ 120" "v6u16 0 a = unat a div 2 ^ 112" by (simp_all add: v6_def v6u16_def)
qed

lemma v6_less: "v6 0 a < 256" "v6u16 0 a < 65536"
  by (simp_all add: v6_def v6u16_def)

lemma block6_7: "v6 0 a AND 0xfe = 0xfc \<longleftrightarrow> unat a div 2 ^ 121 = 126"
proof -
  have "unat a div 2 ^ 121 = v6 0 a div 2" unfolding v6_head by (simp add: div_mult2_eq [symmetric])
  moreover have "v6 0 a div 2 mod 128 = v6 0 a div 2" using v6_less(1) [of a] by (simp add: less_mult_imp_div_less)
  ultimately show ?thesis by (auto simp: and_bytes)
qed

lemma block6_10: "v6u16 0 a AND 0xffc0 = 0xfe80 \<longleftrightarrow> unat a div 2 ^ 118 = 1018"
proof -
  have "unat a div 2 ^ 118 = v6u16 0 a div 64" unfolding v6_head by (simp add: div_mult2_eq [symmetric])
  moreover have "v6u16 0 a div 64 mod 1024 = v6u16 0 a div 64" using v6_less(2) [of a] by (simp add: less_mult_imp_div_less)
  ultimately show ?thesis by (auto simp: and_bytes)
qed

lemma local_multicast: "v6u16 0 a AND 0xff0f \<in> {0xff01, 0xff02} \<Longrightarrow> v6 0 a = 0xff"
proof -
  assume "v6u16 0 a AND 0xff0f \<in> {0xff01, 0xff02}"
  then have "v6u16 0 a div 256 mod 256 = 255" using and_high_byte by auto
  moreover have "v6u16 0 a div 256 mod 256 = v6u16 0 a div 256" using v6_less(2) [of a] by (simp add: less_mult_imp_div_less)
  moreover have "v6u16 0 a div 256 = v6 0 a" unfolding v6_head by (simp add: div_mult2_eq [symmetric])
  ultimately show ?thesis by simp
qed

lemma bad6_reserved: "bad6 a \<longleftrightarrow> list_ex (in_block (unat a)) blocks6"
proof -
  have "bad6 a \<longleftrightarrow> v6 0 a AND 0xfe = 0xfc \<or> a = 1 \<or> v6u16 0 a AND 0xffc0 = 0xfe80 \<or> v6 0 a = 0xff \<or> a = 0"
  proof -
    have "v6u16 0 a AND 0xff0f = 0xff01 \<or> v6u16 0 a AND 0xff0f = 0xff02 \<longrightarrow> v6 0 a = 0xff" using local_multicast [of a] by blast
    then show ?thesis
      unfolding bad6_def Let_def cgnat_def this_network_def is_private.simps is_loopback.simps is_link_local_unicast.simps
        is_link_local_multicast.simps is_interface_local_multicast.simps is_multicast.simps is_unspecified.simps prefix4_contains.simps
      by blast
  qed
  moreover have "v6 0 a = 0xff \<longleftrightarrow> 255 * 2 ^ 120 \<le> unat a \<and> unat a < 255 * 2 ^ 120 + 2 ^ 120"
    unfolding v6_head by (rule div_eq_block) simp
  moreover have "v6 0 a AND 0xfe = 0xfc \<longleftrightarrow> 126 * 2 ^ 121 \<le> unat a \<and> unat a < 126 * 2 ^ 121 + 2 ^ 121"
    unfolding block6_7 by (rule div_eq_block) simp
  moreover have "v6u16 0 a AND 0xffc0 = 0xfe80 \<longleftrightarrow> 1018 * 2 ^ 118 \<le> unat a \<and> unat a < 1018 * 2 ^ 118 + 2 ^ 118"
    unfolding block6_10 by (rule div_eq_block) simp
  moreover have "a = 0 \<longleftrightarrow> unat a = 0" "a = 1 \<longleftrightarrow> unat a = 1"
    using word_unat_eq_iff [of a 0] word_unat_eq_iff [of a 1] by simp_all
  moreover have "list_ex (in_block n) blocks6 \<longleftrightarrow>
      n = 0 \<or> n = 1 \<or> 126 * 2 ^ 121 \<le> n \<and> n < 126 * 2 ^ 121 + 2 ^ 121 \<or>
      1018 * 2 ^ 118 \<le> n \<and> n < 1018 * 2 ^ 118 + 2 ^ 118 \<or> 255 * 2 ^ 120 \<le> n \<and> n < 255 * 2 ^ 120 + 2 ^ 120" for n :: nat
  proof -
    have "in_block n (0, 0) \<longleftrightarrow> n = 0" "in_block n (1, 0) \<longleftrightarrow> n = 1" by (auto simp: in_block_def)
    moreover have "in_block n (0xfc * 2 ^ 120, 121) \<longleftrightarrow> 126 * 2 ^ 121 \<le> n \<and> n < 126 * 2 ^ 121 + 2 ^ 121"
      "in_block n (0xfe80 * 2 ^ 112, 118) \<longleftrightarrow> 1018 * 2 ^ 118 \<le> n \<and> n < 1018 * 2 ^ 118 + 2 ^ 118"
      "in_block n (0xff * 2 ^ 120, 120) \<longleftrightarrow> 255 * 2 ^ 120 \<le> n \<and> n < 255 * 2 ^ 120 + 2 ^ 120"
      by (simp_all add: in_block_def)
    ultimately show ?thesis unfolding blocks6_def list_ex_iff list.set bex_simps by (simp only: simp_thms)
  qed
  ultimately show ?thesis by (simp only: simp_thms disj_ac)
qed

section \<open>The policy is the list\<close>

lemma low_word: "unat (ucast a :: 32 word) = unat (a :: 128 word) mod 2 ^ 32"
  by (simp add: unsigned_ucast_eq take_bit_eq_mod)

lemma nat64_iff: "nat64 (Addr6 a []) \<longleftrightarrow> unat a div 2 ^ 32 = 0x64ff9b * 2 ^ 64"
  by (simp add: nat64_def)

lemma embedding_outside:
  assumes "unat a div 2 ^ 32 \<in> {0xffff, 0x64ff9b * 2 ^ 64}"
  shows "\<not> list_ex (in_block (unat a)) blocks6"
proof -
  obtain c where c: "c = 0xffff \<or> c = 0x64ff9b * 2 ^ 64" "unat a div 2 ^ 32 = c" using assms by blast
  then have "c * 2 ^ 32 \<le> unat a \<and> unat a < c * 2 ^ 32 + 2 ^ 32" using div_eq_block [of "2 ^ 32" "unat a" c] by simp
  with c(1) have "1 < unat a" "unat a < 126 * 2 ^ 121" by auto
  then show ?thesis by (simp add: blocks6_def in_block_def)
qed

lemma disallowed_reserved: "disallowed ip \<longleftrightarrow> reserved ip"
proof (cases ip)
  case (Addr4 a)
  then show ?thesis using bad4_reserved [of a]
    by (simp add: disallowed_def nat64_def Let_def bad4_def)
next
  case (Addr6 a z)
  consider (mapped) "unat a div 2 ^ 32 = 0xffff" | (nat64) "unat a div 2 ^ 32 = 0x64ff9b * 2 ^ 64"
    | (other) "unat a div 2 ^ 32 \<notin> {0xffff, 0x64ff9b * 2 ^ 64}" by auto
  then show ?thesis
  proof cases
    case mapped
    then show ?thesis using bad4_reserved [of "ucast a"] embedding_outside [of a] Addr6
      by (simp add: disallowed_def Let_def bad4_def nat64_def low_word)
  next
    case nat64
    then have "disallowed ip \<longleftrightarrow> bad4 (ucast a)" using Addr6 nat64_iff [of a] by (simp add: disallowed_def Let_def bad4_def)
    then show ?thesis using bad4_reserved [of "ucast a"] embedding_outside [of a] Addr6 nat64 by (simp add: low_word)
  next
    case other
    then have "disallowed ip \<longleftrightarrow> bad6 a" using Addr6 nat64_iff [of a] by (simp add: disallowed_def Let_def bad6_def)
    then show ?thesis using bad6_reserved [of a] other Addr6 by simp
  qed
qed (simp add: disallowed_def)

text \<open>
  C24. The addresses a restricted webhook client refuses to connect to, and the ones the policy refuses when a
  subscription is saved, are exactly the blocks it names: private, loopback, link-local,
  shared (CGNAT), this-network and multicast addresses, the unspecified address, for IPv4 and IPv6, and the
  IPv6 addresses in which one of those IPv4 addresses is embedded, mapped or through NAT64, under every zone.
\<close>

theorem egress_refuses_reserved:
  "(control (Some ip) = Inl ErrDisallowed \<longleftrightarrow> reserved ip) \<and>
   (check_url lookup (UrlAddr ip) = Inl ErrDisallowed \<longleftrightarrow> reserved ip) \<and>
   (check_url lookup (UrlName h) = Inl ErrDisallowed \<longleftrightarrow> (\<exists>addrs. lookup h = Some addrs \<and> list_ex reserved addrs))"
  by (auto simp: control_def check_url_def disallowed_reserved list_ex_iff split: option.splits)

end
