(* ===== verification/Webhook_Admin.thy ===== *)
theory Webhook_Admin
  imports Webhook_Worker Egress
begin

text \<open>
  Webhook subscriptions: the store of \<open>internal/webhook/repositories/stores/postgres/store.go\<close>, the use case of
  \<open>internal/webhook/usecases/webhook_usecase.go\<close>, and the service of \<open>internal/webhook/services\<close> with the samples it
  sends. The JSON text of the events column is the list it denotes, absent when it does not parse. A query
  that returns rows takes the number of rows the driver delivers before it fails, if it fails.
\<close>

section \<open>The store\<close>

record webhook_row =
  wr_id :: string
  wr_tenant_id :: string
  wr_name :: string
  wr_url :: string
  wr_events :: "int list option"
  wr_active :: bool
  wr_secret :: string
  wr_created_at :: time
  wr_updated_at :: time

datatype webhook_error =
    WebhooksUnavailable | WebhookDuplicateId | WebhookNoRows | SecretUnsealed secret_error | SecretUndecrypted secret_error
  | EventsUnreadable | TargetRefused egress_error | NoSigningSecret secret_error

definition row_of_webhook :: "string \<Rightarrow> webhook \<Rightarrow> webhook_row" where
  "row_of_webhook sealed w =
     \<lparr>wr_id = wh_id w, wr_tenant_id = wh_tenant_id w, wr_name = wh_name w, wr_url = wh_url w, wr_events = Some (wh_events w),
      wr_active = wh_active w, wr_secret = sealed, wr_created_at = wh_created_at w, wr_updated_at = wh_updated_at w\<rparr>"

definition store_create_webhook ::
  "crypto \<Rightarrow> key_set option \<Rightarrow> string option \<Rightarrow> bool \<Rightarrow> webhook \<Rightarrow> webhook_row list \<Rightarrow> (webhook_error, unit) result \<times> webhook_row list" where
  "store_create_webhook cr ks nonce ok w rows =
     (case encrypt cr ks nonce (wh_secret w) of
        Inl e \<Rightarrow> (Inl (SecretUnsealed e), rows)
      | Inr sealed \<Rightarrow>
          if \<not> ok then (Inl WebhooksUnavailable, rows)
          else if \<exists>r \<in> set rows. wr_id r = wh_id w then (Inl WebhookDuplicateId, rows)
          else (Inr (), rows @ [row_of_webhook sealed w]))"

definition webhook_of_row :: "webhook_row \<Rightarrow> int list \<Rightarrow> string \<Rightarrow> webhook" where
  "webhook_of_row r events secret =
     \<lparr>wh_id = wr_id r, wh_tenant_id = wr_tenant_id r, wh_name = wr_name r, wh_url = wr_url r, wh_events = events,
      wh_active = wr_active r, wh_secret = secret, wh_created_at = wr_created_at r, wh_updated_at = wr_updated_at r\<rparr>"

definition scan_webhook :: "crypto \<Rightarrow> key_set option \<Rightarrow> webhook_row \<Rightarrow> (webhook_error, webhook) result" where
  "scan_webhook cr ks r =
     (case decrypt cr ks (wr_secret r) of
        Inl e \<Rightarrow> Inl (SecretUndecrypted e)
      | Inr secret \<Rightarrow>
          (case wr_events r of None \<Rightarrow> Inl EventsUnreadable | Some evs \<Rightarrow> Inr (webhook_of_row r evs secret)))"

fun scan_webhooks :: "crypto \<Rightarrow> key_set option \<Rightarrow> webhook_row list \<Rightarrow> (webhook_error, webhook list) result" where
  "scan_webhooks cr ks [] = Inr []"
| "scan_webhooks cr ks (r # rs) =
     (case scan_webhook cr ks r of
        Inl e \<Rightarrow> Inl e
      | Inr w \<Rightarrow> (case scan_webhooks cr ks rs of Inl e \<Rightarrow> Inl e | Inr ws \<Rightarrow> Inr (w # ws)))"

text \<open>The rows of a tenant, newest first, and as many of them as the driver delivers.\<close>

definition tenant_webhooks :: "string \<Rightarrow> webhook_row list \<Rightarrow> webhook_row list" where
  "tenant_webhooks tenant rows = rev (sort_key wr_created_at (filter (\<lambda>r. wr_tenant_id r = tenant) rows))"

definition delivered_rows :: "nat option \<Rightarrow> 'r list \<Rightarrow> 'r list" where
  "delivered_rows got rs = (case got of None \<Rightarrow> rs | Some n \<Rightarrow> take n rs)"

definition store_list_webhooks ::
  "crypto \<Rightarrow> key_set option \<Rightarrow> bool \<Rightarrow> nat option \<Rightarrow> string \<Rightarrow> int \<Rightarrow> nat \<Rightarrow> webhook_row list
    \<Rightarrow> (webhook_error, webhook list \<times> nat option) result" where
  "store_list_webhooks cr ks ok got tenant page_size offset rows =
     (if \<not> ok then Inl WebhooksUnavailable
      else
        let size = (if page_size \<le> 0 then 20 else nat page_size)
        in case scan_webhooks cr ks (delivered_rows got (take size (drop offset (tenant_webhooks tenant rows)))) of
             Inl e \<Rightarrow> Inl e
           | Inr ws \<Rightarrow> Inr (ws, if length ws = size then Some (offset + size) else None))"

definition store_get_webhook ::
  "crypto \<Rightarrow> key_set option \<Rightarrow> bool \<Rightarrow> string \<Rightarrow> string \<Rightarrow> webhook_row list \<Rightarrow> (webhook_error, webhook) result" where
  "store_get_webhook cr ks ok tenant i rows =
     (if \<not> ok then Inl WebhooksUnavailable
      else case find_row (\<lambda>r. wr_tenant_id r = tenant \<and> wr_id r = i) rows of
        None \<Rightarrow> Inl WebhookNoRows
      | Some r \<Rightarrow> scan_webhook cr ks r)"

definition store_update_webhook :: "bool \<Rightarrow> webhook \<Rightarrow> webhook_row list \<Rightarrow> (webhook_error, unit) result \<times> webhook_row list" where
  "store_update_webhook ok w rows =
     (if \<not> ok then (Inl WebhooksUnavailable, rows)
      else (Inr (), update_where (\<lambda>r. wr_tenant_id r = wh_tenant_id w \<and> wr_id r = wh_id w)
             (\<lambda>r. r\<lparr>wr_name := wh_name w, wr_url := wh_url w, wr_events := Some (wh_events w), wr_active := wh_active w,
                    wr_updated_at := wh_updated_at w\<rparr>) rows))"

definition store_delete_webhook :: "bool \<Rightarrow> string \<Rightarrow> string \<Rightarrow> webhook_row list \<Rightarrow> (webhook_error, unit) result \<times> webhook_row list" where
  "store_delete_webhook ok tenant i rows =
     (if \<not> ok then (Inl WebhooksUnavailable, rows)
      else (Inr (), delete_where (\<lambda>r. wr_tenant_id r = tenant \<and> wr_id r = i) rows))"

fun active_for :: "int \<Rightarrow> webhook_row list \<Rightarrow> (webhook_error, webhook list) result" where
  "active_for event [] = Inr []"
| "active_for event (r # rs) =
     (if \<not> wr_active r then active_for event rs
      else case wr_events r of
        None \<Rightarrow> Inl EventsUnreadable
      | Some evs \<Rightarrow>
          (case active_for event rs of
             Inl e \<Rightarrow> Inl e
           | Inr ws \<Rightarrow> Inr (if event \<in> set evs then webhook_of_row r evs (wr_secret r) # ws else ws)))"

definition store_list_active :: "bool \<Rightarrow> nat option \<Rightarrow> string \<Rightarrow> int \<Rightarrow> webhook_row list \<Rightarrow> (webhook_error, webhook list) result" where
  "store_list_active ok got tenant event rows =
     (if \<not> ok then Inl WebhooksUnavailable else active_for event (delivered_rows got (tenant_webhooks tenant rows)))"

section \<open>The use case\<close>

text \<open>What the API shows of a subscription.\<close>

record webhook_view =
  wv_id :: string
  wv_tenant_id :: string
  wv_name :: string
  wv_url :: string
  wv_events :: "int list"
  wv_active :: bool
  wv_created_at :: time
  wv_secret :: string

definition to_proto :: "webhook \<Rightarrow> webhook_view" where
  "to_proto w =
     \<lparr>wv_id = wh_id w, wv_tenant_id = wh_tenant_id w, wv_name = wh_name w, wv_url = wh_url w, wv_events = wh_events w,
      wv_active = wh_active w, wv_created_at = wh_created_at w, wv_secret = []\<rparr>"

record webhook_usecase =
  wu_restrict :: bool
  wu_lookup :: "string \<Rightarrow> ip_addr list option"
  wu_parse :: "string \<Rightarrow> url_host"

definition check_target :: "webhook_usecase \<Rightarrow> string \<Rightarrow> (egress_error, unit) result" where
  "check_target u raw = (if \<not> wu_restrict u then Inr () else check_url (wu_lookup u) (wu_parse u raw))"

record save_env =
  sv_secret :: "string option"
  sv_id :: string
  sv_nonce :: "string option"
  sv_ok :: bool
  sv_read_ok :: bool
  sv_now :: time
  sv_now2 :: time

definition create_webhook ::
  "crypto \<Rightarrow> key_set option \<Rightarrow> webhook_usecase \<Rightarrow> save_env \<Rightarrow> string \<Rightarrow> string \<Rightarrow> string \<Rightarrow> int list \<Rightarrow> webhook_row list
    \<Rightarrow> (webhook_error, webhook_view) result \<times> webhook_row list" where
  "create_webhook cr ks u env tenant name url events rows =
     (case check_target u url of
        Inl e \<Rightarrow> (Inl (TargetRefused e), rows)
      | Inr _ \<Rightarrow>
          (case sv_secret env of
             None \<Rightarrow> (Inl (NoSigningSecret NoRandomness), rows)
           | Some secret \<Rightarrow>
               let w = \<lparr>wh_id = sv_id env, wh_tenant_id = tenant, wh_name = name, wh_url = url, wh_events = events, wh_active = True,
                        wh_secret = secret, wh_created_at = sv_now env, wh_updated_at = sv_now2 env\<rparr>
               in case store_create_webhook cr ks (sv_nonce env) (sv_ok env) w rows of
                    (Inl e, rows') \<Rightarrow> (Inl e, rows')
                  | (Inr _, rows') \<Rightarrow> (Inr ((to_proto w)\<lparr>wv_secret := secret\<rparr>), rows')))"

definition list_webhooks ::
  "crypto \<Rightarrow> key_set option \<Rightarrow> bool \<Rightarrow> nat option \<Rightarrow> string \<Rightarrow> int \<Rightarrow> nat \<Rightarrow> webhook_row list
    \<Rightarrow> (webhook_error, webhook_view list \<times> nat option) result" where
  "list_webhooks cr ks ok got tenant page_size offset rows =
     (case store_list_webhooks cr ks ok got tenant page_size offset rows of
        Inl e \<Rightarrow> Inl e
      | Inr (ws, next_page) \<Rightarrow> Inr (map to_proto ws, next_page))"

definition update_webhook ::
  "crypto \<Rightarrow> key_set option \<Rightarrow> webhook_usecase \<Rightarrow> save_env \<Rightarrow> string \<Rightarrow> string \<Rightarrow> string \<Rightarrow> string \<Rightarrow> int list \<Rightarrow> bool \<Rightarrow> webhook_row list
    \<Rightarrow> (webhook_error, webhook_view) result \<times> webhook_row list" where
  "update_webhook cr ks u env tenant i name url events active rows =
     (case check_target u url of
        Inl e \<Rightarrow> (Inl (TargetRefused e), rows)
      | Inr _ \<Rightarrow>
          let w = \<lparr>wh_id = i, wh_tenant_id = tenant, wh_name = name, wh_url = url, wh_events = events, wh_active = active,
                   wh_secret = [], wh_created_at = zero_time, wh_updated_at = sv_now env\<rparr>
          in case store_update_webhook (sv_ok env) w rows of
               (Inl e, rows') \<Rightarrow> (Inl e, rows')
             | (Inr _, rows') \<Rightarrow>
                 (case store_get_webhook cr ks (sv_read_ok env) tenant i rows' of
                    Inl e \<Rightarrow> (Inl e, rows')
                  | Inr full \<Rightarrow> (Inr (to_proto full), rows')))"

definition get_subscription ::
  "crypto \<Rightarrow> key_set option \<Rightarrow> bool \<Rightarrow> string \<Rightarrow> string \<Rightarrow> webhook_row list \<Rightarrow> (webhook_error, webhook) result" where
  "get_subscription = store_get_webhook"

text \<open>What the delivery worker makes of it.\<close>

definition sub_read_of :: "(webhook_error, webhook) result \<Rightarrow> sub_read" where
  "sub_read_of res =
     (case res of
        Inl WebhookNoRows \<Rightarrow> SubNoRows
      | Inl e \<Rightarrow> SubUnreadable ''subscription store''
      | Inr w \<Rightarrow> SubRead (Some w))"

section \<open>The service\<close>

datatype rpc_code = CodeInvalidArgument | CodeNotFound | CodeInternal | CodeUnauthenticated | CodePermissionDenied

definition save_error :: "webhook_error \<Rightarrow> rpc_code" where
  "save_error e = (if e = TargetRefused ErrDisallowed then CodeInvalidArgument else CodeInternal)"

text \<open>The trigger events are numbered from 1; 0 is unspecified.\<close>

definition trigger_events :: "int list" where "trigger_events = [1, 2, 3, 4, 5, 6, 7, 8, 9, 10, 11]"

definition known_event :: "int \<Rightarrow> bool" where
  "known_event e \<longleftrightarrow> e \<in> set (0 # trigger_events) \<and> e \<noteq> 0"

definition test_event :: "int \<Rightarrow> webhook \<Rightarrow> int" where
  "test_event requested sub =
     (if requested = 0 then (case wh_events sub of [] \<Rightarrow> 1 | e # _ \<Rightarrow> e) else requested)"

record test_response =
  ts_status_code :: int
  ts_body :: string
  ts_event :: int
  ts_success :: bool
  ts_error :: string

definition test_webhook ::
  "(webhook_error, webhook) result \<Rightarrow> (string + int \<times> string) \<Rightarrow> string \<Rightarrow> int \<Rightarrow> (rpc_code, test_response) result" where
  "test_webhook sub_res answer i requested =
     (if i = [] then Inl CodeInvalidArgument
      else case sub_res of
        Inl WebhookNoRows \<Rightarrow> Inl CodeNotFound
      | Inl e \<Rightarrow> Inl CodeInternal
      | Inr sub \<Rightarrow>
          let event = test_event requested sub
          in if \<not> known_event event then Inl CodeInvalidArgument
             else
               let r = tester_send answer
               in Inr \<lparr>ts_status_code = tr_status_code r, ts_body = tr_body r, ts_event = event,
                       ts_success = (tr_err r = None \<and> 200 \<le> tr_status_code r \<and> tr_status_code r < 300),
                       ts_error = (case tr_err r of
                                     Some e \<Rightarrow> e
                                   | None \<Rightarrow> if 200 \<le> tr_status_code r \<and> tr_status_code r < 300 then []
                                            else ''endpoint returned '' @ show_int (tr_status_code r))\<rparr>)"

section \<open>Tenants do not meet\<close>

definition webhooks_of :: "string \<Rightarrow> webhook_row list \<Rightarrow> webhook_row list" where
  "webhooks_of tenant rows = filter (\<lambda>r. wr_tenant_id r = tenant) rows"

lemma webhooks_of_updated:
  "(\<And>r. p r \<Longrightarrow> wr_tenant_id r \<noteq> t) \<Longrightarrow> (\<And>r. wr_tenant_id (f r) = wr_tenant_id r) \<Longrightarrow>
   webhooks_of t (update_where p f rows) = webhooks_of t rows"
  by (induction rows) (auto simp: webhooks_of_def update_where_def)

lemma webhooks_of_deleted: "(\<And>r. p r \<Longrightarrow> wr_tenant_id r \<noteq> t) \<Longrightarrow> webhooks_of t (delete_where p rows) = webhooks_of t rows"
  by (induction rows) (auto simp: webhooks_of_def delete_where_def)

lemma scan_webhooks_tenants:
  "scan_webhooks cr ks rs = Inr ws \<Longrightarrow> w \<in> set ws \<Longrightarrow> \<exists>r \<in> set rs. wh_tenant_id w = wr_tenant_id r"
  by (induction rs arbitrary: ws) (auto simp: scan_webhook_def webhook_of_row_def split: sum.splits option.splits)

lemma tenant_webhooks_set: "r \<in> set (tenant_webhooks t rows) \<longleftrightarrow> r \<in> set rows \<and> wr_tenant_id r = t"
  by (auto simp: tenant_webhooks_def)

lemma delivered_rows_subset: "r \<in> set (delivered_rows got rs) \<Longrightarrow> r \<in> set rs"
  by (auto simp: delivered_rows_def split: option.splits dest: in_set_takeD)

text \<open>
  C20. Subscriptions of different tenants do not meet: creating, changing or deleting a subscription in one
  tenant's name leaves every row of every other tenant as it was, and nothing that is listed or read in a
  tenant's name belongs to another.
\<close>

theorem subscriptions_isolated:
  assumes "tenant \<noteq> other"
  shows "webhooks_of other (snd (create_webhook cr ks u env tenant name url events rows)) = webhooks_of other rows \<and>
    webhooks_of other (snd (update_webhook cr ks u env tenant i name url events active rows)) = webhooks_of other rows \<and>
    webhooks_of other (snd (store_delete_webhook ok tenant i rows)) = webhooks_of other rows \<and>
    (\<forall>vs n v. list_webhooks cr ks ok got tenant page_size offset rows = Inr (vs, n) \<and> v \<in> set vs \<longrightarrow> wv_tenant_id v = tenant) \<and>
    (\<forall>w. get_subscription cr ks ok tenant i rows = Inr w \<longrightarrow> wh_tenant_id w = tenant)"
proof (intro conjI)
  show "webhooks_of other (snd (create_webhook cr ks u env tenant name url events rows)) = webhooks_of other rows"
    using assms by (auto simp: create_webhook_def store_create_webhook_def Let_def webhooks_of_def row_of_webhook_def
        split: sum.splits option.splits)
  show "webhooks_of other (snd (store_delete_webhook ok tenant i rows)) = webhooks_of other rows"
    using assms by (auto simp: store_delete_webhook_def intro: webhooks_of_deleted)
  have "webhooks_of other (snd (store_update_webhook ok' w rows)) = webhooks_of other rows" if "wh_tenant_id w = tenant" for ok' w
    using assms that by (auto simp: store_update_webhook_def intro!: webhooks_of_updated)
  then show "webhooks_of other (snd (update_webhook cr ks u env tenant i name url events active rows)) = webhooks_of other rows"
    using assms by (auto simp: update_webhook_def Let_def split_beta store_update_webhook_def intro!: webhooks_of_updated split: sum.splits)
  show "\<forall>vs n v. list_webhooks cr ks ok got tenant page_size offset rows = Inr (vs, n) \<and> v \<in> set vs \<longrightarrow> wv_tenant_id v = tenant"
  proof (intro allI impI)
    fix vs n v
    assume "list_webhooks cr ks ok got tenant page_size offset rows = Inr (vs, n) \<and> v \<in> set vs"
    then obtain ws w m where w: "scan_webhooks cr ks (delivered_rows got (take m (drop offset (tenant_webhooks tenant rows)))) = Inr ws"
      "w \<in> set ws" "v = to_proto w"
      by (auto simp: list_webhooks_def store_list_webhooks_def Let_def split: sum.splits if_splits)
    then obtain r where "r \<in> set (tenant_webhooks tenant rows)" "wh_tenant_id w = wr_tenant_id r"
      using scan_webhooks_tenants by (metis delivered_rows_subset in_set_dropD in_set_takeD)
    then show "wv_tenant_id v = tenant" using w(3) by (simp add: to_proto_def tenant_webhooks_set)
  qed
  show "\<forall>w. get_subscription cr ks ok tenant i rows = Inr w \<longrightarrow> wh_tenant_id w = tenant"
    by (auto simp: get_subscription_def store_get_webhook_def scan_webhook_def webhook_of_row_def
        split: if_splits option.splits sum.splits dest: find_row_Some)
qed

section \<open>The signing secret\<close>

lemma find_row_snoc_hit: "find_row p rows = None \<Longrightarrow> p r \<Longrightarrow> find_row p (rows @ [r]) = Some r"
  by (induction rows) (auto simp: find_row_def split: if_splits)


section \<open>A read that is cut short\<close>

text \<open>
  A driver that fails while the subscriptions are read is not noticed: the subscriptions it delivered are taken
  for all of them, and whoever comes after is not notified.
\<close>

lemma cut_read_notifies_nobody:
  "store_list_active True (Some 0) tenant event rows = Inr []" "enqueue_event (Inr []) payload now env tenant ev s = s"
  by (simp_all add: store_list_active_def delivered_rows_def enqueue_event_def)

section \<open>Instances\<close>

definition sample_usecase :: webhook_usecase where
  "sample_usecase = \<lparr>wu_restrict = True, wu_lookup = (\<lambda>_. None), wu_parse = (\<lambda>_. UrlAddr (Addr4 0x08080808))\<rparr>"

definition sample_save :: save_env where
  "sample_save = \<lparr>sv_secret = Some ''secret'', sv_id = ''w1'', sv_nonce = Some sample_nonce, sv_ok = True, sv_read_ok = True,
     sv_now = 5, sv_now2 = 6\<rparr>"

abbreviation (input) ring_a :: key_set where "ring_a \<equiv> \<lparr>kr_primary = sample_entry (CHR ''a''), kr_retired = []\<rparr>"

lemma sample_target: "check_target sample_usecase url = Inr ()"
proof -
  have "\<not> disallowed (Addr4 0x08080808)" by (simp add: disallowed_reserved reserved4_def blocks4_def in_block_def quad_def)
  then show ?thesis by (simp add: check_target_def sample_usecase_def check_url_def)
qed

theorem subscriptions_isolated_witness:
  "webhooks_of ''t2'' (snd (create_webhook sample_crypto (Some ring_a) sample_usecase sample_save ''t1'' ''n'' ''u'' [1] [])) = []"
  using subscriptions_isolated [of "''t1''" "''t2''" sample_crypto "Some ring_a" sample_usecase sample_save "''n''" "''u''" "[1]" "[]"]
  by (simp add: webhooks_of_def)


end
