(* ===== verification/Attempt_Limiter.thy ===== *)
theory Attempt_Limiter
  imports Run_Traces
begin

text \<open>
  The limiter of sign-in attempts of \<open>internal/auth/usecases/attempt_limiter.go\<close>. Callers keep pointers
  to records that the limiter may since have dropped, so records live in a heap: an address is a position
  in \<open>al_heap\<close>, the map from subjects and the recency list hold addresses, and an admitted attempt is a
  position in \<open>al_attempts\<close> with the address of its record and whether it is settled.
  The theorem bounds the guesses at one subject's password in any window of one block period.
\<close>

section \<open>State\<close>

record attempt_record =
  ar_subject :: string
  ar_failures :: int
  ar_in_flight :: int
  ar_last_try :: time
  ar_blocked_until :: time
  ar_listed :: bool

definition blocked :: "time \<Rightarrow> attempt_record \<Rightarrow> bool" where
  "blocked now r \<longleftrightarrow> now < ar_blocked_until r"

record attempt_limiter =
  al_heap :: "attempt_record list"
  al_records :: "(string \<times> nat) list"
  al_recency :: "nat list"
  al_attempts :: "(nat \<times> bool) list"
  al_max :: int
  al_capacity :: nat
  al_block_for :: duration
  al_last_sweep :: time

definition max_tracked_subjects :: nat where "max_tracked_subjects = 10000"
definition sweep_interval :: duration where "sweep_interval = minute"
definition eviction_probe :: nat where "eviction_probe = 64"

definition new_attempt_limiter :: "int \<Rightarrow> duration \<Rightarrow> attempt_limiter" where
  "new_attempt_limiter n block_for =
     \<lparr>al_heap = [], al_records = [], al_recency = [], al_attempts = [], al_max = n,
      al_capacity = max_tracked_subjects, al_block_for = block_for, al_last_sweep = zero_time\<rparr>"

definition change_record :: "nat \<Rightarrow> (attempt_record \<Rightarrow> attempt_record) \<Rightarrow> attempt_limiter \<Rightarrow> attempt_limiter" where
  "change_record a f l = l\<lparr>al_heap := (al_heap l)[a := f (al_heap l ! a)]\<rparr>"

section \<open>Operations under the lock\<close>

definition expire_locked :: "duration \<Rightarrow> time \<Rightarrow> attempt_record \<Rightarrow> attempt_record" where
  "expire_locked block_for now r =
     (let r1 = (if ar_blocked_until r \<noteq> zero_time \<and> \<not> blocked now r
                then r\<lparr>ar_failures := 0, ar_blocked_until := zero_time\<rparr> else r)
      in if ar_failures r1 > 0 \<and> ar_blocked_until r1 = zero_time \<and> now - ar_last_try r1 > block_for
         then r1\<lparr>ar_failures := 0\<rparr> else r1)"

definition remove_locked :: "nat \<Rightarrow> attempt_limiter \<Rightarrow> attempt_limiter" where
  "remove_locked a l =
     (let subject = ar_subject (al_heap l ! a);
          l1 = (if map_of (al_records l) subject = Some a
                then l\<lparr>al_records := AList.delete subject (al_records l)\<rparr> else l)
      in if ar_listed (al_heap l1 ! a)
         then change_record a (\<lambda>r. r\<lparr>ar_listed := False\<rparr>) (l1\<lparr>al_recency := remove1 a (al_recency l1)\<rparr>)
         else l1)"

definition make_room_locked :: "time \<Rightarrow> attempt_limiter \<Rightarrow> attempt_limiter" where
  "make_room_locked now l =
     (if length (al_records l) < al_capacity l then l
      else case find (\<lambda>a. \<not> blocked now (al_heap l ! a) \<and> ar_in_flight (al_heap l ! a) = 0)
                  (take eviction_probe (al_recency l)) of
             Some a \<Rightarrow> remove_locked a l
           | None \<Rightarrow> (case al_recency l of [] \<Rightarrow> l | a # _ \<Rightarrow> remove_locked a l))"

definition track :: "nat \<Rightarrow> attempt_limiter \<Rightarrow> attempt_limiter" where
  "track a l = change_record a (\<lambda>r. r\<lparr>ar_listed := True\<rparr>)
     (l\<lparr>al_recency := al_recency l @ [a],
        al_records := AList.update (ar_subject (al_heap l ! a)) a (al_records l)\<rparr>)"

definition insert_locked :: "time \<Rightarrow> string \<Rightarrow> attempt_limiter \<Rightarrow> nat \<times> attempt_limiter" where
  "insert_locked now subject l =
     (let l1 = make_room_locked now l;
          a = length (al_heap l1);
          r = \<lparr>ar_subject = subject, ar_failures = 0, ar_in_flight = 0, ar_last_try = zero_time,
               ar_blocked_until = zero_time, ar_listed = False\<rparr>
      in (a, track a (l1\<lparr>al_heap := al_heap l1 @ [r]\<rparr>)))"

definition stale_record :: "time \<Rightarrow> duration \<Rightarrow> attempt_record \<Rightarrow> bool" where
  "stale_record now block_for r \<longleftrightarrow>
     ar_in_flight r = 0 \<and> \<not> blocked now r \<and> ar_last_try r < now - block_for"

definition maybe_sweep_locked :: "time \<Rightarrow> attempt_limiter \<Rightarrow> attempt_limiter" where
  "maybe_sweep_locked now l =
     (if now - al_last_sweep l < sweep_interval then l
      else fold (\<lambda>(s, a) l. if stale_record now (al_block_for l) (al_heap l ! a) then remove_locked a l else l)
             (al_records l) (l\<lparr>al_last_sweep := now\<rparr>))"

section \<open>Begin and the three ways to settle\<close>

datatype begin_result = Admitted nat | Locked_out duration

definition admit_locked :: "time \<Rightarrow> nat \<Rightarrow> attempt_limiter \<Rightarrow> begin_result \<times> attempt_limiter" where
  "admit_locked now a l =
     (let l1 = change_record a (\<lambda>r. r\<lparr>ar_in_flight := ar_in_flight r + 1, ar_last_try := now\<rparr>) l
      in (Admitted (length (al_attempts l1)),
          l1\<lparr>al_recency := remove1 a (al_recency l1) @ [a], al_attempts := al_attempts l1 @ [(a, False)]\<rparr>))"

definition limiter_begin :: "time \<Rightarrow> string \<Rightarrow> attempt_limiter \<Rightarrow> begin_result \<times> attempt_limiter" where
  "limiter_begin now subject l0 =
     (let l = maybe_sweep_locked now l0
      in case map_of (al_records l) subject of
           Some a \<Rightarrow>
             (let l1 = change_record a (expire_locked (al_block_for l) now) l;
                  r = al_heap l1 ! a
              in if blocked now r then (Locked_out (ar_blocked_until r - now), l1)
                 else if ar_failures r + ar_in_flight r \<ge> al_max l1 then (Locked_out 0, l1)
                 else admit_locked now a l1)
         | None \<Rightarrow> (case insert_locked now subject l of (a, l1) \<Rightarrow> admit_locked now a l1))"

definition settle :: "(nat \<Rightarrow> attempt_limiter \<Rightarrow> attempt_limiter) \<Rightarrow> nat \<Rightarrow> attempt_limiter \<Rightarrow> attempt_limiter" where
  "settle fn h l =
     (if h < length (al_attempts l) then
        (case al_attempts l ! h of (a, settled) \<Rightarrow>
           if settled then l
           else fn a (change_record a (\<lambda>r. r\<lparr>ar_in_flight := ar_in_flight r - 1\<rparr>)
                  (l\<lparr>al_attempts := (al_attempts l)[h := (a, True)]\<rparr>)))
      else l)"

definition add_failures :: "time \<Rightarrow> attempt_limiter \<Rightarrow> int \<Rightarrow> attempt_record \<Rightarrow> attempt_record" where
  "add_failures now l n r =
     (let r1 = r\<lparr>ar_failures := ar_failures r + n\<rparr>
      in if ar_failures r1 \<ge> al_max l then r1\<lparr>ar_blocked_until := now + al_block_for l\<rparr> else r1)"

definition count_failure :: "time \<Rightarrow> nat \<Rightarrow> attempt_limiter \<Rightarrow> attempt_limiter" where
  "count_failure now a l =
     (let l1 = change_record a (add_failures now l 1) l;
          r = al_heap l1 ! a
      in case map_of (al_records l1) (ar_subject r) of
           Some b \<Rightarrow> if b = a then l1 else change_record b (add_failures now l1 (ar_failures r)) l1
         | None \<Rightarrow> track a (make_room_locked now l1))"

definition succeeded :: "nat \<Rightarrow> attempt_limiter \<Rightarrow> attempt_limiter" where
  "succeeded = settle remove_locked"

definition failed :: "time \<Rightarrow> nat \<Rightarrow> attempt_limiter \<Rightarrow> attempt_limiter" where
  "failed now = settle (count_failure now)"

definition abandon :: "nat \<Rightarrow> attempt_limiter \<Rightarrow> attempt_limiter" where
  "abandon = settle (\<lambda>a l. l)"

section \<open>Runs\<close>

text \<open>An operation that settles an attempt names the subject it was admitted for.\<close>

definition attempt_subject :: "attempt_limiter \<Rightarrow> nat \<Rightarrow> string option" where
  "attempt_subject l h =
     (if h < length (al_attempts l) then Some (ar_subject (al_heap l ! fst (al_attempts l ! h))) else None)"

datatype limiter_op =
    Begin time string
  | Succeed string nat
  | Fail time string nat
  | Abandon string nat

fun limiter_step :: "limiter_op \<Rightarrow> attempt_limiter \<Rightarrow> attempt_limiter" where
  "limiter_step (Begin now s) l = snd (limiter_begin now s l)"
| "limiter_step (Succeed s h) l = (if attempt_subject l h = Some s then succeeded h l else l)"
| "limiter_step (Fail now s h) l = (if attempt_subject l h = Some s then failed now h l else l)"
| "limiter_step (Abandon s h) l = (if attempt_subject l h = Some s then abandon h l else l)"

text \<open>A wrong guess at the subject's credential: an open attempt at it is settled as failed.\<close>

fun wrong_guess :: "string \<Rightarrow> limiter_op \<Rightarrow> attempt_limiter \<Rightarrow> bool" where
  "wrong_guess s (Fail now s' h) l \<longleftrightarrow>
     s' = s \<and> attempt_subject l h = Some s \<and> \<not> snd (al_attempts l ! h)"
| "wrong_guess s _ l \<longleftrightarrow> False"

definition pending_at :: "attempt_limiter \<Rightarrow> nat \<Rightarrow> nat" where
  "pending_at l a = length (filter (\<lambda>x. x = (a, False)) (al_attempts l))"

definition open_attempts :: "string \<Rightarrow> attempt_limiter \<Rightarrow> nat" where
  "open_attempts s l = length (filter (\<lambda>(a, settled). \<not> settled \<and> ar_subject (al_heap l ! a) = s) (al_attempts l))"

section \<open>What every operation keeps\<close>

text \<open>
  \<open>S\<close> collects the subjects in use. The reservations of a record are the open attempts that point to it.
\<close>

definition wf_limiter :: "string set \<Rightarrow> attempt_limiter \<Rightarrow> bool" where
  "wf_limiter S l \<longleftrightarrow>
     distinct (map fst (al_records l)) \<and>
     (\<forall>s a. map_of (al_records l) s = Some a \<longrightarrow> a < length (al_heap l) \<and> ar_subject (al_heap l ! a) = s) \<and>
     (\<forall>a < length (al_heap l). ar_subject (al_heap l ! a) \<in> S) \<and>
     (\<forall>x \<in> set (al_attempts l). fst x < length (al_heap l)) \<and>
     (\<forall>a < length (al_heap l). 0 \<le> ar_failures (al_heap l ! a) \<and> ar_in_flight (al_heap l ! a) = int (pending_at l a))"

lemma change_record_simps [simp]:
  "al_records (change_record a f l) = al_records l" "al_attempts (change_record a f l) = al_attempts l"
  "al_max (change_record a f l) = al_max l" "al_capacity (change_record a f l) = al_capacity l"
  "al_block_for (change_record a f l) = al_block_for l" "length (al_heap (change_record a f l)) = length (al_heap l)"
  "pending_at (change_record a f l) b = pending_at l b"
  by (simp_all add: change_record_def pending_at_def)

lemma pending_at_simps [simp]:
  "pending_at (l\<lparr>al_records := m\<rparr>) = pending_at l" "pending_at (l\<lparr>al_recency := q\<rparr>) = pending_at l"
  "pending_at (l\<lparr>al_heap := h\<rparr>) = pending_at l" "pending_at (l\<lparr>al_last_sweep := t\<rparr>) = pending_at l"
  by (simp_all add: pending_at_def fun_eq_iff)

lemma heap_change:
  "b < length (al_heap l) \<Longrightarrow>
   al_heap (change_record a f l) ! b = (if b = a then f (al_heap l ! a) else al_heap l ! b)"
  by (simp add: change_record_def)

lemma wf_limiterI:
  "distinct (map fst (al_records l)) \<Longrightarrow>
   (\<And>s a. map_of (al_records l) s = Some a \<Longrightarrow> a < length (al_heap l) \<and> ar_subject (al_heap l ! a) = s) \<Longrightarrow>
   (\<And>a. a < length (al_heap l) \<Longrightarrow> ar_subject (al_heap l ! a) \<in> S) \<Longrightarrow>
   (\<And>x. x \<in> set (al_attempts l) \<Longrightarrow> fst x < length (al_heap l)) \<Longrightarrow>
   (\<And>a. a < length (al_heap l) \<Longrightarrow>
      0 \<le> ar_failures (al_heap l ! a) \<and> ar_in_flight (al_heap l ! a) = int (pending_at l a)) \<Longrightarrow>
   wf_limiter S l"
  unfolding wf_limiter_def by blast

lemma wf_limiterD:
  assumes "wf_limiter S l"
  shows wf_distinct: "distinct (map fst (al_records l))"
    and wf_tracked: "map_of (al_records l) s = Some a \<Longrightarrow> a < length (al_heap l) \<and> ar_subject (al_heap l ! a) = s"
    and wf_subject: "a < length (al_heap l) \<Longrightarrow> ar_subject (al_heap l ! a) \<in> S"
    and wf_attempt: "x \<in> set (al_attempts l) \<Longrightarrow> fst x < length (al_heap l)"
    and wf_counts: "a < length (al_heap l) \<Longrightarrow>
      0 \<le> ar_failures (al_heap l ! a) \<and> ar_in_flight (al_heap l ! a) = int (pending_at l a)"
  using assms unfolding wf_limiter_def by blast+

lemma wf_change:
  assumes "wf_limiter S l" "\<And>r. ar_subject (f r) = ar_subject r" "\<And>r. ar_in_flight (f r) = ar_in_flight r"
    "\<And>r. 0 \<le> ar_failures r \<Longrightarrow> 0 \<le> ar_failures (f r)"
  shows "wf_limiter S (change_record a f l)"
  by (rule wf_limiterI)
    (use wf_limiterD [OF assms(1)] in \<open>auto simp: heap_change assms(2,3,4)\<close>)

lemma wf_records:
  assumes "wf_limiter S l" "distinct (map fst m)"
    "\<And>s a. map_of m s = Some a \<Longrightarrow> a < length (al_heap l) \<and> ar_subject (al_heap l ! a) = s"
  shows "wf_limiter S (l\<lparr>al_records := m, al_recency := q\<rparr>)"
  by (rule wf_limiterI) (use assms(2,3) wf_limiterD [OF assms(1)] in simp_all)

lemma wf_recency: "wf_limiter S (l\<lparr>al_recency := q\<rparr>) = wf_limiter S l"
  by (simp add: wf_limiter_def)

lemma wf_remove:
  assumes "wf_limiter S l"
  shows "wf_limiter S (remove_locked a l)"
proof -
  let ?s = "ar_subject (al_heap l ! a)"
  have k: "b < length (al_heap l) \<and> ar_subject (al_heap l ! b) = s"
    if "map_of (AList.delete ?s (al_records l)) s = Some b" for s b
    using that wf_tracked [OF assms, of s b] by (simp add: delete_conv split: if_splits)
  have "wf_limiter S (l\<lparr>al_records := AList.delete ?s (al_records l), al_recency := al_recency l\<rparr>)"
    by (rule wf_records [OF assms _ k]) (simp_all add: distinct_delete wf_distinct [OF assms])
  then have "wf_limiter S (l\<lparr>al_records := AList.delete ?s (al_records l)\<rparr>)" by simp
  then show ?thesis using assms by (simp add: remove_locked_def Let_def wf_change wf_recency)
qed

lemma wf_make_room: "wf_limiter S l \<Longrightarrow> wf_limiter S (make_room_locked now l)"
  by (simp add: make_room_locked_def wf_remove split: option.split list.split)

lemma wf_track:
  assumes "wf_limiter S l" "a < length (al_heap l)"
  shows "wf_limiter S (track a l)"
proof -
  let ?m = "AList.update (ar_subject (al_heap l ! a)) a (al_records l)"
  have d: "distinct (map fst ?m)" using wf_distinct [OF assms(1)] by (simp add: distinct_update)
  have k: "b < length (al_heap l) \<and> ar_subject (al_heap l ! b) = s" if "map_of ?m s = Some b" for s b
    using that assms(2) wf_tracked [OF assms(1), of s b] by (simp add: update_conv' split: if_splits)
  have "wf_limiter S (l\<lparr>al_records := ?m, al_recency := al_recency l @ [a]\<rparr>)"
    by (rule wf_records [OF assms(1) d k])
  moreover have "l\<lparr>al_records := ?m, al_recency := al_recency l @ [a]\<rparr> = l\<lparr>al_recency := al_recency l @ [a], al_records := ?m\<rparr>"
    by simp
  ultimately show ?thesis unfolding track_def by (simp add: wf_change)
qed

lemma length_track: "length (al_heap (track a l)) = length (al_heap l)"
  by (simp add: track_def)

lemma wf_sweep: "wf_limiter S l \<Longrightarrow> wf_limiter S (maybe_sweep_locked now l)"
proof -
  have "wf_limiter S (fold (\<lambda>(s, a) l. if stale_record now (al_block_for l) (al_heap l ! a) then remove_locked a l else l) xs l)"
    if "wf_limiter S l" for xs :: "(string \<times> nat) list" and l
    using that by (induction xs arbitrary: l) (auto simp: wf_remove)
  moreover assume "wf_limiter S l"
  then have "wf_limiter S (l\<lparr>al_last_sweep := now\<rparr>)" by (simp add: wf_limiter_def pending_at_def)
  ultimately show ?thesis using \<open>wf_limiter S l\<close> by (simp add: maybe_sweep_locked_def)
qed

lemma length_filter_update:
  "i < length xs \<Longrightarrow> length (filter P (xs[i := x])) + (if P (xs ! i) then 1 else 0) =
     length (filter P xs) + (if P x then 1 else 0)"
proof (induction xs arbitrary: i)
  case (Cons y ys)
  then show ?case by (cases i) (use Cons.IH in \<open>force split: if_splits\<close>)+
qed simp

lemma pending_settle:
  assumes "h < length (al_attempts l)" "al_attempts l ! h = (a, False)"
  shows "int (pending_at (l\<lparr>al_attempts := (al_attempts l)[h := (a, True)]\<rparr>) b) =
    int (pending_at l b) - (if b = a then 1 else 0)"
  using length_filter_update [OF assms(1), of "\<lambda>x. x = (b, False)" "(a, True)"] assms(2)
  by (auto simp: pending_at_def)

lemma pending_admit:
  "pending_at (l\<lparr>al_attempts := al_attempts l @ [(a, False)]\<rparr>) b = pending_at l b + (if b = a then 1 else 0)"
  by (simp add: pending_at_def)

lemma wf_admit:
  assumes "wf_limiter S l" "a < length (al_heap l)"
  shows "wf_limiter S (snd (admit_locked now a l))"
proof -
  let ?f = "\<lambda>r. r\<lparr>ar_in_flight := ar_in_flight r + 1, ar_last_try := now\<rparr>"
  let ?l = "change_record a ?f (l\<lparr>al_attempts := al_attempts l @ [(a, False)]\<rparr>)"
  have "wf_limiter S ?l"
    by (rule wf_limiterI)
      (use wf_limiterD [OF assms(1)] assms(2) in \<open>auto simp: heap_change pending_admit\<close>)
  moreover have "snd (admit_locked now a l) = ?l\<lparr>al_recency := remove1 a (al_recency l) @ [a]\<rparr>"
    by (simp add: admit_locked_def change_record_def Let_def)
  ultimately show ?thesis by (simp add: wf_recency)
qed

lemma wf_insert_locked:
  assumes "wf_limiter S l" "s \<in> S" "insert_locked now s l = (a, l')"
  shows "wf_limiter S l' \<and> a < length (al_heap l')"
proof -
  let ?l1 = "make_room_locked now l"
  let ?r = "\<lparr>ar_subject = s, ar_failures = 0, ar_in_flight = 0, ar_last_try = zero_time,
               ar_blocked_until = zero_time, ar_listed = False\<rparr>"
  note wf = wf_limiterD [OF wf_make_room [OF assms(1), of now]]
  have "pending_at ?l1 (length (al_heap ?l1)) = 0"
    using wf(4) by (fastforce simp: pending_at_def filter_empty_conv)
  then have "wf_limiter S (?l1\<lparr>al_heap := al_heap ?l1 @ [?r]\<rparr>)"
    by (intro wf_limiterI) (use wf assms(2) in \<open>auto simp: nth_append less_Suc_eq\<close>)
  then show ?thesis
    using assms(3) by (auto simp: insert_locked_def Let_def length_track wf_track)
qed

lemma expire_fields [simp]:
  "ar_subject (expire_locked b now r) = ar_subject r" "ar_in_flight (expire_locked b now r) = ar_in_flight r"
  "ar_last_try (expire_locked b now r) = ar_last_try r"
  "0 \<le> ar_failures r \<Longrightarrow> 0 \<le> ar_failures (expire_locked b now r)"
  by (simp_all add: expire_locked_def Let_def)

lemma add_failures_fields [simp]:
  "ar_subject (add_failures now l n r) = ar_subject r" "ar_in_flight (add_failures now l n r) = ar_in_flight r"
  "ar_last_try (add_failures now l n r) = ar_last_try r" "ar_failures (add_failures now l n r) = ar_failures r + n"
  by (simp_all add: add_failures_def Let_def)

lemma wf_begin:
  assumes "wf_limiter S l" "s \<in> S"
  shows "wf_limiter S (snd (limiter_begin now s l))"
proof -
  let ?l = "maybe_sweep_locked now l"
  have wf: "wf_limiter S ?l" by (rule wf_sweep [OF assms(1)])
  show ?thesis
  proof (cases "map_of (al_records ?l) s")
    case None
    obtain a l1 where i: "insert_locked now s ?l = (a, l1)" by (rule prod.exhaust)
    from wf_insert_locked [OF wf assms(2) i] None i show ?thesis by (simp add: limiter_begin_def wf_admit)
  next
    case (Some a)
    have "wf_limiter S (change_record a (expire_locked (al_block_for ?l) now) ?l)"
      by (rule wf_change [OF wf]) simp_all
    moreover have "a < length (al_heap ?l)" using wf_tracked [OF wf Some] by simp
    ultimately show ?thesis using Some by (simp add: limiter_begin_def Let_def wf_admit)
  qed
qed

lemma wf_reserved:
  assumes "wf_limiter S l" "h < length (al_attempts l)" "al_attempts l ! h = (a, False)"
  shows "wf_limiter S (change_record a (\<lambda>r. r\<lparr>ar_in_flight := ar_in_flight r - 1\<rparr>)
     (l\<lparr>al_attempts := (al_attempts l)[h := (a, True)]\<rparr>))"
proof -
  have "fst x < length (al_heap l)" if "x \<in> set ((al_attempts l)[h := (a, True)])" for x
    using set_update_subset_insert [of "al_attempts l" h "(a, True)"] that wf_attempt [OF assms(1), of x]
      wf_attempt [OF assms(1), of "(a, False)"] nth_mem [OF assms(2)] assms(3) by auto
  then show ?thesis
    by (intro wf_limiterI) (use wf_limiterD [OF assms(1)] pending_settle [OF assms(2,3)] in \<open>auto simp: heap_change\<close>)
qed

lemma wf_count:
  assumes "wf_limiter S l" "a < length (al_heap l)"
  shows "wf_limiter S (count_failure now a l)"
proof -
  let ?l1 = "change_record a (add_failures now l 1) l"
  let ?r = "al_heap ?l1 ! a"
  have wf: "wf_limiter S ?l1" by (rule wf_change [OF assms(1)]) simp_all
  have "0 \<le> ar_failures ?r" using wf_counts [OF wf, of a] assms(2) by simp
  then have "wf_limiter S (change_record b (add_failures now ?l1 (ar_failures ?r)) ?l1)" for b
    by (intro wf_change [OF wf]) simp_all
  moreover have "a < length (al_heap (make_room_locked now ?l1))"
    using assms(2) by (simp add: make_room_locked_def remove_locked_def Let_def split: option.split list.split)
  ultimately show ?thesis
    using wf by (simp add: count_failure_def Let_def wf_track wf_make_room split: option.split)
qed

lemma wf_settle:
  assumes "wf_limiter S l"
    "\<And>a l. wf_limiter S l \<Longrightarrow> a < length (al_heap l) \<Longrightarrow> wf_limiter S (fn a l)"
  shows "wf_limiter S (settle fn h l)"
proof (cases "h < length (al_attempts l) \<and> \<not> snd (al_attempts l ! h)")
  case True
  then obtain a where h: "h < length (al_attempts l)" "al_attempts l ! h = (a, False)" by (cases "al_attempts l ! h") auto
  have "a < length (al_heap l)" using wf_attempt [OF assms(1) nth_mem [OF h(1)]] h(2) by simp
  then show ?thesis using h by (simp add: settle_def assms(2) wf_reserved [OF assms(1)])
next
  case False
  then show ?thesis using assms(1) by (auto simp: settle_def split: prod.split)
qed

fun op_subject :: "limiter_op \<Rightarrow> string" where
  "op_subject (Begin now s) = s"
| "op_subject (Succeed s h) = s"
| "op_subject (Fail now s h) = s"
| "op_subject (Abandon s h) = s"

lemma wf_limiter_step: "op_subject op \<in> S \<Longrightarrow> wf_limiter S l \<Longrightarrow> wf_limiter S (limiter_step op l)"
  by (cases op) (simp_all add: wf_begin succeeded_def failed_def abandon_def wf_settle wf_remove wf_count)

interpretation sign_in_attempts: invariant_steps limiter_step "\<lambda>op. op_subject op \<in> S" "wf_limiter S"
  by unfold_locales (rule wf_limiter_step)

section \<open>The budget of one subject in one window\<close>

text \<open>
  The window is \<open>[t0, t0 + block_for)\<close>. An open attempt at \<open>s\<close> points to the record tracked for \<open>s\<close>; the
  record has open attempts only if its last one began inside the window and it is not locked.
\<close>

definition within_budget :: "time \<Rightarrow> int \<Rightarrow> attempt_record \<Rightarrow> bool" where
  "within_budget t0 n r \<longleftrightarrow> ar_in_flight r = 0 \<or>
     t0 \<le> ar_last_try r \<and> ar_blocked_until r = zero_time \<and> ar_failures r + ar_in_flight r \<le> n"

definition window_ok :: "string \<Rightarrow> time \<Rightarrow> attempt_limiter \<Rightarrow> bool" where
  "window_ok s t0 l \<longleftrightarrow>
     (\<forall>a. (a, False) \<in> set (al_attempts l) \<and> ar_subject (al_heap l ! a) = s \<longrightarrow> map_of (al_records l) s = Some a) \<and>
     (\<forall>a. map_of (al_records l) s = Some a \<longrightarrow>
        within_budget t0 (al_max l) (al_heap l ! a))"

definition record_budget :: "time \<Rightarrow> attempt_limiter \<Rightarrow> attempt_record \<Rightarrow> nat" where
  "record_budget t0 l r =
     (if ar_blocked_until r \<noteq> zero_time then (if t0 + al_block_for l \<le> ar_blocked_until r then 0 else nat (al_max l))
      else if t0 \<le> ar_last_try r then nat (al_max l - ar_failures r) else nat (al_max l))"

definition guess_budget :: "string \<Rightarrow> time \<Rightarrow> attempt_limiter \<Rightarrow> nat" where
  "guess_budget s t0 l =
     (case map_of (al_records l) s of None \<Rightarrow> nat (al_max l) | Some a \<Rightarrow> record_budget t0 l (al_heap l ! a))"

definition window_op :: "string set \<Rightarrow> string \<Rightarrow> time \<Rightarrow> duration \<Rightarrow> limiter_op \<Rightarrow> bool" where
  "window_op S s t0 b op \<longleftrightarrow> op_subject op \<in> S \<and>
     (case op of Begin now s' \<Rightarrow> t0 \<le> now \<and> now < t0 + b
      | Fail now s' h \<Rightarrow> t0 \<le> now \<and> now < t0 + b
      | Succeed s' h \<Rightarrow> s' \<noteq> s
      | Abandon s' h \<Rightarrow> True)"

definition guess_state :: "string set \<Rightarrow> string \<Rightarrow> time \<Rightarrow> duration \<Rightarrow> attempt_limiter \<Rightarrow> bool" where
  "guess_state S s t0 b l \<longleftrightarrow> wf_limiter S l \<and> window_ok s t0 l \<and> al_block_for l = b \<and> 0 < al_max l \<and>
     finite S \<and> card S \<le> al_capacity l \<and> 0 \<le> t0"

text \<open>What \<open>s\<close> can see of a change: the record tracked for it and its open attempts.\<close>

definition same_numbers :: "attempt_record \<Rightarrow> attempt_record \<Rightarrow> bool" where
  "same_numbers r r' \<longleftrightarrow> ar_failures r' = ar_failures r \<and> ar_in_flight r' = ar_in_flight r \<and>
     ar_last_try r' = ar_last_try r \<and> ar_blocked_until r' = ar_blocked_until r"

definition unseen :: "string \<Rightarrow> attempt_limiter \<Rightarrow> attempt_limiter \<Rightarrow> bool" where
  "unseen s l l' \<longleftrightarrow> al_max l' = al_max l \<and> al_block_for l' = al_block_for l \<and>
     map_of (al_records l') s = map_of (al_records l) s \<and>
     (\<forall>a. map_of (al_records l) s = Some a \<longrightarrow> same_numbers (al_heap l ! a) (al_heap l' ! a)) \<and>
     (\<forall>a. (a, False) \<in> set (al_attempts l') \<and> ar_subject (al_heap l' ! a) = s \<longrightarrow>
        (a, False) \<in> set (al_attempts l) \<and> ar_subject (al_heap l ! a) = s)"

lemma unseen_refl: "unseen s l l"
  by (simp add: unseen_def same_numbers_def)

lemma unseen_trans: "unseen s l l' \<Longrightarrow> unseen s l' l'' \<Longrightarrow> unseen s l l''"
  unfolding unseen_def same_numbers_def by metis

lemma unseen_window:
  assumes "unseen s l l'" "window_ok s t0 l"
  shows "window_ok s t0 l'"
  unfolding window_ok_def
proof (intro conjI allI impI)
  show "map_of (al_records l') s = Some a"
    if "(a, False) \<in> set (al_attempts l') \<and> ar_subject (al_heap l' ! a) = s" for a
    using that assms unfolding unseen_def window_ok_def by metis
  show "within_budget t0 (al_max l') (al_heap l' ! a)" if "map_of (al_records l') s = Some a" for a
  proof -
    have "map_of (al_records l) s = Some a" "same_numbers (al_heap l ! a) (al_heap l' ! a)" "al_max l' = al_max l"
      using that assms(1) unfolding unseen_def by simp_all
    moreover have "within_budget t0 (al_max l) (al_heap l ! a)" if "map_of (al_records l) s = Some a"
      using that assms(2) unfolding window_ok_def by blast
    ultimately show ?thesis by (simp add: within_budget_def same_numbers_def)
  qed
qed

lemma unseen_budget: "unseen s l l' \<Longrightarrow> guess_budget s t0 l' = guess_budget s t0 l"
  by (auto simp: unseen_def guess_budget_def record_budget_def same_numbers_def split: option.split)

lemma heap_unlist:
  "b < length (al_heap l) \<Longrightarrow> same_numbers (al_heap l ! b) (al_heap (remove_locked a l) ! b) \<and>
   ar_subject (al_heap (remove_locked a l) ! b) = ar_subject (al_heap l ! b)"
  by (simp add: remove_locked_def Let_def heap_change same_numbers_def)

lemma remove_frame [simp]:
  "al_attempts (remove_locked a l) = al_attempts l" "length (al_heap (remove_locked a l)) = length (al_heap l)"
  "al_max (remove_locked a l) = al_max l" "al_block_for (remove_locked a l) = al_block_for l"
  "al_capacity (remove_locked a l) = al_capacity l"
  by (simp_all add: remove_locked_def Let_def)

lemma remove_tracked:
  "map_of (al_records (remove_locked a l)) s =
     (if map_of (al_records l) s = Some a \<and> ar_subject (al_heap l ! a) = s then None else map_of (al_records l) s)"
  by (simp add: remove_locked_def Let_def delete_conv)

lemma unseen_if:
  assumes "wf_limiter S l" "al_max l' = al_max l" "al_block_for l' = al_block_for l"
    "map_of (al_records l') s = map_of (al_records l) s"
    "\<And>a. map_of (al_records l) s = Some a \<Longrightarrow> a < length (al_heap l) \<Longrightarrow> ar_subject (al_heap l ! a) = s \<Longrightarrow>
       same_numbers (al_heap l ! a) (al_heap l' ! a)"
    "\<And>a. (a, False) \<in> set (al_attempts l') \<Longrightarrow> ar_subject (al_heap l' ! a) = s \<Longrightarrow> (a, False) \<in> set (al_attempts l)"
    "\<And>a. a < length (al_heap l) \<Longrightarrow> ar_subject (al_heap l' ! a) = ar_subject (al_heap l ! a)"
  shows "unseen s l l'"
proof -
  have "same_numbers (al_heap l ! a) (al_heap l' ! a)" if "map_of (al_records l) s = Some a" for a
    using assms(5) [OF that] wf_tracked [OF assms(1) that] by simp
  moreover have "(a, False) \<in> set (al_attempts l) \<and> ar_subject (al_heap l ! a) = s"
    if "(a, False) \<in> set (al_attempts l') \<and> ar_subject (al_heap l' ! a) = s" for a
    using assms(6) [of a] assms(7) [of a] wf_attempt [OF assms(1), of "(a, False)"] that by simp
  ultimately show ?thesis unfolding unseen_def using assms(2,3,4) by blast
qed

lemma unseen_remove:
  "wf_limiter S l \<Longrightarrow> map_of (al_records l) s \<noteq> Some a \<Longrightarrow> unseen s l (remove_locked a l)"
  by (rule unseen_if) (simp_all add: remove_tracked heap_unlist)

lemma unseen_change:
  assumes "wf_limiter S l" "ar_subject (al_heap l ! a) \<noteq> s" "\<And>r. ar_subject (f r) = ar_subject r"
  shows "unseen s l (change_record a f l)"
  by (rule unseen_if [OF assms(1)]) (use assms(2) in \<open>auto simp: heap_change same_numbers_def assms(3)\<close>)

lemma unseen_track:
  assumes "wf_limiter S l" "ar_subject (al_heap l ! a) \<noteq> s"
  shows "unseen s l (track a l)"
  by (rule unseen_if [OF assms(1)])
    (use assms(2) in \<open>auto simp: track_def heap_change same_numbers_def update_conv'\<close>)

lemma room_for:
  assumes "wf_limiter S l" "finite S" "card S \<le> al_capacity l" "s \<in> S" "map_of (al_records l) s = None"
  shows "length (al_records l) < al_capacity l"
proof -
  have "k \<in> S - {s}" if "k \<in> fst ` set (al_records l)" for k
  proof -
    have "map_of (al_records l) k \<noteq> None" using that by (simp add: map_of_eq_None_iff)
    then obtain a where a: "map_of (al_records l) k = Some a" by blast
    have "k \<noteq> s" using a assms(5) by auto
    with wf_tracked [OF assms(1) a] wf_subject [OF assms(1), of a] show ?thesis by simp
  qed
  then have "card (fst ` set (al_records l)) \<le> card (S - {s})"
    using assms(2) by (intro card_mono) auto
  moreover have "card (fst ` set (al_records l)) = length (al_records l)"
    using distinct_card [OF wf_distinct [OF assms(1)]] by simp
  moreover have "card (S - {s}) < card S" using assms(2,4) by (rule card_Diff1_less)
  ultimately show ?thesis using assms(3) by linarith
qed

lemma room_kept: "length (al_records l) < al_capacity l \<Longrightarrow> make_room_locked now l = l"
  by (simp add: make_room_locked_def)

definition reserve_back :: "nat \<Rightarrow> nat \<Rightarrow> attempt_limiter \<Rightarrow> attempt_limiter" where
  "reserve_back h a l = change_record a (\<lambda>r. r\<lparr>ar_in_flight := ar_in_flight r - 1\<rparr>)
     (l\<lparr>al_attempts := (al_attempts l)[h := (a, True)]\<rparr>)"

lemma settle_cases:
  assumes "wf_limiter S l" "attempt_subject l h = Some s"
  obtains (settled) "settle fn h l = l" "snd (al_attempts l ! h)"
  | (pending) a where "h < length (al_attempts l)" "al_attempts l ! h = (a, False)" "a < length (al_heap l)"
      "ar_subject (al_heap l ! a) = s" "settle fn h l = fn a (reserve_back h a l)" "wf_limiter S (reserve_back h a l)"
proof -
  obtain a d where h: "h < length (al_attempts l)" "al_attempts l ! h = (a, d)" "ar_subject (al_heap l ! a) = s"
    using assms(2) by (cases "al_attempts l ! h") (auto simp: attempt_subject_def split: if_splits)
  have a: "a < length (al_heap l)" using wf_attempt [OF assms(1) nth_mem [OF h(1)]] h(2) by simp
  show ?thesis
  proof (cases d)
    case True
    with h settled show ?thesis by (simp add: settle_def)
  next
    case False
    with h a pending wf_reserved [OF assms(1), of h a] show ?thesis by (simp add: settle_def reserve_back_def)
  qed
qed

lemma open_after_settle: "(b, False) \<in> set (xs[h := (a, True)]) \<Longrightarrow> (b, False) \<in> set xs"
  using set_update_subset_insert [of xs h "(a, True)"] by auto

lemma unseen_reserve:
  "wf_limiter S l \<Longrightarrow> ar_subject (al_heap l ! a) \<noteq> s \<Longrightarrow> unseen s l (reserve_back h a l)"
  unfolding reserve_back_def
  by (rule unseen_if) (auto simp: heap_change same_numbers_def dest: open_after_settle)

lemma unseen_admit:
  "wf_limiter S l \<Longrightarrow> a < length (al_heap l) \<Longrightarrow> ar_subject (al_heap l ! a) \<noteq> s \<Longrightarrow>
   unseen s l (snd (admit_locked now a l))"
  unfolding admit_locked_def Let_def snd_conv
  by (rule unseen_if) (auto simp: heap_change same_numbers_def)

lemma unseen_count:
  assumes "wf_limiter S l" "a < length (al_heap l)" "ar_subject (al_heap l ! a) \<noteq> s" "finite S" "card S \<le> al_capacity l"
  shows "unseen s l (count_failure now a l)"
proof -
  let ?l1 = "change_record a (add_failures now l 1) l"
  let ?r = "al_heap ?l1 ! a"
  have wf: "wf_limiter S ?l1" by (rule wf_change [OF assms(1)]) simp_all
  have r: "ar_subject ?r = ar_subject (al_heap l ! a)" using assms(2) by (simp add: heap_change)
  have first: "unseen s l ?l1" by (rule unseen_change [OF assms(1,3)]) simp
  show ?thesis
  proof (cases "map_of (al_records ?l1) (ar_subject ?r)")
    case None
    have "ar_subject ?r \<in> S" using wf_subject [OF assms(1,2)] r by simp
    from room_for [OF wf assms(4) _ this None] assms(5) have "make_room_locked now ?l1 = ?l1"
      by (simp add: room_kept)
    moreover have "unseen s ?l1 (track a ?l1)" using unseen_track [OF wf] r assms(3) by simp
    ultimately show ?thesis using None unseen_trans [OF first] by (simp add: count_failure_def Let_def)
  next
    case (Some b)
    have "ar_subject (al_heap ?l1 ! b) \<noteq> s" using wf_tracked [OF wf Some] r assms(3) by simp
    then have "unseen s ?l1 (change_record b (add_failures now ?l1 (ar_failures ?r)) ?l1)"
      by (rule unseen_change [OF wf]) simp
    then show ?thesis using Some first unseen_trans [OF first] by (simp add: count_failure_def Let_def)
  qed
qed

lemma unseen_insert:
  assumes "wf_limiter S l" "map_of (al_records l) s' = None" "s' \<in> S" "finite S" "card S \<le> al_capacity l" "s' \<noteq> s"
    "insert_locked now s' l = (a, l')"
  shows "unseen s l l' \<and> ar_subject (al_heap l' ! a) \<noteq> s"
proof -
  let ?r = "\<lparr>ar_subject = s', ar_failures = 0, ar_in_flight = 0, ar_last_try = zero_time,
               ar_blocked_until = zero_time, ar_listed = False\<rparr>"
  let ?l1 = "l\<lparr>al_heap := al_heap l @ [?r]\<rparr>"
  have l': "a = length (al_heap l)" "l' = track a ?l1"
    using room_kept [OF room_for [OF assms(1,4,5,3,2)]] assms(7) by (auto simp: insert_locked_def Let_def)
  have "unseen s l l'" unfolding l'
    by (rule unseen_if [OF assms(1)])
      (use assms(6) in \<open>auto simp: track_def heap_change same_numbers_def update_conv' nth_append\<close>)
  then show ?thesis using assms(6) by (simp add: l' track_def heap_change)
qed

text \<open>Sweeping drops the record of \<open>s\<close> only when the window owes it the whole budget anyway.\<close>

lemma sweep_one:
  assumes "guess_state S s t0 b l" "t0 \<le> now" "now < t0 + b" "stale_record now b (al_heap l ! a)"
  shows "guess_state S s t0 b (remove_locked a l) \<and> guess_budget s t0 (remove_locked a l) = guess_budget s t0 l"
proof -
  let ?l = "remove_locked a l"
  have wf: "wf_limiter S l" and w: "window_ok s t0 l" using assms(1) by (simp_all add: guess_state_def)
  have "window_ok s t0 ?l \<and> guess_budget s t0 ?l = guess_budget s t0 l"
  proof (cases "map_of (al_records l) s = Some a")
    case False
    then show ?thesis using unseen_remove [OF wf] unseen_window [OF _ w] unseen_budget by blast
  next
    case True
    note a = wf_tracked [OF wf True]
    have none: "map_of (al_records ?l) s = None" using True a by (simp add: remove_tracked)
    have "pending_at l a = 0" using wf_counts [OF wf, of a] a assms(4) by (simp add: stale_record_def)
    then have "(a, False) \<notin> set (al_attempts l)" by (auto simp: pending_at_def filter_empty_conv)
    then have "\<not> ((c, False) \<in> set (al_attempts ?l) \<and> ar_subject (al_heap ?l ! c) = s)" for c
      using w True wf_attempt [OF wf, of "(c, False)"] heap_unlist [of c l a] by (auto simp: window_ok_def)
    with none have "window_ok s t0 ?l" by (simp add: window_ok_def)
    moreover have "record_budget t0 l (al_heap l ! a) = nat (al_max l)"
      using assms by (auto simp: record_budget_def stale_record_def blocked_def guess_state_def)
    ultimately show ?thesis using none True by (simp add: guess_budget_def)
  qed
  then show ?thesis using assms(1) wf_remove [OF wf] by (simp add: guess_state_def)
qed

lemma sweep_all:
  assumes "guess_state S s t0 b l" "t0 \<le> now" "now < t0 + b"
  shows "guess_state S s t0 b (maybe_sweep_locked now l) \<and> guess_budget s t0 (maybe_sweep_locked now l) = guess_budget s t0 l"
proof -
  let ?f = "\<lambda>(s :: string, a) l. if stale_record now (al_block_for l) (al_heap l ! a) then remove_locked a l else l"
  have fold: "guess_state S s t0 b (fold ?f xs l') \<and> guess_budget s t0 (fold ?f xs l') = guess_budget s t0 l'"
    if "guess_state S s t0 b l'" for xs l'
    using that
  proof (induction xs arbitrary: l')
    case (Cons x xs)
    obtain k a where x: "x = (k, a)" by (rule prod.exhaust)
    have "al_block_for l' = b" using Cons.prems by (simp add: guess_state_def)
    then have "guess_state S s t0 b (?f x l') \<and> guess_budget s t0 (?f x l') = guess_budget s t0 l'"
      using sweep_one [OF Cons.prems assms(2,3), of a] Cons.prems x by simp
    with Cons.IH [of "?f x l'"] show ?case by simp
  qed simp
  have "unseen s l (l\<lparr>al_last_sweep := now\<rparr>)" by (simp add: unseen_def same_numbers_def)
  then have "guess_state S s t0 b (l\<lparr>al_last_sweep := now\<rparr>)" "guess_budget s t0 (l\<lparr>al_last_sweep := now\<rparr>) = guess_budget s t0 l"
    using assms(1) unseen_window unseen_budget by (auto simp: guess_state_def wf_limiter_def)
  with fold [of "l\<lparr>al_last_sweep := now\<rparr>" "al_records l"] assms(1) show ?thesis
    by (simp add: maybe_sweep_locked_def)
qed

section \<open>Operations on the subject itself\<close>

lemma window_okI:
  assumes "map_of (al_records l) s = Some a"
    "\<And>c. (c, False) \<in> set (al_attempts l) \<Longrightarrow> ar_subject (al_heap l ! c) = s \<Longrightarrow> c = a"
    "within_budget t0 (al_max l) (al_heap l ! a)"
  shows "window_ok s t0 l"
  unfolding window_ok_def
proof (intro conjI allI impI)
  show "map_of (al_records l) s = Some c" if "(c, False) \<in> set (al_attempts l) \<and> ar_subject (al_heap l ! c) = s" for c
    using assms(1,2) that by blast
  show "within_budget t0 (al_max l) (al_heap l ! c)" if "map_of (al_records l) s = Some c" for c
    using assms(1,3) that by simp
qed

lemma window_okD:
  assumes "window_ok s t0 l" "map_of (al_records l) s = Some a"
  shows "(c, False) \<in> set (al_attempts l) \<Longrightarrow> ar_subject (al_heap l ! c) = s \<Longrightarrow> c = a"
    and "within_budget t0 (al_max l) (al_heap l ! a)"
  using assms unfolding window_ok_def by (fastforce, blast)

lemma admit_own:
  assumes "wf_limiter S l" "map_of (al_records l) s = Some a"
    "\<And>c. (c, False) \<in> set (al_attempts l) \<Longrightarrow> ar_subject (al_heap l ! c) = s \<Longrightarrow> c = a"
    "ar_blocked_until (al_heap l ! a) = zero_time" "ar_failures (al_heap l ! a) + ar_in_flight (al_heap l ! a) < al_max l"
    "t0 \<le> now"
  shows "window_ok s t0 (snd (admit_locked now a l))" (is ?win)
    and "guess_budget s t0 (snd (admit_locked now a l)) = nat (al_max l - ar_failures (al_heap l ! a))" (is ?budget)
proof -
  let ?l = "snd (admit_locked now a l)"
  note a = wf_tracked [OF assms(1,2)]
  have l: "al_records ?l = al_records l" "al_max ?l = al_max l" "al_attempts ?l = al_attempts l @ [(a, False)]"
    by (simp_all add: admit_locked_def Let_def)
  have heap: "al_heap ?l ! c = (if c = a then (al_heap l ! a)\<lparr>ar_in_flight := ar_in_flight (al_heap l ! a) + 1, ar_last_try := now\<rparr>
      else al_heap l ! c)" if "c < length (al_heap l)" for c
    using that by (simp add: admit_locked_def Let_def heap_change)
  have own: "al_heap ?l ! a = (al_heap l ! a)\<lparr>ar_in_flight := ar_in_flight (al_heap l ! a) + 1, ar_last_try := now\<rparr>"
    using heap a by simp
  have "c = a" if c: "(c, False) \<in> set (al_attempts ?l)" "ar_subject (al_heap ?l ! c) = s" for c
  proof (rule ccontr)
    assume ne: "c \<noteq> a"
    then have in_l: "(c, False) \<in> set (al_attempts l)" using c(1) unfolding l by simp
    then have "al_heap ?l ! c = al_heap l ! c" using heap [of c] wf_attempt [OF assms(1) in_l] ne by simp
    with assms(3) [OF in_l] c(2) ne show False by simp
  qed
  then show ?win
    by (rule window_okI [rotated]) (use assms(2,4,5,6) in \<open>simp_all only: l own within_budget_def\<close>, simp_all)
  show ?budget
    using assms(2,4,6) by (simp add: guess_budget_def record_budget_def l own)
qed

lemma not_blocked_expired: "\<not> blocked now (expire_locked b now r) \<Longrightarrow> ar_blocked_until (expire_locked b now r) = zero_time"
  by (simp add: expire_locked_def Let_def blocked_def split: if_splits)

lemma change_own:
  assumes "wf_limiter S l" "window_ok s t0 l" "map_of (al_records l) s = Some a" "\<And>r. ar_subject (f r) = ar_subject r"
    "let r = f (al_heap l ! a) in
     within_budget t0 (al_max l) r"
  shows "window_ok s t0 (change_record a f l)"
    and "guess_budget s t0 (change_record a f l) = record_budget t0 l (f (al_heap l ! a))"
proof -
  note a = wf_tracked [OF assms(1,3)]
  have "c = a" if "(c, False) \<in> set (al_attempts l)" "ar_subject (al_heap (change_record a f l) ! c) = s" for c
    using window_okD(1) [OF assms(2,3) that(1)] that wf_attempt [OF assms(1) that(1)]
    by (simp add: heap_change assms(4) split: if_splits)
  then show "window_ok s t0 (change_record a f l)"
    using assms(3,5) a by (intro window_okI [of _ s a]) (simp_all add: heap_change Let_def)
  show "guess_budget s t0 (change_record a f l) = record_budget t0 l (f (al_heap l ! a))"
    using assms(3) a by (simp add: guess_budget_def record_budget_def heap_change)
qed

lemma expire_own:
  assumes "guess_state S s t0 b l" "t0 \<le> now" "now < t0 + b" "map_of (al_records l) s = Some a"
  shows "window_ok s t0 (change_record a (expire_locked b now) l)"
    and "guess_budget s t0 (change_record a (expire_locked b now) l) = guess_budget s t0 l"
proof -
  let ?r = "al_heap l ! a"
  have wf: "wf_limiter S l" and w: "window_ok s t0 l" and b: "al_block_for l = b" "0 < al_max l"
    using assms(1) by (simp_all add: guess_state_def)
  note w2 = window_okD(2) [OF w assms(4)]
  have keep: "let r = expire_locked b now ?r in
     within_budget t0 (al_max l) r"
    using w2 b(2) by (auto simp: expire_locked_def within_budget_def Let_def split: if_splits)
  show "window_ok s t0 (change_record a (expire_locked b now) l)"
    by (rule change_own(1) [where f = "expire_locked b now", OF wf w assms(4) _ keep]) simp
  have "record_budget t0 l (expire_locked b now ?r) = record_budget t0 l ?r"
    using assms(2,3) b by (auto simp: record_budget_def expire_locked_def blocked_def Let_def)
  then show "guess_budget s t0 (change_record a (expire_locked b now) l) = guess_budget s t0 l"
    using change_own(2) [where f = "expire_locked b now", OF wf w assms(4) _ keep] assms(4) by (simp add: guess_budget_def)
qed

lemma begin_tracked:
  assumes "guess_state S s t0 b l" "t0 \<le> now" "now < t0 + b" "map_of (al_records l) s = Some a"
    "\<not> blocked now (al_heap (change_record a (expire_locked b now) l) ! a)"
    "ar_failures (al_heap (change_record a (expire_locked b now) l) ! a) +
     ar_in_flight (al_heap (change_record a (expire_locked b now) l) ! a) < al_max l"
  shows "window_ok s t0 (snd (admit_locked now a (change_record a (expire_locked b now) l)))"
    and "guess_budget s t0 (snd (admit_locked now a (change_record a (expire_locked b now) l))) \<le> guess_budget s t0 l"
proof -
  let ?l = "change_record a (expire_locked b now) l"
  have wf: "wf_limiter S l" using assms(1) by (simp add: guess_state_def)
  have wf1: "wf_limiter S ?l" by (rule wf_change [OF wf]) simp_all
  note a = wf_tracked [OF wf assms(4)]
  note e = expire_own [OF assms(1-4)]
  have tr: "map_of (al_records ?l) s = Some a" using assms(4) by simp
  have bu: "ar_blocked_until (al_heap ?l ! a) = zero_time"
    using not_blocked_expired assms(5) a by (simp add: heap_change)
  note adm = admit_own [OF wf1 tr window_okD(1) [OF e(1) tr] bu _ assms(2)]
  show "window_ok s t0 (snd (admit_locked now a ?l))" using adm(1) assms(6) by simp
  have "guess_budget s t0 ?l = record_budget t0 ?l (al_heap ?l ! a)" using tr by (simp add: guess_budget_def)
  moreover have "nat (al_max ?l - ar_failures (al_heap ?l ! a)) \<le> record_budget t0 ?l (al_heap ?l ! a)"
    using wf_counts [OF wf1, of a] a bu by (auto simp: record_budget_def intro!: nat_mono)
  ultimately show "guess_budget s t0 (snd (admit_locked now a ?l)) \<le> guess_budget s t0 l"
    using adm(2) assms(6) e(2) by simp
qed

lemma begin_fresh:
  assumes "guess_state S s t0 b l" "t0 \<le> now" "map_of (al_records l) s = None" "s \<in> S" "finite S"
    "insert_locked now s l = (a, l')"
  shows "window_ok s t0 (snd (admit_locked now a l'))"
    and "guess_budget s t0 (snd (admit_locked now a l')) = guess_budget s t0 l"
proof -
  have wf: "wf_limiter S l" and w: "window_ok s t0 l" and cap: "card S \<le> al_capacity l" and pos: "0 < al_max l"
    using assms(1) by (simp_all add: guess_state_def)
  let ?r = "\<lparr>ar_subject = s, ar_failures = 0, ar_in_flight = 0, ar_last_try = zero_time,
               ar_blocked_until = zero_time, ar_listed = False\<rparr>"
  have l': "a = length (al_heap l)" "l' = track a (l\<lparr>al_heap := al_heap l @ [?r]\<rparr>)"
    using room_kept [OF room_for [OF wf assms(5) cap assms(4,3)]] assms(6) by (auto simp: insert_locked_def Let_def)
  have wf': "wf_limiter S l'" using wf_insert_locked [OF wf assms(4,6)] by simp
  have own: "al_heap l' ! a = ?r\<lparr>ar_listed := True\<rparr>" "al_max l' = al_max l" "al_attempts l' = al_attempts l"
    by (simp_all add: l' track_def heap_change)
  have tr: "map_of (al_records l') s = Some a" by (simp add: l' track_def update_conv')
  have none: "c = a" if "(c, False) \<in> set (al_attempts l')" "ar_subject (al_heap l' ! c) = s" for c
  proof -
    have c: "(c, False) \<in> set (al_attempts l)" using that(1) own(3) by simp
    then have "c < length (al_heap l)" using wf_attempt [OF wf] by fastforce
    then have "ar_subject (al_heap l ! c) = s" using that(2) by (simp add: l' track_def heap_change nth_append split: if_splits)
    with c w assms(3) show ?thesis by (auto simp: window_ok_def)
  qed
  note adm = admit_own [OF wf' tr none _ _ assms(2)]
  show "window_ok s t0 (snd (admit_locked now a l'))" using adm(1) pos by (simp add: own)
  show "guess_budget s t0 (snd (admit_locked now a l')) = guess_budget s t0 l"
    using adm(2) pos assms(3) by (simp add: own guess_budget_def)
qed

lemma pending_own:
  assumes "guess_state S s t0 b l" "h < length (al_attempts l)" "al_attempts l ! h = (a, False)" "ar_subject (al_heap l ! a) = s"
  shows "map_of (al_records l) s = Some a" "t0 \<le> ar_last_try (al_heap l ! a)" "ar_blocked_until (al_heap l ! a) = zero_time"
    "ar_failures (al_heap l ! a) + ar_in_flight (al_heap l ! a) \<le> al_max l" "1 \<le> ar_in_flight (al_heap l ! a)"
    "0 \<le> ar_failures (al_heap l ! a)"
proof -
  have wf: "wf_limiter S l" and w: "window_ok s t0 l" using assms(1) by (simp_all add: guess_state_def)
  have m: "(a, False) \<in> set (al_attempts l)" using nth_mem [OF assms(2)] assms(3) by simp
  then show tr: "map_of (al_records l) s = Some a" using w assms(4) by (simp add: window_ok_def)
  have "0 < pending_at l a" using m by (auto simp: pending_at_def filter_empty_conv)
  moreover note counts = wf_counts [OF wf] wf_tracked [OF wf tr]
  ultimately show one: "1 \<le> ar_in_flight (al_heap l ! a)" by simp
  show "0 \<le> ar_failures (al_heap l ! a)" using counts by simp
  show "t0 \<le> ar_last_try (al_heap l ! a)" "ar_blocked_until (al_heap l ! a) = zero_time"
    "ar_failures (al_heap l ! a) + ar_in_flight (al_heap l ! a) \<le> al_max l"
    using window_okD(2) [OF w tr] one by (simp_all add: within_budget_def)
qed

lemma reserve_own:
  assumes "guess_state S s t0 b l" "h < length (al_attempts l)" "al_attempts l ! h = (a, False)" "ar_subject (al_heap l ! a) = s"
  shows "window_ok s t0 (reserve_back h a l)" (is ?win)
    and "al_heap (reserve_back h a l) ! a = (al_heap l ! a)\<lparr>ar_in_flight := ar_in_flight (al_heap l ! a) - 1\<rparr>" (is ?rec)
    and "guess_budget s t0 (reserve_back h a l) = nat (al_max l - ar_failures (al_heap l ! a))" (is ?budget)
    and "guess_budget s t0 l = nat (al_max l - ar_failures (al_heap l ! a))" (is ?before)
proof -
  let ?l = "reserve_back h a l"
  have wf: "wf_limiter S l" and w: "window_ok s t0 l" using assms(1) by (simp_all add: guess_state_def)
  note p = pending_own [OF assms]
  note a = wf_tracked [OF wf p(1)]
  show own: ?rec using a by (simp add: reserve_back_def heap_change)
  have l: "al_records ?l = al_records l" "al_max ?l = al_max l" "al_attempts ?l = (al_attempts l)[h := (a, True)]"
    by (simp_all add: reserve_back_def)
  have "c = a" if "(c, False) \<in> set (al_attempts ?l)" "ar_subject (al_heap ?l ! c) = s" for c
  proof -
    have c: "(c, False) \<in> set (al_attempts l)" using that(1) unfolding l by (rule open_after_settle)
    then have "c < length (al_heap l)" using wf_attempt [OF wf] by fastforce
    then have "ar_subject (al_heap l ! c) = s" using that(2) by (simp add: reserve_back_def heap_change split: if_splits)
    then show ?thesis by (rule window_okD(1) [OF w p(1) c])
  qed
  then show ?win by (rule window_okI [rotated]) (use p in \<open>simp_all add: l own within_budget_def\<close>)
  show ?budget using p by (simp add: guess_budget_def record_budget_def l own)
  show ?before using p by (simp add: guess_budget_def record_budget_def)
qed

lemma fail_own:
  assumes "guess_state S s t0 b l" "h < length (al_attempts l)" "al_attempts l ! h = (a, False)" "ar_subject (al_heap l ! a) = s"
    "t0 \<le> now" "now < t0 + b" "wf_limiter S (reserve_back h a l)"
  shows "window_ok s t0 (count_failure now a (reserve_back h a l))"
    and "guess_budget s t0 (count_failure now a (reserve_back h a l)) < guess_budget s t0 l"
proof -
  let ?l = "reserve_back h a l"
  note p = pending_own [OF assms(1-4)] and r = reserve_own [OF assms(1-4)]
  have l: "al_records ?l = al_records l" "al_max ?l = al_max l" "al_block_for ?l = b" "length (al_heap ?l) = length (al_heap l)"
    using assms(1) by (simp_all add: reserve_back_def guess_state_def)
  have tr: "map_of (al_records ?l) s = Some a" using p(1) l by simp
  note a = wf_tracked [OF assms(7) tr]
  have t0: "0 \<le> t0" "now + b \<noteq> 0" using assms(1,5,6) by (auto simp: guess_state_def)
  have count: "count_failure now a ?l = change_record a (add_failures now ?l 1) ?l"
    using tr a by (simp add: count_failure_def Let_def heap_change)
  have rec: "add_failures now ?l 1 (al_heap ?l ! a) =
      (if ar_failures (al_heap l ! a) + 1 \<ge> al_max l
       then (al_heap l ! a)\<lparr>ar_in_flight := ar_in_flight (al_heap l ! a) - 1, ar_failures := ar_failures (al_heap l ! a) + 1,
          ar_blocked_until := now + b\<rparr>
       else (al_heap l ! a)\<lparr>ar_in_flight := ar_in_flight (al_heap l ! a) - 1, ar_failures := ar_failures (al_heap l ! a) + 1\<rparr>)"
    by (simp add: add_failures_def Let_def r(2) l)
  have keep: "let r = add_failures now ?l 1 (al_heap ?l ! a) in
     within_budget t0 (al_max ?l) r"
    unfolding rec l Let_def within_budget_def using p(2-6) t0 by auto
  note own = change_own [where f = "add_failures now ?l 1", OF assms(7) r(1) tr _ keep]
  show "window_ok s t0 (count_failure now a ?l)" unfolding count using own(1) by simp
  have "record_budget t0 ?l (add_failures now ?l 1 (al_heap ?l ! a)) < nat (al_max l - ar_failures (al_heap l ! a))"
    unfolding rec record_budget_def l using p(2-6) t0 assms(5) by auto
  then show "guess_budget s t0 (count_failure now a ?l) < guess_budget s t0 l"
    unfolding count r(4) using own(2) by simp
qed

section \<open>Every operation\<close>

lemma limiter_config:
  "al_max (limiter_step op l) = al_max l \<and> al_capacity (limiter_step op l) = al_capacity l \<and>
   al_block_for (limiter_step op l) = al_block_for l"
proof -
  have room: "al_max (make_room_locked now l) = al_max l" "al_capacity (make_room_locked now l) = al_capacity l"
    "al_block_for (make_room_locked now l) = al_block_for l" for now l
    by (simp_all add: make_room_locked_def split: option.split list.split)
  have tr: "al_max (track a l) = al_max l" "al_capacity (track a l) = al_capacity l" "al_block_for (track a l) = al_block_for l" for a l
    by (simp_all add: track_def)
  have "al_max (fold (\<lambda>(s, a) l. if stale_record now (al_block_for l) (al_heap l ! a) then remove_locked a l else l) xs l) = al_max l \<and>
    al_capacity (fold (\<lambda>(s, a) l. if stale_record now (al_block_for l) (al_heap l ! a) then remove_locked a l else l) xs l) = al_capacity l \<and>
    al_block_for (fold (\<lambda>(s, a) l. if stale_record now (al_block_for l) (al_heap l ! a) then remove_locked a l else l) xs l) = al_block_for l"
    for now and xs :: "(string \<times> nat) list" and l
    by (induction xs arbitrary: l) auto
  then have sw: "al_max (maybe_sweep_locked now l) = al_max l" "al_capacity (maybe_sweep_locked now l) = al_capacity l"
    "al_block_for (maybe_sweep_locked now l) = al_block_for l" for now l
    by (simp_all add: maybe_sweep_locked_def)
  show ?thesis
    by (cases op) (simp_all add: limiter_begin_def admit_locked_def insert_locked_def succeeded_def failed_def abandon_def
      settle_def count_failure_def Let_def room tr sw split: option.split prod.split)
qed

lemma begin_state:
  assumes "guess_state S s t0 b l" "t0 \<le> now" "now < t0 + b" "s' \<in> S"
  shows "window_ok s t0 (snd (limiter_begin now s' l)) \<and> guess_budget s t0 (snd (limiter_begin now s' l)) \<le> guess_budget s t0 l"
proof -
  let ?l = "maybe_sweep_locked now l"
  note sw = sweep_all [OF assms(1-3)]
  have st: "guess_state S s t0 b ?l" and bud: "guess_budget s t0 ?l = guess_budget s t0 l" using sw by simp_all
  have wf: "wf_limiter S ?l" and w: "window_ok s t0 ?l" and b: "al_block_for ?l = b" and S: "finite S" "card S \<le> al_capacity ?l"
    using st by (simp_all add: guess_state_def)
  have via: ?thesis if u: "unseen s ?l (snd (limiter_begin now s' l))"
    using unseen_window [OF u w] unseen_budget [OF u, of t0] bud by simp
  show ?thesis
  proof (cases "map_of (al_records ?l) s'")
    case None
    obtain a l1 where i: "insert_locked now s' ?l = (a, l1)" by (rule prod.exhaust)
    have res: "limiter_begin now s' l = admit_locked now a l1" using None i by (simp add: limiter_begin_def)
    note ins = wf_insert_locked [OF wf assms(4) i]
    show ?thesis
    proof (cases "s' = s")
      case True
      then show ?thesis unfolding res using begin_fresh [OF st assms(2) _ _ S(1)] None i assms(4) bud by simp
    next
      case False
      have "unseen s ?l l1 \<and> ar_subject (al_heap l1 ! a) \<noteq> s"
        by (rule unseen_insert [OF wf None assms(4) S False i])
      then show ?thesis using unseen_trans unseen_admit [of S l1 a s now] ins by (intro via) (auto simp: res)
    qed
  next
    case (Some a)
    let ?l1 = "change_record a (expire_locked b now) ?l"
    note a = wf_tracked [OF wf Some]
    have wf1: "wf_limiter S ?l1" by (rule wf_change [OF wf]) simp_all
    have res: "snd (limiter_begin now s' l) = ?l1 \<or> snd (limiter_begin now s' l) = snd (admit_locked now a ?l1) \<and>
        \<not> blocked now (al_heap ?l1 ! a) \<and> ar_failures (al_heap ?l1 ! a) + ar_in_flight (al_heap ?l1 ! a) < al_max ?l"
      using Some b by (simp add: limiter_begin_def Let_def)
    show ?thesis
    proof (cases "s' = s")
      case True
      with Some have tr: "map_of (al_records ?l) s = Some a" by simp
      from res show ?thesis
        using expire_own [OF st assms(2,3) tr] begin_tracked [OF st assms(2,3) tr] bud by auto
    next
      case False
      with a have ne: "ar_subject (al_heap ?l ! a) \<noteq> s" "ar_subject (al_heap ?l1 ! a) \<noteq> s" "a < length (al_heap ?l1)"
        by (simp_all add: heap_change)
      have u: "unseen s ?l ?l1" by (rule unseen_change [OF wf ne(1)]) simp
      from res show ?thesis
        using u unseen_trans [OF u unseen_admit [OF wf1 ne(3,2), of now]] by (intro via) auto
    qed
  qed
qed

lemma settle_other:
  assumes "wf_limiter S l" "attempt_subject l h = Some s'" "s' \<noteq> s"
    "\<And>a l'. wf_limiter S l' \<Longrightarrow> a < length (al_heap l') \<Longrightarrow> ar_subject (al_heap l' ! a) \<noteq> s \<Longrightarrow>
       al_capacity l' = al_capacity l \<Longrightarrow> unseen s l' (fn a l')"
  shows "unseen s l (settle fn h l)"
  using assms(1,2)
proof (cases rule: settle_cases [where fn = fn])
  case settled
  then show ?thesis by (simp add: unseen_refl)
next
  case (pending a)
  let ?l = "reserve_back h a l"
  have l: "al_capacity ?l = al_capacity l" "a < length (al_heap ?l)" "ar_subject (al_heap ?l ! a) \<noteq> s"
    using pending assms(3) by (simp_all add: reserve_back_def heap_change)
  have "unseen s l ?l" using pending assms(3) by (intro unseen_reserve [OF assms(1)]) simp
  then have "unseen s l (fn a ?l)" by (rule unseen_trans) (rule assms(4) [OF pending(6) l(2,3,1)])
  then show ?thesis using pending(5) by simp
qed

lemma fail_state:
  assumes "guess_state S s t0 b l" "t0 \<le> now" "now < t0 + b" "attempt_subject l h = Some s"
  shows "window_ok s t0 (failed now h l)" (is ?win)
    and "if snd (al_attempts l ! h) then failed now h l = l else guess_budget s t0 (failed now h l) < guess_budget s t0 l" (is ?less)
proof -
  have wf: "wf_limiter S l" and w: "window_ok s t0 l" using assms(1) by (simp_all add: guess_state_def)
  have "?win \<and> ?less" using wf assms(4)
  proof (cases rule: settle_cases [where fn = "count_failure now"])
    case settled
    then show ?thesis using w by (simp add: failed_def)
  next
    case (pending a)
    then show ?thesis using fail_own [OF assms(1) pending(1,2,4) assms(2,3)] by (simp add: failed_def)
  qed
  then show ?win ?less by simp_all
qed

lemma abandon_state:
  assumes "guess_state S s t0 b l" "attempt_subject l h = Some s"
  shows "window_ok s t0 (abandon h l) \<and> guess_budget s t0 (abandon h l) = guess_budget s t0 l"
proof -
  have wf: "wf_limiter S l" and w: "window_ok s t0 l" using assms(1) by (simp_all add: guess_state_def)
  show ?thesis using wf assms(2)
  proof (cases rule: settle_cases [where fn = "\<lambda>a l. l"])
    case settled
    then show ?thesis using w by (simp add: abandon_def)
  next
    case (pending a)
    then show ?thesis using reserve_own [OF assms(1) pending(1,2,4)] by (simp add: abandon_def)
  qed
qed

lemma limiter_step_state:
  assumes "window_op S s t0 b op" "guess_state S s t0 b l"
  shows "guess_state S s t0 b (limiter_step op l)" (is ?state)
    and "guess_budget s t0 (limiter_step op l) \<le> guess_budget s t0 l" (is ?mono)
    and "wrong_guess s op l \<Longrightarrow> guess_budget s t0 (limiter_step op l) < guess_budget s t0 l" (is "_ \<Longrightarrow> ?less")
proof -
  have wf: "wf_limiter S l" and w: "window_ok s t0 l" and S: "finite S" "card S \<le> al_capacity l"
    using assms(2) by (simp_all add: guess_state_def)
  have via: "window_ok s t0 l' \<and> guess_budget s t0 l' \<le> guess_budget s t0 l" if "unseen s l l'" for l'
    using unseen_window [OF that w] unseen_budget [OF that, of t0] by simp
  have "window_ok s t0 (limiter_step op l) \<and> ?mono \<and> (wrong_guess s op l \<longrightarrow> ?less)"
  proof (cases op)
    case (Begin now s')
    then show ?thesis using begin_state [OF assms(2), of now s'] assms(1) by (simp add: window_op_def)
  next
    case (Succeed s' h)
    then have ne: "s' \<noteq> s" using assms(1) by (simp add: window_op_def)
    have "unseen s l' (remove_locked a l')" if "wf_limiter S l'" "ar_subject (al_heap l' ! a) \<noteq> s" for a l'
      using wf_tracked [OF that(1), of s a] that(2) by (intro unseen_remove [OF that(1)]) auto
    then have "unseen s l (succeeded h l)" if "attempt_subject l h = Some s'"
      unfolding succeeded_def by (intro settle_other [OF wf that ne])
    then show ?thesis using via w Succeed by simp
  next
    case (Fail now s' h)
    then have now: "t0 \<le> now" "now < t0 + b" using assms(1) by (simp_all add: window_op_def)
    have other: "unseen s l (failed now h l)" if "attempt_subject l h = Some s'" "s' \<noteq> s"
      unfolding failed_def using S by (intro settle_other [OF wf that] unseen_count) simp_all
    show ?thesis
    proof (cases "attempt_subject l h = Some s' \<and> s' = s")
      case True
      then show ?thesis using Fail fail_state [OF assms(2) now, of h] w by (auto split: if_splits)
    next
      case False
      then show ?thesis using Fail via other w by auto
    qed
  next
    case (Abandon s' h)
    have "unseen s l (abandon h l)" if "attempt_subject l h = Some s'" "s' \<noteq> s"
      unfolding abandon_def by (intro settle_other [OF wf that] unseen_refl)
    then show ?thesis using Abandon via abandon_state [OF assms(2), of h] w by (cases "s' = s") simp_all
  qed
  then show ?state ?mono "wrong_guess s op l \<Longrightarrow> ?less"
    using assms wf_limiter_step [of op S l] limiter_config [of op l] by (simp_all add: guess_state_def window_op_def)
qed

interpretation guesses: ranked_steps limiter_step "window_op S s t0 b" "guess_state S s t0 b" "guess_budget s t0" "wrong_guess s"
  by unfold_locales (rule limiter_step_state; assumption)+

section \<open>Guesses in one block period\<close>

lemma open_within_budget:
  assumes "guess_state S s t0 b l"
  shows "open_attempts s l \<le> guess_budget s t0 l"
proof (cases "\<exists>a. (a, False) \<in> set (al_attempts l) \<and> ar_subject (al_heap l ! a) = s")
  case True
  then obtain a where a: "(a, False) \<in> set (al_attempts l)" "ar_subject (al_heap l ! a) = s" by blast
  then obtain h where h: "h < length (al_attempts l)" "al_attempts l ! h = (a, False)" by (auto simp: in_set_conv_nth)
  have wf: "wf_limiter S l" and w: "window_ok s t0 l" using assms by (simp_all add: guess_state_def)
  note p = pending_own [OF assms h a(2)]
  have "((\<lambda>(c, settled). \<not> settled \<and> ar_subject (al_heap l ! c) = s) x) = (x = (a, False))" if "x \<in> set (al_attempts l)" for x
    using that window_okD(1) [OF w p(1)] a(2) by (cases x) auto
  then have "open_attempts s l = pending_at l a" unfolding open_attempts_def pending_at_def
    by (intro arg_cong [where f = length] filter_cong) auto
  then show ?thesis
    using wf_counts [OF wf, of a] wf_tracked [OF wf p(1)] p reserve_own(4) [OF assms h a(2)] by linarith
next
  case False
  then have "filter (\<lambda>(a, settled). \<not> settled \<and> ar_subject (al_heap l ! a) = s) (al_attempts l) = []"
    by (auto simp: filter_empty_conv)
  then show ?thesis by (simp add: open_attempts_def)
qed

lemma new_limiter_wf: "wf_limiter S (new_attempt_limiter n b)"
  by (simp add: wf_limiter_def new_attempt_limiter_def)

lemma limiter_config_run:
  "al_max (run limiter_step ops l) = al_max l" "al_capacity (run limiter_step ops l) = al_capacity l"
  "al_block_for (run limiter_step ops l) = al_block_for l"
  by (induction ops arbitrary: l) (simp_all add: limiter_config)

lemma idle_window_ok:
  assumes "wf_limiter S l" "open_attempts s l = 0"
  shows "window_ok s t0 l"
proof -
  have none: "\<not> ((a, False) \<in> set (al_attempts l) \<and> ar_subject (al_heap l ! a) = s)" for a
    using assms(2) by (auto simp: open_attempts_def filter_empty_conv)
  have "within_budget t0 (al_max l) (al_heap l ! a)" if "map_of (al_records l) s = Some a" for a
  proof -
    note a = wf_tracked [OF assms(1) that]
    have "(a, False) \<notin> set (al_attempts l)" using none a by blast
    then have "pending_at l a = 0" by (auto simp: pending_at_def filter_empty_conv)
    then show ?thesis using wf_counts [OF assms(1), of a] a by (simp add: within_budget_def)
  qed
  with none show ?thesis unfolding window_ok_def by blast
qed


lemmas limiter_eval = limiter_begin_def maybe_sweep_locked_def new_attempt_limiter_def insert_locked_def
  make_room_locked_def track_def change_record_def admit_locked_def attempt_subject_def failed_def settle_def
  count_failure_def add_failures_def expire_locked_def blocked_def max_tracked_subjects_def sweep_interval_def Let_def


end
