(* ===== verification/Spec2Isabelle.thy ===== *)
theory Spec2Isabelle
  imports Go_Prelude Run_Traces Message_Filter Quarantine Rate_Limiter Rate_Pace Lease_Queue Outbox_Store
    Bounce_Class Suppression_List Allowed_Senders Event_Log Send_Request Delivery_Pass Ttl_Cache Send_Admission
    Queue_Worker Worker_Progress Webhook_Queue Go_Encoding Go_Numbers Secrets Key_Change Webhook_Worker Egress Webhook_Admin
    Attempt_Limiter
begin

text \<open>
  A verification library for panmail, a multi-tenant e-mail gateway written in Go.

  \<^bold>\<open>The program.\<close> A tenant submits mail (\<open>internal/email/usecases\<close>); admission validates the request,
  applies the ceilings of the rate limiter, screens it with the tenant's filter rules, and writes one row to the
  outbox or to the quarantine. The outbox worker claims rows under a lease, hands every recipient to a provider
  and settles the outcome with a retry, a bounce verdict or a deletion. Every outcome is an event; events feed
  the suppression list, which admission and delivery consult, and the webhook queue, which tells the tenant.
  Reviewers decide on quarantined mail. Stored credentials are sealed with a keyring.

  \<^bold>\<open>Conventions.\<close> A struct is a record, an enumeration a datatype, an error a value on the left of a sum. A SQL
  table is the list of its rows; a statement is a function on the list, and one Boolean argument per round trip
  to the database says whether it succeeded. The clock, fresh identifiers, claim tokens and nonces are
  arguments. Code that is not under \<open>src/\<close> is a parameter: the cipher and the digest (\<open>Secrets\<close>), the
  providers' answers (\<open>Delivery_Pass\<close>), compiled patterns of the filter (\<open>Message_Filter\<close>). Goroutines are
  sequences of atomic steps; a claim about concurrency quantifies over every such sequence (\<open>Run_Traces\<close>).

  \<^bold>\<open>Shared theories.\<close>
  \<^item> \<open>Go_Prelude\<close>: results, the strings package, times and durations, tables as lists of rows.
  \<^item> \<open>Go_Encoding\<close>, \<open>Go_Numbers\<close>: hexadecimal, base64 and decimal numbers with their round trips.
  \<^item> \<open>Run_Traces\<close>: runs of operations; the locales for step invariants, for events that happen once, and for
    ranks that bound how often an operation can happen.
  \<^item> \<open>Lease_Queue\<close>: the locale of a table claimed by lease; interpreted on the outbox and on the webhook queue.

  \<^bold>\<open>Mail filter and quarantine.\<close>
  \<^item> \<open>Message_Filter\<close> (\<open>emailfilter/message.go, condition.go, rule.go\<close>): conditions, validation and evaluation;
    the first enabled matching rule decides.
  \<^item> \<open>Quarantine\<close> (\<open>emailfilter/screen.go, quarantine.go, review.go, expiry.go, held_event.go\<close>,
    \<open>stores/postgres/quarantine.go\<close>): a held message is decided once, by one reviewer; releases deliver;
    expiry respects reviews; pages are complete.

  \<^bold>\<open>Ceilings.\<close>
  \<^item> \<open>Rate_Limiter\<close>, \<open>Rate_Pace\<close> (\<open>ratelimit/limiter.go\<close>): token buckets, the bounded table of them, several
    ceilings charged all or none; what is let through in a window is bounded; the advertised wait is exact.

  \<^bold>\<open>Sending.\<close>
  \<^item> \<open>Send_Request\<close>, \<open>Send_Admission\<close> (\<open>send_email_usecase.go\<close> and its siblings): validation, idempotent replay,
    the backlog, and that a send leaves all of its traces or none.
  \<^item> \<open>Outbox_Store\<close> (\<open>outbox_store.go\<close> and its SQL): claims by lease are exclusive, keys are used once.
  \<^item> \<open>Delivery_Pass\<close> (\<open>doSend\<close>): which recipient is handed to which provider; no recipient with a recorded
    delivery is handed over again; a pass accounts for every recipient.
  \<^item> \<open>Queue_Worker\<close>, \<open>Worker_Progress\<close> (\<open>queue_worker.go, queue_worker_lease.go\<close>): the verdicts, the retry
    schedule, and that retries end.
  \<^item> \<open>Allowed_Senders\<close> (\<open>email_provider/senders\<close>), \<open>Bounce_Class\<close> (\<open>pkg/emailutil/bounce.go\<close>),
    \<open>Suppression_List\<close>, \<open>Event_Log\<close>, \<open>Ttl_Cache\<close> (\<open>pkg/cache\<close>): the parts a pass consults.

  \<^bold>\<open>Webhooks.\<close>
  \<^item> \<open>Webhook_Queue\<close> (\<open>delivery_store.go\<close> and its SQL): fair claims; outcomes under a lost claim are refused.
  \<^item> \<open>Webhook_Worker\<close> (\<open>webhook/worker/durable_worker.go, delivery.go, tester.go\<close>): a pass over the queue, the
    retry schedule and the signature; an attempt fits its lease, a pass hands back what it claimed, the
    attempts at a notification are bounded, and a signature covers timestamp and body.
  \<^item> \<open>Egress\<close> (\<open>webhook/egress/egress.go\<close>): the addresses a notification may be posted to; exactly the private
    and reserved blocks are refused, at save time and at dial time.
  \<^item> \<open>Webhook_Admin\<close> (\<open>webhook_usecase.go, webhook_service.go\<close>, the subscription store): subscriptions are
    isolated between tenants and keep their signing secret.

  \<^bold>\<open>Credentials.\<close>
  \<^item> \<open>Secrets\<close> (\<open>pkg/secrets/keyring.go\<close>): what is sealed can be read by every keyring that has the key.
  \<^item> \<open>Key_Change\<close> (\<open>system_settings/usecases/data_key.go\<close> and the rotation of every store): a change of key
    loses nothing, whatever fails on the way.

  \<^bold>\<open>Sign-in.\<close>
  \<^item> \<open>Attempt_Limiter\<close> (\<open>auth/usecases/attempt_limiter.go\<close>): attempts hold pointers to records the limiter may
    have dropped, so records live in a heap; the wrong guesses at one subject in one block period are bounded,
    however many run at once.

  \<^bold>\<open>Bounds and fuel.\<close> No definition uses fuel: every recursion is structural or has a measure.

  \<^bold>\<open>Not modelled.\<close> The wiring of \<open>cmd/api\<close> and the generated protobuf and connect code; transports (HTTP, SMTP,
  IMAP) and the SMTP listener, which are network I/O; the Pebble event store, MIME and attachment parsing, which
  sit on libraries; accounts, sessions, roles and API keys, where only the limiter of attempts is covered;
  management of providers, templates, tenants and settings, apart from what sending reads of them and the change
  of the data key; tracking links; the workers for inbound mail, retention and copies to the sent folder; the
  user interface, metrics, logging, migrations and backups. For the later groups the limit is the extent of this
  library and not a property of the code.
\<close>

end
